(* ===== verification/Prelude.thy ===== *)
theory Prelude
  imports Main "HOL-Library.Word" "HOL-Library.Product_Lexorder" "HOL-Library.List_Lexorder"
    "HOL-Library.Char_ord" "HOL-Library.Multiset"
begin

text \<open>
  Shared vocabulary of the development: Go error values and results, the outcome of a database
  statement, the SQL row operations (UPDATE with RETURNING, INSERT from a query, ORDER BY) that
  the statements of internal/store are written with, and the generic lemmas the components use.

  Instants are integers. A Postgres \<open>TIMESTAMPTZ\<close> counts microseconds, a Go \<open>time.Time\<close>
  nanoseconds; a Go \<open>time.Duration\<close> is a signed 64-bit count of nanoseconds.
\<close>

named_theorems stmt_defs "the statements of the store that write"
named_theorems call_defs "the methods of the store that run one such statement"
named_theorems row_defs "the SET lists of the store's updates"

type_synonym duration = "64 word"

section \<open>Errors and results\<close>

text \<open>
  What the driver reports: no row for a single-row query, an error of the server (SQLSTATE and
  message), or a failed connection or cancelled context.
\<close>

datatype db_err = NoRows | PgErr string string | ConnErr string

text \<open>\<open>fmt.Errorf("store: ...: %w", err)\<close>: a prefix around the driver's error.\<close>

datatype go_err = Wrapped string db_err

type_synonym 'a result = "go_err + 'a"

fun errors_Is :: "go_err \<Rightarrow> db_err \<Rightarrow> bool" where
  "errors_Is (Wrapped _ e) target = (e = target)"

text \<open>\<open>err.Error()\<close>: the texts of \<open>pgx.ErrNoRows\<close> and of the driver's server errors.\<close>

fun db_err_text :: "db_err \<Rightarrow> string" where
  "db_err_text NoRows = ''no rows in result set''"
| "db_err_text (PgErr code msg) = ''ERROR: '' @ msg @ '' (SQLSTATE '' @ code @ '')''"
| "db_err_text (ConnErr msg) = msg"

fun err_Error :: "go_err \<Rightarrow> string" where
  "err_Error (Wrapped what e) = what @ '': '' @ db_err_text e"

section \<open>SQL operations on a table, a list of rows\<close>

text \<open>\<open>UPDATE t SET f WHERE p\<close> and the rows of its \<open>RETURNING\<close> clause.\<close>

definition sql_update :: "('r \<Rightarrow> bool) \<Rightarrow> ('r \<Rightarrow> 'r) \<Rightarrow> 'r list \<Rightarrow> 'r list" where
  "sql_update p f rows = map (\<lambda>r. if p r then f r else r) rows"

definition sql_returning :: "('r \<Rightarrow> bool) \<Rightarrow> ('r \<Rightarrow> 'r) \<Rightarrow> 'r list \<Rightarrow> 'r list" where
  "sql_returning p f rows = map f (filter p rows)"

text \<open>Identity values for a list of inserted rows, drawn from a sequence.\<close>

primrec number_from :: "int \<Rightarrow> 'a list \<Rightarrow> (int \<times> 'a) list" where
  "number_from n [] = []"
| "number_from n (x # xs) = (n, x) # number_from (n + 1) xs"

text \<open>
  A scan returns the rows of a table in an order Postgres is free to choose. \<open>pos\<close> is that
  choice, as a position for every primary key: every order of rows with distinct keys arises so.
\<close>

definition scan_by :: "(int \<Rightarrow> int) \<Rightarrow> ('r \<Rightarrow> int) \<Rightarrow> 'r list \<Rightarrow> 'r list" where
  "scan_by pos key rows = sort_key (\<lambda>r. pos (key r)) rows"

text \<open>Postgres INTEGER, and Go's \<open>int32(n)\<close>, which keeps the low 32 bits.\<close>

definition int4_max :: int where
  "int4_max = 2147483647"

definition go_int32 :: "int \<Rightarrow> int" where
  "go_int32 n = sint (word_of_int n :: 32 word)"

definition go_uint32 :: "int \<Rightarrow> int" where
  "go_uint32 n = uint (word_of_int n :: 32 word)"

section \<open>Lemmas\<close>

lemma sql_update_Nil [simp]: "sql_update p f [] = []"
  by (simp add: sql_update_def)

lemma sql_update_Cons [simp]:
  "sql_update p f (r # rs) = (if p r then f r else r) # sql_update p f rs"
  by (simp add: sql_update_def)

lemma length_sql_update [simp]: "length (sql_update p f rows) = length rows"
  by (simp add: sql_update_def)

lemma set_sql_update: "set (sql_update p f rows) = {r \<in> set rows. \<not> p r} \<union> f ` {r \<in> set rows. p r}"
  by (auto simp: sql_update_def)

lemma set_sql_returning [simp]: "set (sql_returning p f rows) = f ` {r \<in> set rows. p r}"
  by (auto simp: sql_returning_def)

lemma sql_update_none: "(\<And>r. r \<in> set rows \<Longrightarrow> \<not> p r) \<Longrightarrow> sql_update p f rows = rows"
  by (induction rows) auto

lemma map_number_from [simp]: "map snd (number_from n xs) = xs"
  by (induction xs arbitrary: n) auto

lemma length_number_from [simp]: "length (number_from n xs) = length xs"
  by (induction xs arbitrary: n) auto

lemma number_from_append:
  "number_from n (xs @ ys) = number_from n xs @ number_from (n + int (length xs)) ys"
  by (induction xs arbitrary: n) (auto simp: algebra_simps)

lemma number_from_bounds: "(i, x) \<in> set (number_from n xs) \<Longrightarrow> n \<le> i \<and> i < n + int (length xs)"
  by (induction xs arbitrary: n) force+


lemma distinct_fst_number_from: "distinct (map fst (number_from n xs))"
proof (induction xs arbitrary: n)
  case (Cons x xs)
  have "n \<notin> fst ` set (number_from (n + 1) xs)"
    by (force dest: number_from_bounds)
  with Cons show ?case by simp
qed simp

lemma number_from_eq_Nil [simp]: "number_from n xs = [] \<longleftrightarrow> xs = []"
  by (cases xs) simp_all

text \<open>Lookups by a key that is distinct over the rows, as a primary key is.\<close>

lemma find_key_Some_iff:
  assumes "distinct (map key rows)"
  shows "find (\<lambda>r. key r = k) rows = Some r \<longleftrightarrow> r \<in> set rows \<and> key r = k"
  using assms by (induction rows) (auto simp: image_iff)

lemma find_key_None_iff: "find (\<lambda>r. key r = k) rows = None \<longleftrightarrow> k \<notin> key ` set rows"
  by (auto simp: find_None_iff)

lemma find_key_SomeD: "find (\<lambda>r. key r = k) rows = Some r \<Longrightarrow> r \<in> set rows \<and> key r = k"
  by (auto simp: find_Some_iff)

lemma find_append: "find P (xs @ ys) = (case find P xs of None \<Rightarrow> find P ys | Some x \<Rightarrow> Some x)"
  by (induction xs) auto

lemma find_key_cong:
  assumes "distinct (map key xs)" "distinct (map key ys)" "set xs = set ys"
  shows "find (\<lambda>r. key r = k) xs = find (\<lambda>r. key r = k) ys"
proof (cases "find (\<lambda>r. key r = k) ys")
  case None
  then have "find (\<lambda>r. key r = k) xs = None" by (simp add: find_key_None_iff assms(3))
  with None show ?thesis by simp
next
  case (Some r)
  then have "r \<in> set xs" "key r = k" using assms(3) by (auto dest: find_key_SomeD)
  with Some assms(1) show ?thesis by (simp add: find_key_Some_iff)
qed

lemma distinct_map_filter_key: "distinct (map key rows) \<Longrightarrow> distinct (map key (filter p rows))"
  by (induction rows) auto

lemma distinct_map_if_mset:
  assumes "mset xs = mset ys"
  shows "distinct (map key xs) \<longleftrightarrow> distinct (map key ys)"
proof -
  from assms have "mset (map key xs) = mset (map key ys)" by simp
  then show ?thesis by (rule mset_eq_imp_distinct_iff)
qed

lemma mset_scan_by [simp]: "mset (scan_by pos key rows) = mset rows"
  by (simp add: scan_by_def)

lemma set_scan_by [simp]: "set (scan_by pos key rows) = set rows"
  by (simp add: scan_by_def)

lemma length_scan_by [simp]: "length (scan_by pos key rows) = length rows"
  by (simp add: scan_by_def)

lemma distinct_scan_by [simp]: "distinct (map k (scan_by pos key rows)) \<longleftrightarrow> distinct (map k rows)"
  by (rule distinct_map_if_mset) simp

lemma scan_by_Nil [simp]: "scan_by pos key [] = []"
  by (simp add: scan_by_def)

lemma scan_by_single [simp]: "scan_by pos key [r] = [r]"
  by (simp add: scan_by_def)

lemma go_int32_id: "- int4_max - 1 \<le> n \<Longrightarrow> n \<le> int4_max \<Longrightarrow> go_int32 n = n"
  by (simp add: go_int32_def int4_max_def sint_sbintrunc' signed_take_bit_int_eq_self)

lemma go_uint32_id: "0 \<le> n \<Longrightarrow> n \<le> int4_max \<Longrightarrow> go_uint32 n = n"
  by (simp add: go_uint32_def int4_max_def take_bit_int_eq_self uint_word_of_int)

section \<open>Updates that keep the primary key\<close>

text \<open>
  Every \<open>UPDATE\<close> of the store leaves the primary key alone. The facts this gives about the
  whole table are proved once, for any key and any such row update.
\<close>

locale row_update =
  fixes key :: "'r \<Rightarrow> int"
    and upd :: "'r \<Rightarrow> 'r"
  assumes key_upd: "key (upd r) = key r"
begin

lemma map_key_update: "map key (sql_update p upd rows) = map key rows"
  by (induction rows) (simp_all add: key_upd)

lemma distinct_update: "distinct (map key (sql_update p upd rows)) \<longleftrightarrow> distinct (map key rows)"
  by (simp add: map_key_update)

lemma key_image_update: "key ` set (sql_update p upd rows) = key ` set rows"
  by (metis map_key_update set_map)

lemma map_key_returning: "map key (sql_returning p upd rows) = map key (filter p rows)"
  by (induction rows) (simp_all add: sql_returning_def key_upd)

lemma distinct_returning: "distinct (map key rows) \<Longrightarrow> distinct (map key (sql_returning p upd rows))"
  by (simp add: map_key_returning distinct_map_filter_key)

lemma find_update:
  "find (\<lambda>r. key r = k) (sql_update p upd rows) =
     map_option (\<lambda>r. if p r then upd r else r) (find (\<lambda>r. key r = k) rows)"
  by (induction rows) (auto simp: key_upd)

lemma find_returning:
  assumes "distinct (map key rows)"
  shows "find (\<lambda>r. key r = k) (sql_returning p upd rows) =
     (case find (\<lambda>r. key r = k) rows of None \<Rightarrow> None | Some r \<Rightarrow> if p r then Some (upd r) else None)"
  using assms
  by (induction rows) (auto simp: sql_returning_def key_upd dest!: find_key_SomeD split: option.splits)

end


section \<open>Step relations\<close>

text \<open>What every step of a system keeps holds in every state it reaches.\<close>

locale step_invariant =
  fixes step :: "'s \<Rightarrow> 's \<Rightarrow> bool" and inv :: "'s \<Rightarrow> bool"
  assumes step_keeps: "step s s' \<Longrightarrow> inv s \<Longrightarrow> inv s'"
begin

lemma reachable_inv: "step\<^sup>*\<^sup>* s s' \<Longrightarrow> inv s \<Longrightarrow> inv s'"
  by (induction rule: rtranclp_induct) (blast intro: step_keeps)+

end

end
