(* ===== verification/Job.thy ===== *)
theory Job
  imports Prelude
begin

text \<open>
  The domain types of internal/job: the lifecycle status of a job, the event types of the
  outbox, and the structs the store hands out. The two string-typed enumerations are datatypes
  here, with the source's strings in \<open>status_string\<close> and \<open>event_string\<close>.
\<close>

section \<open>Status and event types\<close>

datatype status = StatusQueued | StatusRunning | StatusCompleted | StatusFailed

datatype event_type = EventEnqueued | EventClaimed | EventCompleted | EventRetried | EventFailed
  | EventReapedRetry | EventReapedFailed

fun status_string :: "status \<Rightarrow> string" where
  "status_string StatusQueued = ''queued''"
| "status_string StatusRunning = ''running''"
| "status_string StatusCompleted = ''completed''"
| "status_string StatusFailed = ''failed''"

fun event_string :: "event_type \<Rightarrow> string" where
  "event_string EventEnqueued = ''enqueued''"
| "event_string EventClaimed = ''claimed''"
| "event_string EventCompleted = ''completed''"
| "event_string EventRetried = ''retried''"
| "event_string EventFailed = ''failed''"
| "event_string EventReapedRetry = ''reaped_retry''"
| "event_string EventReapedFailed = ''reaped_failed''"

section \<open>Structs\<close>

text \<open>\<open>job.Job\<close>: what \<open>Claim\<close> returns to a worker.\<close>

record job =
  j_id :: int
  j_type :: string
  j_payload :: string
  j_attempts :: int
  j_max_attempts :: int
  j_trace_context :: string

text \<open>\<open>job.Snapshot\<close>: what \<open>GetStatus\<close> returns.\<close>

record snapshot =
  s_id :: int
  s_status :: status
  s_attempts :: int
  s_max_attempts :: int
  s_last_error :: string

text \<open>\<open>job.DeadLetter\<close>, which is also the shape of a row of \<open>dead_letters\<close>.\<close>

record dead_letter =
  d_id :: int
  d_job_id :: int
  d_type :: string
  d_payload :: string
  d_attempts :: int
  d_last_error :: string
  d_failed_at :: int

text \<open>\<open>job.Event\<close>: one row of the outbox as the shipper sees it.\<close>

record event =
  e_id :: int
  e_job_id :: int
  e_job_type :: string
  e_event_type :: event_type
  e_attempts :: int
  e_worker_id :: string
  e_error_message :: string
  e_occurred_at :: int

section \<open>Lemmas\<close>

lemma status_string_inject [simp]: "status_string s = status_string t \<longleftrightarrow> s = t"
  by (cases s; cases t) simp_all

lemma event_string_inject [simp]: "event_string a = event_string b \<longleftrightarrow> a = b"
  by (cases a; cases b) simp_all

end
