(* ===== verification/GoTime.thy ===== *)
theory GoTime
  imports Prelude
begin

text \<open>
  What the program uses of Go's package \<open>time\<close>: the unit constants, \<open>Duration.String\<close> (whose
  text the claim statement casts to a Postgres interval) and the conversion of an instant to the
  microseconds of a \<open>TIMESTAMPTZ\<close>.
\<close>

section \<open>Units\<close>

definition Nanosecond :: int where "Nanosecond = 1"
definition Microsecond :: int where "Microsecond = 1000"
definition Millisecond :: int where "Millisecond = 1000000"
definition Second :: int where "Second = 1000000000"
definition Minute :: int where "Minute = 60 * Second"
definition Hour :: int where "Hour = 60 * Minute"

lemmas time_units = Nanosecond_def Microsecond_def Millisecond_def Second_def Minute_def Hour_def

section \<open>Duration.String\<close>

definition digit_char :: "int \<Rightarrow> char" where
  "digit_char d = char_of (48 + d)"

function fmt_int :: "int \<Rightarrow> string" where
  "fmt_int n = (if n < 10 then [digit_char n] else fmt_int (n div 10) @ [digit_char (n mod 10)])"
  by pat_completeness auto
termination
  by (relation "measure nat") auto

declare fmt_int.simps [simp del]

text \<open>
  \<open>fmtFrac\<close> writes the fraction of \<open>v / 10 ^ prec\<close> from its last digit, leaves out trailing
  zeros (\<open>shown\<close> says whether a digit was written) and returns the integer part.
\<close>

fun fmt_frac :: "nat \<Rightarrow> bool \<Rightarrow> string \<Rightarrow> int \<Rightarrow> string \<times> int" where
  "fmt_frac 0 shown buf v = ((if shown then CHR ''.'' # buf else buf), v)"
| "fmt_frac (Suc prec) shown buf v =
     (let d = v mod 10; shown' = (shown \<or> d \<noteq> 0)
      in fmt_frac prec shown' (if shown' then digit_char d # buf else buf) (v div 10))"

definition duration_String :: "int \<Rightarrow> string" where
  "duration_String d =
     (let u = \<bar>d\<bar>;
          body =
            (if u = 0 then ''0s''
             else if u < Microsecond then
               (let (f, v) = fmt_frac 0 False [] u in fmt_int v @ f @ ''ns'')
             else if u < Millisecond then
               (let (f, v) = fmt_frac 3 False [] u
                in fmt_int v @ f @ [char_of (194::int), char_of (181::int), CHR ''s''])
             else if u < Second then
               (let (f, v) = fmt_frac 6 False [] u in fmt_int v @ f @ ''ms'')
             else
               (let (f, secs) = fmt_frac 9 False [] u; mins = secs div 60; hours = mins div 60;
                    s = fmt_int (secs mod 60) @ f @ ''s''
                in if mins = 0 then s
                   else if hours = 0 then fmt_int (mins mod 60) @ ''m'' @ s
                   else fmt_int hours @ ''h'' @ fmt_int (mins mod 60) @ ''m'' @ s))
      in if d < 0 then CHR ''-'' # body else body)"

text \<open>The driver keeps whole microseconds of a \<open>time.Time\<close>.\<close>

definition to_timestamptz :: "int \<Rightarrow> int" where
  "to_timestamptz ns = ns div Microsecond"

end
