(* ===== verification/Store.thy ===== *)
theory Store
  imports Job GoTime "HOL-Library.AList"
begin

text \<open>
  internal/store over the schema of migrations/*.sql. The database is a record of the three
  tables and their identity sequences; a statement is a function of the database that either
  fails and changes nothing or commits all of its sub-statements at once, as one SQL statement
  with data-modifying CTEs does. \<open>pg_env\<close> holds what Postgres and the driver decide: the
  transaction timestamp, a fault, the rows locked by other transactions, the scan order, the
  parsing of JSON and interval texts, the server's messages, and whether the driver reports an
  error of a query when it is sent or while its rows are read.
\<close>

section \<open>Tables\<close>

record job_row =
  r_id :: int
  r_type :: string
  r_payload :: string
  r_status :: status
  r_priority :: int
  r_attempts :: int
  r_max_attempts :: int
  r_run_after :: int
  r_claimed_at :: "int option"
  r_claimed_by :: "string option"
  r_lease_expires_at :: "int option"
  r_created_at :: int
  r_completed_at :: "int option"
  r_last_error :: "string option"
  r_trace_context :: string

text \<open>A row of \<open>job_events\<close> is an event with the column \<open>shipped_at\<close>.\<close>

record event_row = event +
  e_shipped_at :: "int option"

record db =
  jobs :: "job_row list"
  dead_letters :: "dead_letter list"
  job_events :: "event_row list"
  next_job_id :: int
  next_dead_letter_id :: int
  next_event_id :: int

definition empty_db :: db where
  "empty_db = \<lparr>jobs = [], dead_letters = [], job_events = [],
     next_job_id = 1, next_dead_letter_id = 1, next_event_id = 1\<rparr>"

section \<open>The database's choices\<close>

text \<open>
  A call fails before the statement ran, or after it committed (the connection is lost before
  the answer arrives): the caller sees an error either way.
\<close>

datatype fault = NoFault | FaultBefore string | FaultAfter string

record pg_env =
  pg_now :: int
  pg_fault :: fault
  pg_locked :: "int list"
  pg_pos :: "int \<Rightarrow> int"
  pg_interval :: "string \<Rightarrow> int option"
  pg_jsonb :: "string \<Rightarrow> string option"
  pg_msg :: "string \<Rightarrow> string"
  pg_late :: bool

definition pg_error :: "pg_env \<Rightarrow> string \<Rightarrow> db_err" where
  "pg_error env code = PgErr code (pg_msg env code)"

definition run_stmt :: "pg_env \<Rightarrow> string \<Rightarrow> (db \<Rightarrow> db_err + 'a \<times> db) \<Rightarrow> db \<Rightarrow> 'a result \<times> db" where
  "run_stmt env what stmt db =
     (case pg_fault env of
        FaultBefore m \<Rightarrow> (Inl (Wrapped what (ConnErr m)), db)
      | NoFault \<Rightarrow> (case stmt db of Inl e \<Rightarrow> (Inl (Wrapped what e), db) | Inr (a, db') \<Rightarrow> (Inr a, db'))
      | FaultAfter m \<Rightarrow>
          (case stmt db of Inl e \<Rightarrow> (Inl (Wrapped what e), db)
                         | Inr (a, db') \<Rightarrow> (Inl (Wrapped what (ConnErr m)), db')))"

definition run_query :: "pg_env \<Rightarrow> string \<Rightarrow> (db \<Rightarrow> db_err + 'a) \<Rightarrow> db \<Rightarrow> 'a result" where
  "run_query env what q db =
     (case pg_fault env of
        FaultBefore m \<Rightarrow> Inl (Wrapped what (ConnErr m))
      | FaultAfter m \<Rightarrow> Inl (Wrapped what (ConnErr m))
      | NoFault \<Rightarrow> (case q db of Inl e \<Rightarrow> Inl (Wrapped what e) | Inr a \<Rightarrow> Inr a))"

text \<open>Methods that collect rows wrap an error met while reading them with a longer prefix.\<close>

definition rows_what :: "pg_env \<Rightarrow> string \<Rightarrow> string" where
  "rows_what env what = (if pg_late env then what @ '': scanning rows'' else what)"

section \<open>Updates and inserts shared by the statements\<close>

text \<open>\<open>UPDATE jobs SET f WHERE p\<close>, and the CTE of its \<open>RETURNING\<close> rows in scan order.\<close>

definition update_jobs :: "(job_row \<Rightarrow> bool) \<Rightarrow> (job_row \<Rightarrow> job_row) \<Rightarrow> db \<Rightarrow> db" where
  "update_jobs p f db = db\<lparr>jobs := sql_update p f (jobs db)\<rparr>"

definition returning :: "pg_env \<Rightarrow> (job_row \<Rightarrow> bool) \<Rightarrow> (job_row \<Rightarrow> job_row) \<Rightarrow> db \<Rightarrow> job_row list" where
  "returning env p f db = scan_by (pg_pos env) r_id (sql_returning p f (jobs db))"

text \<open>\<open>INSERT INTO job_events SELECT ... FROM cte\<close>: row, event type, worker id, error message.\<close>

type_synonym event_src = "job_row \<times> event_type \<times> string \<times> string"

definition mk_event :: "int \<Rightarrow> int \<times> event_src \<Rightarrow> event_row" where
  "mk_event now = (\<lambda>(i, r, ty, w, m).
     \<lparr>e_id = i, e_job_id = r_id r, e_job_type = r_type r, e_event_type = ty,
      e_attempts = r_attempts r, e_worker_id = w, e_error_message = m, e_occurred_at = now,
      e_shipped_at = None\<rparr>)"

definition insert_events :: "int \<Rightarrow> event_src list \<Rightarrow> db \<Rightarrow> db" where
  "insert_events now xs db = db\<lparr>
     job_events := job_events db @ map (mk_event now) (number_from (next_event_id db) xs),
     next_event_id := next_event_id db + int (length xs)\<rparr>"

definition log_rows :: "pg_env \<Rightarrow> (job_row \<Rightarrow> event_type) \<Rightarrow> string \<Rightarrow> string \<Rightarrow> job_row list \<Rightarrow> db \<Rightarrow> db" where
  "log_rows env ty w m rows db = insert_events (pg_now env) (map (\<lambda>r. (r, ty r, w, m)) rows) db"

definition mk_dead_letter :: "int \<Rightarrow> string \<Rightarrow> int \<times> job_row \<Rightarrow> dead_letter" where
  "mk_dead_letter now lastErr = (\<lambda>(i, r).
     \<lparr>d_id = i, d_job_id = r_id r, d_type = r_type r, d_payload = r_payload r,
      d_attempts = r_attempts r, d_last_error = lastErr, d_failed_at = now\<rparr>)"

text \<open>\<open>UNIQUE (job_id)\<close> is checked on the table with the new rows; 23505 is a unique violation.\<close>

definition insert_dead_letters :: "pg_env \<Rightarrow> string \<Rightarrow> job_row list \<Rightarrow> db \<Rightarrow> db_err + db" where
  "insert_dead_letters env lastErr rows db =
     (let letters = dead_letters db @
            map (mk_dead_letter (pg_now env) lastErr) (number_from (next_dead_letter_id db) rows)
      in if distinct (map d_job_id letters)
         then Inr (db\<lparr>dead_letters := letters,
                      next_dead_letter_id := next_dead_letter_id db + int (length rows)\<rparr>)
         else Inl (pg_error env ''23505''))"

section \<open>Enqueue, GetStatus\<close>

definition new_job_row :: "pg_env \<Rightarrow> int \<Rightarrow> string \<Rightarrow> string \<Rightarrow> string \<Rightarrow> job_row" where
  "new_job_row env i jobType payload traceContext =
     \<lparr>r_id = i, r_type = jobType, r_payload = payload, r_status = StatusQueued, r_priority = 0,
      r_attempts = 0, r_max_attempts = 5, r_run_after = pg_now env, r_claimed_at = None,
      r_claimed_by = None, r_lease_expires_at = None, r_created_at = pg_now env,
      r_completed_at = None, r_last_error = None, r_trace_context = traceContext\<rparr>"

definition enqueue_stmt :: "pg_env \<Rightarrow> string \<Rightarrow> string \<Rightarrow> string \<Rightarrow> db \<Rightarrow> db_err + int \<times> db" where
  "enqueue_stmt env jobType payload traceContext db =
     (case pg_jsonb env payload of
        None \<Rightarrow> Inl (pg_error env ''22P02'')
      | Some p \<Rightarrow>
          (let r = new_job_row env (next_job_id db) jobType p traceContext
           in Inr (r_id r, log_rows env (\<lambda>_. EventEnqueued) '''' '''' [r]
                             (db\<lparr>jobs := jobs db @ [r], next_job_id := next_job_id db + 1\<rparr>))))"

definition Enqueue :: "pg_env \<Rightarrow> string \<Rightarrow> string \<Rightarrow> string \<Rightarrow> db \<Rightarrow> int result \<times> db" where
  "Enqueue env jobType payload traceContext =
     run_stmt env ''store: enqueue'' (enqueue_stmt env jobType payload traceContext)"

definition lookup_job :: "int \<Rightarrow> db \<Rightarrow> job_row option" where
  "lookup_job i db = find (\<lambda>r. r_id r = i) (jobs db)"

definition to_snapshot :: "job_row \<Rightarrow> snapshot" where
  "to_snapshot r = \<lparr>s_id = r_id r, s_status = r_status r, s_attempts = r_attempts r,
     s_max_attempts = r_max_attempts r,
     s_last_error = (case r_last_error r of None \<Rightarrow> '''' | Some e \<Rightarrow> e)\<rparr>"

definition GetStatus :: "pg_env \<Rightarrow> int \<Rightarrow> db \<Rightarrow> snapshot result" where
  "GetStatus env i = run_query env ''store: get status'' (\<lambda>db.
     case lookup_job i db of None \<Rightarrow> Inl NoRows | Some r \<Rightarrow> Inr (to_snapshot r))"

section \<open>Claim\<close>

definition claimable :: "pg_env \<Rightarrow> job_row \<Rightarrow> bool" where
  "claimable env r \<longleftrightarrow> r_status r = StatusQueued \<and> r_run_after r \<le> pg_now env"

definition claim_rank :: "job_row \<Rightarrow> int \<times> int" where
  "claim_rank r = (- r_priority r, r_run_after r)"

text \<open>\<open>ORDER BY priority DESC, run_after LIMIT n FOR UPDATE SKIP LOCKED\<close>.\<close>

definition claim_select :: "pg_env \<Rightarrow> int \<Rightarrow> db \<Rightarrow> job_row list" where
  "claim_select env limit db =
     take (nat limit) (sort_key claim_rank (scan_by (pg_pos env) r_id
       (filter (\<lambda>r. claimable env r \<and> r_id r \<notin> set (pg_locked env)) (jobs db))))"

definition claim_row :: "pg_env \<Rightarrow> string \<Rightarrow> int \<Rightarrow> job_row \<Rightarrow> job_row" where
  "claim_row env workerID lease r = r\<lparr>r_status := StatusRunning, r_claimed_by := Some workerID,
     r_claimed_at := Some (pg_now env), r_lease_expires_at := Some (pg_now env + lease),
     r_attempts := r_attempts r + 1\<rparr>"

definition to_job :: "job_row \<Rightarrow> job" where
  "to_job r = \<lparr>j_id = r_id r, j_type = r_type r, j_payload = r_payload r,
     j_attempts = r_attempts r, j_max_attempts = r_max_attempts r,
     j_trace_context = r_trace_context r\<rparr>"

definition claim_stmt :: "pg_env \<Rightarrow> string \<Rightarrow> string \<Rightarrow> int \<Rightarrow> db \<Rightarrow> db_err + job list \<times> db" where
  "claim_stmt env workerID lease limit db =
     (case pg_interval env lease of
        None \<Rightarrow> Inl (pg_error env ''22007'')
      | Some iv \<Rightarrow>
          if limit < 0 then Inl (pg_error env ''2201W'')
          else
            (let ids = set (map r_id (claim_select env limit db));
                 picked = (\<lambda>r. r_id r \<in> ids);
                 claimed = returning env picked (claim_row env workerID iv) db
             in if list_ex (\<lambda>r. int4_max < r_attempts r) claimed then Inl (pg_error env ''22003'')
                else Inr (map to_job claimed,
                       log_rows env (\<lambda>_. EventClaimed) workerID '''' claimed
                         (update_jobs picked (claim_row env workerID iv) db))))"

definition Claim :: "pg_env \<Rightarrow> string \<Rightarrow> duration \<Rightarrow> int \<Rightarrow> db \<Rightarrow> job list result \<times> db" where
  "Claim env workerID lease limit =
     run_stmt env (rows_what env ''store: claim'') (claim_stmt env workerID (duration_String (sint lease)) limit)"

section \<open>Complete, Retry, Fail\<close>

definition complete_row :: "pg_env \<Rightarrow> job_row \<Rightarrow> job_row" where
  "complete_row env r = r\<lparr>r_status := StatusCompleted, r_completed_at := Some (pg_now env)\<rparr>"

definition complete_stmt :: "pg_env \<Rightarrow> int \<Rightarrow> db \<Rightarrow> db_err + unit \<times> db" where
  "complete_stmt env i db =
     (let completed = returning env (\<lambda>r. r_id r = i) (complete_row env) db
      in Inr ((), log_rows env (\<lambda>_. EventCompleted) '''' '''' completed
                    (update_jobs (\<lambda>r. r_id r = i) (complete_row env) db)))"

definition Complete :: "pg_env \<Rightarrow> int \<Rightarrow> db \<Rightarrow> unit result \<times> db" where
  "Complete env i = run_stmt env ''store: complete'' (complete_stmt env i)"

definition retry_row :: "int \<Rightarrow> string \<Rightarrow> job_row \<Rightarrow> job_row" where
  "retry_row runAfter lastErr r = r\<lparr>r_status := StatusQueued, r_run_after := runAfter,
     r_claimed_by := None, r_claimed_at := None, r_lease_expires_at := None,
     r_last_error := Some lastErr\<rparr>"

definition retry_stmt :: "pg_env \<Rightarrow> int \<Rightarrow> int \<Rightarrow> string \<Rightarrow> db \<Rightarrow> db_err + unit \<times> db" where
  "retry_stmt env i runAfter lastErr db =
     (let retried = returning env (\<lambda>r. r_id r = i) (retry_row runAfter lastErr) db
      in Inr ((), log_rows env (\<lambda>_. EventRetried) '''' lastErr retried
                    (update_jobs (\<lambda>r. r_id r = i) (retry_row runAfter lastErr) db)))"

definition Retry :: "pg_env \<Rightarrow> int \<Rightarrow> int \<Rightarrow> string \<Rightarrow> db \<Rightarrow> unit result \<times> db" where
  "Retry env i runAfter lastErr =
     run_stmt env ''store: retry'' (retry_stmt env i (to_timestamptz runAfter) lastErr)"

definition fail_row :: "pg_env \<Rightarrow> string \<Rightarrow> job_row \<Rightarrow> job_row" where
  "fail_row env lastErr r = r\<lparr>r_status := StatusFailed, r_completed_at := Some (pg_now env),
     r_claimed_by := None, r_claimed_at := None, r_lease_expires_at := None,
     r_last_error := Some lastErr\<rparr>"

definition fail_stmt :: "pg_env \<Rightarrow> int \<Rightarrow> string \<Rightarrow> db \<Rightarrow> db_err + unit \<times> db" where
  "fail_stmt env i lastErr db =
     (let failed = returning env (\<lambda>r. r_id r = i) (fail_row env lastErr) db
      in case insert_dead_letters env lastErr failed
                (update_jobs (\<lambda>r. r_id r = i) (fail_row env lastErr) db) of
           Inl e \<Rightarrow> Inl e
         | Inr db' \<Rightarrow> Inr ((), log_rows env (\<lambda>_. EventFailed) '''' lastErr failed db'))"

definition Fail :: "pg_env \<Rightarrow> int \<Rightarrow> string \<Rightarrow> db \<Rightarrow> unit result \<times> db" where
  "Fail env i lastErr = run_stmt env ''store: fail'' (fail_stmt env i lastErr)"

section \<open>ReapExpiredLeases\<close>

definition reap_last_error :: string where
  "reap_last_error = ''lease expired: worker did not report back in time''"

definition lease_expired :: "pg_env \<Rightarrow> job_row \<Rightarrow> bool" where
  "lease_expired env r \<longleftrightarrow> r_status r = StatusRunning \<and>
     (case r_lease_expires_at r of None \<Rightarrow> False | Some t \<Rightarrow> t < pg_now env)"

definition exhausted :: "job_row \<Rightarrow> bool" where
  "exhausted r \<longleftrightarrow> r_max_attempts r \<le> r_attempts r"

definition reap_row :: "pg_env \<Rightarrow> job_row \<Rightarrow> job_row" where
  "reap_row env r = r\<lparr>r_status := (if exhausted r then StatusFailed else StatusQueued),
     r_completed_at := (if exhausted r then Some (pg_now env) else None),
     r_claimed_by := None, r_claimed_at := None, r_lease_expires_at := None,
     r_last_error := Some reap_last_error\<rparr>"

definition reap_event_type :: "job_row \<Rightarrow> event_type" where
  "reap_event_type r = (if r_status r = StatusFailed then EventReapedFailed else EventReapedRetry)"

definition reap_stmt :: "pg_env \<Rightarrow> db \<Rightarrow> db_err + (int \<times> int) \<times> db" where
  "reap_stmt env db =
     (let reaped = returning env (lease_expired env) (reap_row env) db;
          dead = filter (\<lambda>r. r_status r = StatusFailed) reaped
      in case insert_dead_letters env reap_last_error dead
                (update_jobs (lease_expired env) (reap_row env) db) of
           Inl e \<Rightarrow> Inl e
         | Inr db' \<Rightarrow> Inr ((int (length reaped), int (length dead)),
                           log_rows env reap_event_type '''' reap_last_error reaped db'))"

definition ReapExpiredLeases :: "pg_env \<Rightarrow> db \<Rightarrow> (int \<times> int) result \<times> db" where
  "ReapExpiredLeases env = run_stmt env ''store: reap expired leases'' (reap_stmt env)"

section \<open>Dead letters, outbox and counts\<close>

definition ListDeadLetters :: "pg_env \<Rightarrow> int \<Rightarrow> db \<Rightarrow> dead_letter list result" where
  "ListDeadLetters env limit = run_query env (rows_what env ''store: list dead letters'') (\<lambda>db.
     if limit < 0 then Inl (pg_error env ''2201W'')
     else Inr (take (nat limit) (sort_key (\<lambda>d. - d_failed_at d)
            (scan_by (pg_pos env) d_id (dead_letters db)))))"

definition unshipped :: "event_row \<Rightarrow> bool" where
  "unshipped e \<longleftrightarrow> e_shipped_at e = None"

definition FetchUnshippedEvents :: "pg_env \<Rightarrow> int \<Rightarrow> db \<Rightarrow> event list result" where
  "FetchUnshippedEvents env limit = run_query env (rows_what env ''store: fetch unshipped events'') (\<lambda>db.
     if limit < 0 then Inl (pg_error env ''2201W'')
     else Inr (map event.truncate (take (nat limit) (sort_key e_id (filter unshipped (job_events db))))))"

definition MarkEventsShipped :: "pg_env \<Rightarrow> int list \<Rightarrow> db \<Rightarrow> unit result \<times> db" where
  "MarkEventsShipped env ids db =
     (if ids = [] then (Inr (), db)
      else run_stmt env ''store: mark events shipped'' (\<lambda>db.
        Inr ((), db\<lparr>job_events := sql_update (\<lambda>e. e_id e \<in> set ids)
                     (\<lambda>e. e\<lparr>e_shipped_at := Some (pg_now env)\<rparr>) (job_events db)\<rparr>)) db)"

text \<open>The rows of \<open>SELECT type, count(*) ... GROUP BY type\<close>, and the loop that fills the map.\<close>

definition group_counts :: "string \<Rightarrow> db \<Rightarrow> (string \<times> int) list" where
  "group_counts st db =
     (let ts = map r_type (filter (\<lambda>r. status_string (r_status r) = st) (jobs db))
      in map (\<lambda>t. (t, int (count_list ts t))) (remdups ts))"

definition CountByStatusAndType :: "pg_env \<Rightarrow> string \<Rightarrow> db \<Rightarrow> (string \<times> int) list result" where
  "CountByStatusAndType env st = run_query env ''store: count by status and type'' (\<lambda>db.
     Inr (fold (\<lambda>(t, n) counts. AList.update t n counts) (group_counts st db) []))"

definition ShipperLag :: "pg_env \<Rightarrow> int \<Rightarrow> db \<Rightarrow> int result" where
  "ShipperLag env go_now db =
     (case run_query env ''store: shipper lag'' (\<lambda>db.
             case sort_key e_id (filter unshipped (job_events db)) of
               [] \<Rightarrow> Inl NoRows | e # _ \<Rightarrow> Inr (e_occurred_at e)) db of
        Inl e \<Rightarrow> if errors_Is e NoRows then Inr 0 else Inl e
      | Inr t \<Rightarrow> Inr (go_now - t * Microsecond))"


declare enqueue_stmt_def [stmt_defs] claim_stmt_def [stmt_defs] complete_stmt_def [stmt_defs]
  retry_stmt_def [stmt_defs] fail_stmt_def [stmt_defs] reap_stmt_def [stmt_defs]

declare Enqueue_def [call_defs] Claim_def [call_defs] Complete_def [call_defs] Retry_def [call_defs]
  Fail_def [call_defs] ReapExpiredLeases_def [call_defs]

declare claim_row_def [row_defs] complete_row_def [row_defs] retry_row_def [row_defs]
  fail_row_def [row_defs] reap_row_def [row_defs]

end
