(* ===== verification/StoreInv.thy ===== *)
theory StoreInv
  imports Store
begin

text \<open>
  What the statements of the store keep true, in every interleaving and under every fault:
  the well-formedness of the three tables (\<open>wf_db\<close>), and that the outbox is a complete history.
  \<open>replay\<close> rebuilds the state of every job from its events alone; the invariant \<open>log_ok\<close> says
  the rebuilt state is the one in the jobs table. The contract the five row updates share is the
  locale \<open>logged_update\<close>, interpreted on each of them.
\<close>

section \<open>Abstract job states and the event log\<close>

type_synonym job_view = "status \<times> int \<times> string option"

fun event_status :: "event_type \<Rightarrow> status" where
  "event_status EventEnqueued = StatusQueued"
| "event_status EventClaimed = StatusRunning"
| "event_status EventCompleted = StatusCompleted"
| "event_status EventRetried = StatusQueued"
| "event_status EventFailed = StatusFailed"
| "event_status EventReapedRetry = StatusQueued"
| "event_status EventReapedFailed = StatusFailed"

fun carries_error :: "event_type \<Rightarrow> bool" where
  "carries_error EventRetried = True"
| "carries_error EventFailed = True"
| "carries_error EventReapedRetry = True"
| "carries_error EventReapedFailed = True"
| "carries_error _ = False"

fun view_error :: "job_view option \<Rightarrow> string option" where
  "view_error None = None"
| "view_error (Some (s, n, e)) = e"

definition apply_event :: "'a event_scheme \<Rightarrow> (int \<Rightarrow> job_view option) \<Rightarrow> int \<Rightarrow> job_view option" where
  "apply_event e m = m(e_job_id e \<mapsto>
     (event_status (e_event_type e), e_attempts e,
      if carries_error (e_event_type e) then Some (e_error_message e)
      else view_error (m (e_job_id e))))"

definition replay :: "'a event_scheme list \<Rightarrow> int \<Rightarrow> job_view option" where
  "replay es = fold apply_event es Map.empty"

text \<open>
  The lifecycle as an abstract machine over the replayed state: which event may come next. A job
  is claimed only from \<open>queued\<close>, with one more attempt, and reaped only from \<open>running\<close>. The
  outcome events have no guard, as \<open>Complete\<close>, \<open>Retry\<close> and \<open>Fail\<close> have none.
\<close>

fun event_guard :: "event_type \<Rightarrow> status \<Rightarrow> bool" where
  "event_guard EventEnqueued s = False"
| "event_guard EventClaimed s = (s = StatusQueued)"
| "event_guard EventReapedRetry s = (s = StatusRunning)"
| "event_guard EventReapedFailed s = (s = StatusRunning)"
| "event_guard _ s = True"

definition legal_event :: "(int \<Rightarrow> job_view option) \<Rightarrow> 'a event_scheme \<Rightarrow> bool" where
  "legal_event v e =
     (case v (e_job_id e) of
        None \<Rightarrow> e_event_type e = EventEnqueued \<and> e_attempts e = 0
      | Some (s, n, err) \<Rightarrow> event_guard (e_event_type e) s \<and>
          e_attempts e = (if e_event_type e = EventClaimed then n + 1 else n))"

fun legal_from :: "(int \<Rightarrow> job_view option) \<Rightarrow> 'a event_scheme list \<Rightarrow> bool" where
  "legal_from v [] = True"
| "legal_from v (e # es) = (legal_event v e \<and> legal_from (apply_event e v) es)"

definition row_view :: "job_row \<Rightarrow> job_view" where
  "row_view r = (r_status r, r_attempts r, r_last_error r)"

definition table_view :: "db \<Rightarrow> int \<Rightarrow> job_view option" where
  "table_view db i = map_option row_view (lookup_job i db)"

definition claims_of :: "int \<Rightarrow> 'a event_scheme list \<Rightarrow> int" where
  "claims_of i es = int (length (filter (\<lambda>e. e_job_id e = i \<and> e_event_type e = EventClaimed) es))"

text \<open>The rows \<open>log_rows\<close> appends to the outbox.\<close>

definition new_events :: "pg_env \<Rightarrow> (job_row \<Rightarrow> event_type) \<Rightarrow> string \<Rightarrow> string \<Rightarrow> job_row list \<Rightarrow> int \<Rightarrow> event_row list" where
  "new_events env ty w m rows n =
     map (mk_event (pg_now env)) (number_from n (map (\<lambda>r. (r, ty r, w, m)) rows))"

text \<open>The rows \<open>insert_dead_letters\<close> appends to the dead letters.\<close>

definition new_letters :: "pg_env \<Rightarrow> string \<Rightarrow> job_row list \<Rightarrow> int \<Rightarrow> dead_letter list" where
  "new_letters env lastErr rows n = map (mk_dead_letter (pg_now env) lastErr) (number_from n rows)"

section \<open>Interleavings of store calls\<close>

text \<open>
  The calls that write to the database. \<open>CallSequenceGap\<close> is not a call of the program: Postgres
  does not return identity values of a statement that was rolled back, so sequences may jump.
\<close>

datatype store_call =
    CallEnqueue string string string
  | CallClaim string duration int
  | CallComplete int
  | CallRetry int int string
  | CallFail int string
  | CallReap
  | CallMarkShipped "int list"
  | CallSequenceGap nat nat nat

fun exec_call :: "pg_env \<Rightarrow> store_call \<Rightarrow> db \<Rightarrow> db" where
  "exec_call env (CallEnqueue t p c) db = snd (Enqueue env t p c db)"
| "exec_call env (CallClaim w lease limit) db = snd (Claim env w lease limit db)"
| "exec_call env (CallComplete i) db = snd (Complete env i db)"
| "exec_call env (CallRetry i at e) db = snd (Retry env i at e db)"
| "exec_call env (CallFail i e) db = snd (Fail env i e db)"
| "exec_call env CallReap db = snd (ReapExpiredLeases env db)"
| "exec_call env (CallMarkShipped ids) db = snd (MarkEventsShipped env ids db)"
| "exec_call env (CallSequenceGap a b c) db = db\<lparr>next_job_id := next_job_id db + int a,
     next_dead_letter_id := next_dead_letter_id db + int b, next_event_id := next_event_id db + int c\<rparr>"

definition run_calls :: "(pg_env \<times> store_call) list \<Rightarrow> db \<Rightarrow> db" where
  "run_calls = fold (\<lambda>(env, c). exec_call env c)"

section \<open>Well-formed databases\<close>

definition row_ok :: "job_row \<Rightarrow> bool" where
  "row_ok r \<longleftrightarrow> 0 \<le> r_attempts r \<and> r_attempts r \<le> int4_max \<and>
     0 < r_max_attempts r \<and> r_max_attempts r \<le> int4_max \<and>
     (r_status r \<in> {StatusQueued, StatusFailed} \<longrightarrow>
        r_claimed_by r = None \<and> r_claimed_at r = None \<and> r_lease_expires_at r = None) \<and>
     (r_status r = StatusRunning \<longrightarrow>
        r_claimed_by r \<noteq> None \<and> r_claimed_at r \<noteq> None \<and> r_lease_expires_at r \<noteq> None \<and> 0 < r_attempts r) \<and>
     (r_status r \<in> {StatusCompleted, StatusFailed} \<longrightarrow> r_completed_at r \<noteq> None)"

definition jobs_ok :: "db \<Rightarrow> bool" where
  "jobs_ok db \<longleftrightarrow> distinct (map r_id (jobs db)) \<and>
     (\<forall>r \<in> set (jobs db). row_ok r \<and> r_id r < next_job_id db)"

definition events_ok :: "db \<Rightarrow> bool" where
  "events_ok db \<longleftrightarrow> sorted_wrt (<) (map e_id (job_events db)) \<and>
     (\<forall>e \<in> set (job_events db). e_id e < next_event_id db \<and> e_job_id e \<in> r_id ` set (jobs db))"

definition letters_ok :: "db \<Rightarrow> bool" where
  "letters_ok db \<longleftrightarrow> distinct (map d_job_id (dead_letters db)) \<and>
     sorted_wrt (<) (map d_id (dead_letters db)) \<and>
     (\<forall>d \<in> set (dead_letters db). d_id d < next_dead_letter_id db \<and> d_job_id d \<in> r_id ` set (jobs db)) \<and>
     (\<forall>r \<in> set (jobs db). r_status r = StatusFailed \<longrightarrow> r_id r \<in> d_job_id ` set (dead_letters db))"

definition log_ok :: "db \<Rightarrow> bool" where
  "log_ok db \<longleftrightarrow> table_view db = replay (job_events db)"

definition claims_ok :: "db \<Rightarrow> bool" where
  "claims_ok db \<longleftrightarrow> (\<forall>r \<in> set (jobs db). r_attempts r = claims_of (r_id r) (job_events db))"

definition legal_ok :: "db \<Rightarrow> bool" where
  "legal_ok db \<longleftrightarrow> legal_from Map.empty (job_events db)"

definition wf_db :: "db \<Rightarrow> bool" where
  "wf_db db \<longleftrightarrow> jobs_ok db \<and> events_ok db \<and> letters_ok db \<and> log_ok db \<and> claims_ok db \<and> legal_ok db"

lemmas wf_defs = wf_db_def jobs_ok_def events_ok_def letters_ok_def log_ok_def claims_ok_def legal_ok_def

section \<open>Inserted events\<close>

lemma mk_event_simps [simp]:
  "e_id (mk_event now (i, r, ty, w, m)) = i"
  "e_job_id (mk_event now (i, r, ty, w, m)) = r_id r"
  "e_job_type (mk_event now (i, r, ty, w, m)) = r_type r"
  "e_event_type (mk_event now (i, r, ty, w, m)) = ty"
  "e_attempts (mk_event now (i, r, ty, w, m)) = r_attempts r"
  "e_worker_id (mk_event now (i, r, ty, w, m)) = w"
  "e_error_message (mk_event now (i, r, ty, w, m)) = m"
  "e_occurred_at (mk_event now (i, r, ty, w, m)) = now"
  "e_shipped_at (mk_event now (i, r, ty, w, m)) = None"
  by (simp_all add: mk_event_def)

lemma log_rows_simps [simp]:
  "jobs (log_rows env ty w m rows db) = jobs db"
  "dead_letters (log_rows env ty w m rows db) = dead_letters db"
  "next_job_id (log_rows env ty w m rows db) = next_job_id db"
  "next_dead_letter_id (log_rows env ty w m rows db) = next_dead_letter_id db"
  "next_event_id (log_rows env ty w m rows db) = next_event_id db + int (length rows)"
  by (simp_all add: log_rows_def insert_events_def)

lemma update_jobs_simps [simp]:
  "jobs (update_jobs p f db) = sql_update p f (jobs db)"
  "dead_letters (update_jobs p f db) = dead_letters db"
  "job_events (update_jobs p f db) = job_events db"
  "next_job_id (update_jobs p f db) = next_job_id db"
  "next_dead_letter_id (update_jobs p f db) = next_dead_letter_id db"
  "next_event_id (update_jobs p f db) = next_event_id db"
  by (simp_all add: update_jobs_def)

lemma new_events_Nil [simp]: "new_events env ty w m [] n = []"
  by (simp add: new_events_def)

lemma new_events_Cons [simp]:
  "new_events env ty w m (r # rs) n =
     mk_event (pg_now env) (n, r, ty r, w, m) # new_events env ty w m rs (n + 1)"
  by (simp add: new_events_def)

lemma log_rows_events [simp]:
  "job_events (log_rows env ty w m rows db) =
     job_events db @ new_events env ty w m rows (next_event_id db)"
  by (simp add: log_rows_def insert_events_def new_events_def)

lemma new_events_ids:
  "sorted_wrt (<) (map e_id (new_events env ty w m rows n)) \<and>
   (\<forall>e \<in> set (new_events env ty w m rows n). n \<le> e_id e \<and> e_id e < n + int (length rows) \<and>
      e_job_id e \<in> r_id ` set rows \<and> unshipped e)"
  by (induction rows arbitrary: n) (force simp: unshipped_def)+

lemma replay_append: "replay (es @ fs) = fold apply_event fs (replay es)"
  by (simp add: replay_def)

lemma claims_of_append [simp]: "claims_of i (es @ fs) = claims_of i es + claims_of i fs"
  by (simp add: claims_of_def)

text \<open>One event per row of a list of rows with distinct ids: the log changes at exactly these ids.\<close>

lemma apply_new_events:
  assumes "distinct (map r_id rows)"
  shows "fold apply_event (new_events env ty w m rows n) v i =
     (case find (\<lambda>r. r_id r = i) rows of
        None \<Rightarrow> v i
      | Some r \<Rightarrow> Some (event_status (ty r), r_attempts r,
                       if carries_error (ty r) then Some m else view_error (v i)))"
  using assms
proof (induction rows arbitrary: n v)
  case (Cons r rows)
  then have "find (\<lambda>q. r_id q = r_id r) rows = None"
    by (simp add: find_key_None_iff)
  with Cons show ?case
    by (auto simp: apply_event_def split: option.splits)
qed simp

lemma claims_of_new_events:
  assumes "distinct (map r_id rows)"
  shows "claims_of i (new_events env ty w m rows n) =
     (case find (\<lambda>r. r_id r = i) rows of
        None \<Rightarrow> 0 | Some r \<Rightarrow> if ty r = EventClaimed then 1 else 0)"
  using assms
proof (induction rows arbitrary: n)
  case (Cons r rows)
  then have "find (\<lambda>q. r_id q = r_id r) rows = None"
    by (simp add: find_key_None_iff)
  with Cons show ?case
    by (auto simp: claims_of_def split: option.splits if_splits)
qed (simp add: claims_of_def)

lemma legal_from_append:
  "legal_from v (es @ fs) \<longleftrightarrow> legal_from v es \<and> legal_from (fold apply_event es v) fs"
  by (induction es arbitrary: v) simp_all

text \<open>A batch of events for distinct jobs is legal when each is legal in the state before the batch.\<close>

lemma legal_new_events:
  assumes "distinct (map r_id rows)"
    and "\<And>r. r \<in> set rows \<Longrightarrow> \<exists>s n err. v (r_id r) = Some (s, n, err) \<and> event_guard (ty r) s \<and>
           r_attempts r = (if ty r = EventClaimed then n + 1 else n)"
  shows "legal_from v (new_events env ty w m rows k)"
  using assms
proof (induction rows arbitrary: v k)
  case (Cons r rows)
  let ?e = "mk_event (pg_now env) (k, r, ty r, w, m)"
  have other: "apply_event ?e v (r_id q) = v (r_id q)" if "q \<in> set rows" for q
  proof -
    have "r_id q \<noteq> r_id r" using that Cons.prems(1) by (auto simp: image_iff)
    then show ?thesis by (simp add: apply_event_def)
  qed
  have "legal_from (apply_event ?e v) (new_events env ty w m rows (k + 1))"
    using Cons.prems by (intro Cons.IH) (simp_all add: other)
  moreover have "legal_event v ?e"
    using Cons.prems(2) [of r] by (auto simp: legal_event_def)
  ultimately show ?case by simp
qed simp

section \<open>The contract of a logged row update\<close>

text \<open>
  A row update \<open>f\<close> with event type \<open>ty\<close> (a function of the updated row) and message \<open>m\<close>: the
  event says what the update did to the row. Claim, Complete, Retry, Fail and ReapExpiredLeases
  all keep this contract, whatever rows their \<open>WHERE\<close> clause \<open>p\<close> selects.
\<close>

locale logged_update = row_update r_id f for f :: "job_row \<Rightarrow> job_row" +
  fixes ty :: "job_row \<Rightarrow> event_type"
    and m :: string
  assumes status_f: "r_status (f r) = event_status (ty (f r))"
    and error_f: "r_last_error (f r) = (if carries_error (ty (f r)) then Some m else r_last_error r)"
    and attempts_f: "r_attempts (f r) = (if ty (f r) = EventClaimed then r_attempts r + 1 else r_attempts r)"
    and row_ok_f: "row_ok r \<Longrightarrow> r_attempts (f r) \<le> int4_max \<Longrightarrow> row_ok (f r)"
begin

lemma jobs_ok_update:
  assumes "jobs_ok db" "jobs db' = sql_update p f (jobs db)" "next_job_id db' = next_job_id db"
    and "\<And>r. r \<in> set (jobs db) \<Longrightarrow> p r \<Longrightarrow> r_attempts (f r) \<le> int4_max"
  shows "jobs_ok db'"
  using assms by (auto simp: jobs_ok_def distinct_update set_sql_update key_upd intro: row_ok_f)

lemma distinct_returning_ids: "jobs_ok db \<Longrightarrow> distinct (map r_id (returning env p f db))"
  by (simp add: returning_def jobs_ok_def distinct_returning)

lemma find_returning_id:
  assumes "jobs_ok db"
  shows "find (\<lambda>r. r_id r = i) (returning env p f db) =
     (case lookup_job i db of None \<Rightarrow> None | Some r \<Rightarrow> if p r then Some (f r) else None)"
proof -
  have "find (\<lambda>r. r_id r = i) (returning env p f db) = find (\<lambda>r. r_id r = i) (sql_returning p f (jobs db))"
    using assms by (intro find_key_cong) (simp_all add: returning_def jobs_ok_def distinct_returning)
  also have "\<dots> = (case lookup_job i db of None \<Rightarrow> None | Some r \<Rightarrow> if p r then Some (f r) else None)"
    using assms by (simp add: find_returning jobs_ok_def lookup_job_def)
  finally show ?thesis .
qed

lemma events_ok_update:
  assumes "events_ok db" "jobs db' = sql_update p f (jobs db)"
    and "job_events db' = job_events db @ new_events env ty w m (returning env p f db) (next_event_id db)"
    and "next_event_id db' = next_event_id db + int (length (returning env p f db))"
  shows "events_ok db'"
proof -
  have ids: "r_id ` set (jobs db') = r_id ` set (jobs db)"
    using assms(2) by (simp add: key_image_update)
  have sub: "r_id ` set (returning env p f db) \<subseteq> r_id ` set (jobs db)"
    by (auto simp: returning_def key_upd)
  show ?thesis
    using assms(1,3,4) new_events_ids [of env ty w m "returning env p f db" "next_event_id db"] sub
    unfolding events_ok_def ids by (fastforce simp: sorted_wrt_append)
qed

lemma log_ok_update:
  assumes "jobs_ok db" "log_ok db" "jobs db' = sql_update p f (jobs db)"
    and "job_events db' = job_events db @ new_events env ty w m (returning env p f db) (next_event_id db)"
  shows "log_ok db'"
proof -
  have "table_view db' i = replay (job_events db') i" for i
  proof (cases "lookup_job i db")
    case None
    with assms show ?thesis
      by (simp add: table_view_def lookup_job_def find_update replay_append apply_new_events
          distinct_returning_ids find_returning_id [unfolded lookup_job_def] log_ok_def fun_eq_iff)
         (metis None lookup_job_def option.map(1) table_view_def)
  next
    case (Some r)
    from assms(2) Some have prev: "replay (job_events db) i = Some (row_view r)"
      by (simp add: log_ok_def table_view_def fun_eq_iff) (metis Some option.map(2))
    show ?thesis
      using Some assms(1,3,4) prev
      by (simp add: table_view_def lookup_job_def find_update replay_append apply_new_events
          distinct_returning_ids find_returning_id row_view_def status_f error_f)
  qed
  then show ?thesis by (simp add: log_ok_def fun_eq_iff)
qed

lemma claims_ok_update:
  assumes "jobs_ok db" "claims_ok db" "jobs db' = sql_update p f (jobs db)"
    and "job_events db' = job_events db @ new_events env ty w m (returning env p f db) (next_event_id db)"
  shows "claims_ok db'"
  unfolding claims_ok_def
proof
  fix r' assume "r' \<in> set (jobs db')"
  then obtain r where r: "r \<in> set (jobs db)" "r' = (if p r then f r else r)"
    using assms(3) by (auto simp: set_sql_update)
  have look: "lookup_job (r_id r) db = Some r"
    using assms(1) r(1) by (simp add: lookup_job_def find_key_Some_iff jobs_ok_def)
  have "r_attempts r = claims_of (r_id r) (job_events db)"
    using assms(2) r(1) by (simp add: claims_ok_def)
  then show "r_attempts r' = claims_of (r_id r') (job_events db')"
    using r(2) assms(1,4) look
    by (simp add: claims_of_new_events distinct_returning_ids find_returning_id key_upd attempts_f)
qed

end

section \<open>Dead letters\<close>

lemma mk_dead_letter_simps [simp]:
  "d_id (mk_dead_letter now lastErr (i, r)) = i"
  "d_job_id (mk_dead_letter now lastErr (i, r)) = r_id r"
  "d_type (mk_dead_letter now lastErr (i, r)) = r_type r"
  "d_payload (mk_dead_letter now lastErr (i, r)) = r_payload r"
  "d_attempts (mk_dead_letter now lastErr (i, r)) = r_attempts r"
  "d_last_error (mk_dead_letter now lastErr (i, r)) = lastErr"
  "d_failed_at (mk_dead_letter now lastErr (i, r)) = now"
  by (simp_all add: mk_dead_letter_def)

lemma new_letters_job_ids [simp]: "map d_job_id (new_letters env lastErr rows n) = map r_id rows"
  by (induction rows arbitrary: n) (simp_all add: new_letters_def)

lemma new_letters_job_id_image [simp]: "d_job_id ` set (new_letters env lastErr rows n) = r_id ` set rows"
  by (metis new_letters_job_ids set_map)

lemma new_letters_ids:
  "sorted_wrt (<) (map d_id (new_letters env lastErr rows n)) \<and>
   (\<forall>d \<in> set (new_letters env lastErr rows n). n \<le> d_id d \<and> d_id d < n + int (length rows))"
  by (induction rows arbitrary: n) (force simp: new_letters_def)+

lemma insert_dead_letters_eq:
  "insert_dead_letters env lastErr rows db =
     (if distinct (map d_job_id (dead_letters db) @ map r_id rows)
      then Inr (db\<lparr>dead_letters := dead_letters db @ new_letters env lastErr rows (next_dead_letter_id db),
                   next_dead_letter_id := next_dead_letter_id db + int (length rows)\<rparr>)
      else Inl (pg_error env ''23505''))"
proof -
  have "map d_job_id (dead_letters db @ new_letters env lastErr rows (next_dead_letter_id db)) =
      map d_job_id (dead_letters db) @ map r_id rows"
    by simp
  then show ?thesis
    unfolding insert_dead_letters_def new_letters_def Let_def by metis
qed

context logged_update
begin

lemma letters_ok_update:
  assumes "letters_ok db" "jobs db' = sql_update p f (jobs db)"
    and "dead_letters db' = dead_letters db" "next_dead_letter_id db' = next_dead_letter_id db"
    and "\<And>r. r_status (f r) \<noteq> StatusFailed"
  shows "letters_ok db'"
proof -
  have "r_id ` set (jobs db') = r_id ` set (jobs db)"
    using assms(2) by (simp add: key_image_update)
  then show ?thesis
    using assms unfolding letters_ok_def by (auto simp: set_sql_update)
qed

lemma letters_ok_insert:
  assumes ok: "letters_ok db" and jobs': "jobs db' = sql_update p f (jobs db)"
    and dead: "dead = filter (\<lambda>r. r_status r = StatusFailed) (returning env p f db)"
    and dist: "distinct (map d_job_id (dead_letters db) @ map r_id dead)"
    and letters': "dead_letters db' = dead_letters db @ new_letters env err dead (next_dead_letter_id db)"
    and next': "next_dead_letter_id db' = next_dead_letter_id db + int (length dead)"
  shows "letters_ok db'"
proof -
  let ?new = "new_letters env err dead (next_dead_letter_id db)"
  have ids: "r_id ` set (jobs db') = r_id ` set (jobs db)"
    using jobs' by (simp add: key_image_update)
  have sub: "r_id ` set dead \<subseteq> r_id ` set (jobs db)"
    by (auto simp: dead returning_def key_upd)
  have "sorted_wrt (<) (map d_id (dead_letters db'))"
    using ok new_letters_ids [of env err dead "next_dead_letter_id db"]
    unfolding letters' letters_ok_def by (fastforce simp: sorted_wrt_append)
  moreover have "\<forall>d \<in> set (dead_letters db'). d_id d < next_dead_letter_id db' \<and> d_job_id d \<in> r_id ` set (jobs db')"
  proof
    fix d assume "d \<in> set (dead_letters db')"
    then consider "d \<in> set (dead_letters db)" | "d \<in> set ?new" by (auto simp: letters')
    then show "d_id d < next_dead_letter_id db' \<and> d_job_id d \<in> r_id ` set (jobs db')"
    proof cases
      case 1
      with ok show ?thesis unfolding ids next' letters_ok_def by force
    next
      case 2
      then have "d_job_id d \<in> r_id ` set dead"
        by (metis imageI new_letters_job_id_image)
      with 2 sub new_letters_ids [of env err dead "next_dead_letter_id db"]
      show ?thesis unfolding ids next' by blast
    qed
  qed
  moreover have "r_id r \<in> d_job_id ` set (dead_letters db')"
    if "r \<in> set (jobs db')" "r_status r = StatusFailed" for r
    using that ok by (auto simp: jobs' letters' set_sql_update letters_ok_def image_Un dead returning_def key_upd)
  moreover have "distinct (map d_job_id (dead_letters db'))"
    using dist by (simp add: letters')
  ultimately show ?thesis by (simp add: letters_ok_def)
qed

lemma legal_ok_update:
  assumes jobs: "jobs_ok db" and log: "log_ok db" and legal: "legal_ok db"
    and "job_events db' = job_events db @ new_events env ty w m (returning env p f db) (next_event_id db)"
    and guard: "\<And>r. r \<in> set (jobs db) \<Longrightarrow> p r \<Longrightarrow> event_guard (ty (f r)) (r_status r)"
  shows "legal_ok db'"
proof -
  have "\<exists>s n err. replay (job_events db) (r_id r) = Some (s, n, err) \<and> event_guard (ty r) s \<and>
      r_attempts r = (if ty r = EventClaimed then n + 1 else n)"
    if r: "r \<in> set (returning env p f db)" for r
  proof -
    from r obtain q where q: "q \<in> set (jobs db)" "p q" "r = f q" by (auto simp: returning_def)
    with jobs have "table_view db (r_id r) = Some (row_view q)"
      by (simp add: table_view_def lookup_job_def find_key_Some_iff [THEN iffD2] key_upd jobs_ok_def)
    then have "replay (job_events db) (r_id r) = Some (row_view q)"
      using log by (simp add: log_ok_def)
    then show ?thesis using q guard [of q] by (auto simp: row_view_def attempts_f)
  qed
  with jobs legal assms(4) show ?thesis
    by (simp add: legal_ok_def legal_from_append legal_new_events distinct_returning_ids flip: replay_def)
qed

lemma wf_logged:
  assumes "wf_db db" "\<And>r. r \<in> set (jobs db) \<Longrightarrow> p r \<Longrightarrow> r_attempts (f r) \<le> int4_max"
    and "\<And>r. r_status (f r) \<noteq> StatusFailed"
    and "\<And>r. r \<in> set (jobs db) \<Longrightarrow> p r \<Longrightarrow> event_guard (ty (f r)) (r_status r)"
  shows "wf_db (log_rows env ty w m (returning env p f db) (update_jobs p f db))" (is "wf_db ?db'")
proof -
  note parts = assms(1) [unfolded wf_db_def]
  have "jobs_ok ?db'" by (rule jobs_ok_update [of db _ p]) (use parts assms(2) in simp_all)
  moreover have "events_ok ?db'"
    by (rule events_ok_update [of db _ p env w]) (use parts in simp_all)
  moreover have "letters_ok ?db'"
    by (rule letters_ok_update [of db _ p]) (use parts assms(3) in simp_all)
  moreover have "log_ok ?db'"
    by (rule log_ok_update [of db _ p env w]) (use parts in simp_all)
  moreover have "claims_ok ?db'"
    by (rule claims_ok_update [of db _ p env w]) (use parts in simp_all)
  moreover have "legal_ok ?db'"
    by (rule legal_ok_update [of db _ env w p]) (use parts assms(4) in simp_all)
  ultimately show ?thesis by (simp add: wf_db_def)
qed

lemma wf_logged_dead:
  assumes "wf_db db" "\<And>r. r \<in> set (jobs db) \<Longrightarrow> p r \<Longrightarrow> r_attempts (f r) \<le> int4_max"
    and dead: "dead = filter (\<lambda>r. r_status r = StatusFailed) (returning env p f db)"
    and ins: "insert_dead_letters env err dead (update_jobs p f db) = Inr db1"
    and guard: "\<And>r. r \<in> set (jobs db) \<Longrightarrow> p r \<Longrightarrow> event_guard (ty (f r)) (r_status r)"
  shows "wf_db (log_rows env ty w m (returning env p f db) db1)" (is "wf_db ?db'")
proof -
  from ins have db1: "db1 = (update_jobs p f db)\<lparr>
        dead_letters := dead_letters db @ new_letters env err dead (next_dead_letter_id db),
        next_dead_letter_id := next_dead_letter_id db + int (length dead)\<rparr>"
    and dist: "distinct (map d_job_id (dead_letters db) @ map r_id dead)"
    by (auto simp: insert_dead_letters_eq split: if_splits)
  note parts = assms(1) [unfolded wf_db_def]
  have "jobs_ok ?db'" by (rule jobs_ok_update [of db _ p]) (use parts assms(2) in \<open>simp_all add: db1\<close>)
  moreover have "events_ok ?db'" by (rule events_ok_update [of db _ p env w]) (use parts in \<open>simp_all add: db1\<close>)
  moreover have "letters_ok ?db'" by (rule letters_ok_insert [of db _ p dead env err]) (use parts dist in \<open>simp_all add: db1 dead\<close>)
  moreover have "log_ok ?db'" by (rule log_ok_update [of db _ p env w]) (use parts in \<open>simp_all add: db1\<close>)
  moreover have "claims_ok ?db'" by (rule claims_ok_update [of db _ p env w]) (use parts in \<open>simp_all add: db1\<close>)
  moreover have "legal_ok ?db'" by (rule legal_ok_update [of db _ env w p]) (use parts guard in \<open>simp_all add: db1\<close>)
  ultimately show ?thesis by (simp add: wf_db_def)
qed

end

section \<open>The row updates keep the contract\<close>

interpretation claim_upd: logged_update "claim_row env w iv" "\<lambda>_. EventClaimed" "''''" for env w iv
  by unfold_locales (auto simp: claim_row_def row_ok_def)

interpretation complete_upd: logged_update "complete_row env" "\<lambda>_. EventCompleted" "''''" for env
  by unfold_locales (auto simp: complete_row_def row_ok_def)

interpretation retry_upd: logged_update "retry_row at e" "\<lambda>_. EventRetried" e for at e
  by unfold_locales (auto simp: retry_row_def row_ok_def)

interpretation fail_upd: logged_update "fail_row env e" "\<lambda>_. EventFailed" e for env e
  by unfold_locales (auto simp: fail_row_def row_ok_def)

interpretation reap_upd: logged_update "reap_row env" reap_event_type reap_last_error for env
  by unfold_locales (auto simp: reap_row_def reap_event_type_def row_ok_def)

interpretation ship_upd: row_update e_id "\<lambda>e. e\<lparr>e_shipped_at := Some t\<rparr>" for t
  by unfold_locales simp

section \<open>Every statement keeps the database well-formed\<close>

lemma run_stmt_cases:
  assumes "P db" "\<And>a db'. stmt db = Inr (a, db') \<Longrightarrow> P db'"
  shows "P (snd (run_stmt env what stmt db))"
  using assms by (auto simp: run_stmt_def split: fault.splits sum.splits)

lemma wf_small: "wf_db db \<Longrightarrow> r \<in> set (jobs db) \<Longrightarrow> r_attempts r \<le> int4_max"
  by (auto simp: wf_db_def jobs_ok_def row_ok_def)

lemma claim_select_subset:
  "r \<in> set (claim_select env limit db) \<Longrightarrow>
     r \<in> set (jobs db) \<and> claimable env r \<and> r_id r \<notin> set (pg_locked env)"
  by (auto simp: claim_select_def dest!: in_set_takeD)

lemma same_id_same_row:
  "jobs_ok db \<Longrightarrow> q \<in> set (jobs db) \<Longrightarrow> r \<in> set (jobs db) \<Longrightarrow> r_id q = r_id r \<Longrightarrow> q = r"
  by (auto simp: jobs_ok_def distinct_map dest: inj_onD)

lemma claim_picked:
  assumes "jobs_ok db" "r \<in> set (jobs db)" "r_id r \<in> r_id ` set (claim_select env limit db)"
  shows "r \<in> set (claim_select env limit db)" "claimable env r" "r_id r \<notin> set (pg_locked env)"
proof -
  from assms(3) obtain q where q: "q \<in> set (claim_select env limit db)" "r_id q = r_id r" by auto
  with assms claim_select_subset [OF q(1)] have "q = r" by (blast dest: same_id_same_row)
  with q(1) claim_select_subset [OF q(1)]
  show "r \<in> set (claim_select env limit db)" "claimable env r" "r_id r \<notin> set (pg_locked env)" by auto
qed

lemma wf_claim_stmt:
  assumes "wf_db db" and stmt: "claim_stmt env w lease limit db = Inr (a, db')"
  shows "wf_db db'"
proof -
  let ?p = "\<lambda>r. r_id r \<in> r_id ` set (claim_select env limit db)"
  from stmt obtain iv where db': "db' = log_rows env (\<lambda>_. EventClaimed) w ''''
        (returning env ?p (claim_row env w iv) db) (update_jobs ?p (claim_row env w iv) db)"
    and small: "\<forall>r \<in> set (returning env ?p (claim_row env w iv) db). r_attempts r \<le> int4_max"
    by (auto simp: claim_stmt_def Let_def list_ex_iff not_less split: option.splits if_splits)
  have "r_status r = StatusQueued" if "r \<in> set (jobs db)" "?p r" for r
    using claim_picked [OF _ that] assms(1) by (simp add: wf_db_def claimable_def)
  then show ?thesis unfolding db'
    using assms(1) small by (intro claim_upd.wf_logged) (auto simp: returning_def claim_row_def)
qed

lemma wf_complete_stmt: "wf_db db \<Longrightarrow> complete_stmt env i db = Inr (a, db') \<Longrightarrow> wf_db db'"
  by (auto simp: complete_stmt_def Let_def intro!: complete_upd.wf_logged)
     (auto simp: complete_row_def wf_small)

lemma wf_retry_stmt: "wf_db db \<Longrightarrow> retry_stmt env i at e db = Inr (a, db') \<Longrightarrow> wf_db db'"
  by (auto simp: retry_stmt_def Let_def intro!: retry_upd.wf_logged)
     (auto simp: retry_row_def wf_small)

lemma returning_fail_failed:
  "filter (\<lambda>r. r_status r = StatusFailed) (returning env p (fail_row env' e) db) =
     returning env p (fail_row env' e) db"
  by (auto simp: returning_def fail_row_def filter_id_conv)

lemma wf_fail_stmt:
  assumes "wf_db db" "fail_stmt env i e db = Inr (a, db')"
  shows "wf_db db'"
proof -
  let ?rows = "returning env (\<lambda>r. r_id r = i) (fail_row env e) db"
  from assms(2) obtain db1 where
    "insert_dead_letters env e ?rows (update_jobs (\<lambda>r. r_id r = i) (fail_row env e) db) = Inr db1"
    and "db' = log_rows env (\<lambda>_. EventFailed) '''' e ?rows db1"
    by (auto simp: fail_stmt_def Let_def split: sum.splits)
  with assms(1) show ?thesis
    by (auto simp: returning_fail_failed fail_upd.attempts_f wf_small intro!: fail_upd.wf_logged_dead)
qed

lemma wf_reap_stmt:
  assumes "wf_db db" "reap_stmt env db = Inr (a, db')"
  shows "wf_db db'"
proof -
  let ?rows = "returning env (lease_expired env) (reap_row env) db"
  from assms(2) obtain db1 where
    "insert_dead_letters env reap_last_error (filter (\<lambda>r. r_status r = StatusFailed) ?rows)
       (update_jobs (lease_expired env) (reap_row env) db) = Inr db1"
    and "db' = log_rows env reap_event_type '''' reap_last_error ?rows db1"
    by (auto simp: reap_stmt_def Let_def split: sum.splits)
  with assms(1) show ?thesis
    by (auto simp: reap_row_def reap_event_type_def lease_expired_def wf_small intro!: reap_upd.wf_logged_dead)
qed

lemma fresh_id_no_events:
  assumes "wf_db db"
  shows "next_job_id db \<notin> r_id ` set (jobs db)" "claims_of (next_job_id db) (job_events db) = 0"
    "lookup_job (next_job_id db) db = None"
proof -
  show 1: "next_job_id db \<notin> r_id ` set (jobs db)"
    using assms by (auto simp: wf_db_def jobs_ok_def)
  then show "claims_of (next_job_id db) (job_events db) = 0"
    using assms by (auto simp: wf_db_def events_ok_def claims_of_def filter_empty_conv) (metis)
  from 1 show "lookup_job (next_job_id db) db = None"
    by (simp add: lookup_job_def find_key_None_iff)
qed

lemma wf_enqueue_stmt:
  assumes wf: "wf_db db" and stmt: "enqueue_stmt env t pl c db = Inr (a, db')"
  shows "wf_db db'"
proof -
  note fresh = fresh_id_no_events [OF wf]
  from stmt obtain p where db': "db' = log_rows env (\<lambda>_. EventEnqueued) '''' ''''
      [new_job_row env (next_job_id db) t p c]
      (db\<lparr>jobs := jobs db @ [new_job_row env (next_job_id db) t p c], next_job_id := next_job_id db + 1\<rparr>)"
    by (auto simp: enqueue_stmt_def Let_def split: option.splits)
  have "jobs_ok db'" using wf fresh(1)
    by (force simp: db' wf_db_def jobs_ok_def new_job_row_def row_ok_def int4_max_def)
  moreover have "events_ok db'" using wf
    by (force simp: db' wf_db_def events_ok_def new_job_row_def sorted_wrt_append)
  moreover have "letters_ok db'" using wf
    by (auto simp: db' wf_db_def letters_ok_def new_job_row_def)
  moreover have "claims_ok db'" using wf fresh
    by (auto simp: db' wf_db_def claims_ok_def new_job_row_def) (auto simp: claims_of_def)
  moreover have "log_ok db'"
  proof -
    have "table_view db (next_job_id db) = None" by (simp add: table_view_def fresh)
    then have "replay (job_events db) (next_job_id db) = None"
      using wf by (simp add: wf_db_def log_ok_def)
    moreover have "table_view db' i = (if i = next_job_id db then Some (StatusQueued, 0, None) else table_view db i)" for i
      using fresh(3) by (simp add: db' table_view_def lookup_job_def find_append new_job_row_def row_view_def
          split: option.splits)
    ultimately show ?thesis using wf
      by (simp add: db' wf_db_def log_ok_def replay_append apply_event_def fun_eq_iff new_job_row_def)
  qed
  moreover have "legal_ok db'"
  proof -
    have "table_view db (next_job_id db) = None" by (simp add: table_view_def fresh)
    then have "replay (job_events db) (next_job_id db) = None"
      using wf by (simp add: wf_db_def log_ok_def)
    then show ?thesis using wf
      by (simp add: db' wf_db_def legal_ok_def legal_from_append legal_event_def new_job_row_def
          flip: replay_def)
  qed
  ultimately show ?thesis by (simp add: wf_db_def)
qed

lemma apply_event_ship: "apply_event (e\<lparr>e_shipped_at := t\<rparr>) = apply_event e"
  by (simp add: apply_event_def fun_eq_iff)

lemma fold_apply_ship:
  "fold apply_event (sql_update p (\<lambda>e. e\<lparr>e_shipped_at := t\<rparr>) es) v = fold apply_event es v"
  by (induction es arbitrary: v) (simp_all add: apply_event_ship)

lemma replay_ship: "replay (sql_update p (\<lambda>e. e\<lparr>e_shipped_at := t\<rparr>) es) = replay es"
  by (simp add: replay_def fold_apply_ship)

lemma legal_event_ship: "legal_event v (e\<lparr>e_shipped_at := t\<rparr>) = legal_event v e"
  by (cases "v (e_job_id e)") (auto simp: legal_event_def)

lemma legal_ship:
  "legal_from v (sql_update p (\<lambda>e. e\<lparr>e_shipped_at := t\<rparr>) es) = legal_from v es"
  by (induction es arbitrary: v) (simp_all add: apply_event_ship legal_event_ship)

lemma claims_of_ship: "claims_of i (sql_update p (\<lambda>e. e\<lparr>e_shipped_at := t\<rparr>) es) = claims_of i es"
  by (induction es) (simp_all add: claims_of_def)

lemma wf_mark_shipped: "wf_db db \<Longrightarrow> wf_db (snd (MarkEventsShipped env ids db))"
proof (cases "ids = []")
  case False
  assume wf: "wf_db db"
  let ?es = "sql_update (\<lambda>e. e_id e \<in> set ids) (\<lambda>e. e\<lparr>e_shipped_at := Some (pg_now env)\<rparr>) (job_events db)"
  have "wf_db (db\<lparr>job_events := ?es\<rparr>)"
    using wf unfolding wf_db_def log_ok_def claims_ok_def table_view_def lookup_job_def
    by (auto simp: jobs_ok_def events_ok_def letters_ok_def legal_ok_def legal_ship replay_ship claims_of_ship
        ship_upd.map_key_update set_sql_update fun_eq_iff)
  with wf False show ?thesis
    by (auto simp: MarkEventsShipped_def intro: run_stmt_cases)
qed (simp add: MarkEventsShipped_def)

lemma wf_exec_call: "wf_db db \<Longrightarrow> wf_db (exec_call env c db)"
proof (induction c)
  case (CallSequenceGap a b c)
  then show ?case
    by (auto simp: wf_db_def jobs_ok_def events_ok_def letters_ok_def log_ok_def claims_ok_def legal_ok_def
        table_view_def lookup_job_def fun_eq_iff)
qed (auto simp: Enqueue_def Claim_def Complete_def Retry_def Fail_def ReapExpiredLeases_def
    intro: run_stmt_cases wf_enqueue_stmt wf_claim_stmt wf_complete_stmt wf_retry_stmt wf_fail_stmt
      wf_reap_stmt wf_mark_shipped)

lemma wf_empty_db: "wf_db empty_db"
  by (simp add: wf_defs empty_db_def table_view_def lookup_job_def replay_def fun_eq_iff)

lemma run_calls_simps [simp]:
  "run_calls [] db = db"
  "run_calls ((env, c) # cs) db = run_calls cs (exec_call env c db)"
  by (simp_all add: run_calls_def)

lemma run_calls_append: "run_calls (cs @ ds) db = run_calls ds (run_calls cs db)"
  by (simp add: run_calls_def)

lemma wf_run_calls: "wf_db db \<Longrightarrow> wf_db (run_calls cs db)"
  by (induction cs arbitrary: db) (auto simp: wf_exec_call)

section \<open>Properties of every interleaving\<close>

text \<open>
  C7. From the empty database, every sequence of store calls, with any faults, locks, clocks and
  scan orders, leaves the database well-formed: identities are unique and below their sequences,
  claim columns agree with the status, attempts stay in the range of INTEGER, every dead letter
  refers to a job, no job has two, and every failed job has one.
\<close>

theorem store_wellformed: "wf_db (run_calls cs empty_db)"
  by (rule wf_run_calls [OF wf_empty_db])

text \<open>
  C1. The outbox is a complete history: in every state reached by store calls, replaying the
  events alone rebuilds the status, attempt count and last error of every job, and no others.
\<close>

theorem outbox_replays_jobs_table:
  "replay (job_events (run_calls cs empty_db)) = table_view (run_calls cs empty_db)"
  using wf_run_calls [OF wf_empty_db, of cs] by (simp add: wf_db_def log_ok_def)

text \<open>
  The outbox is a run of the lifecycle machine: the first event of a job is \<open>enqueued\<close>, every
  \<open>claimed\<close> event takes a queued job and counts one more attempt, so two claims of a job never
  follow each other, and the reaper's events take running jobs only.
\<close>

theorem outbox_is_legal_history: "legal_from Map.empty (job_events (run_calls cs empty_db))"
  using wf_run_calls [OF wf_empty_db, of cs] by (simp add: wf_db_def legal_ok_def)

text \<open>The attempts of a job are the claims recorded for it, in every reachable state.\<close>

theorem attempts_are_claims:
  "map r_attempts (jobs (run_calls cs empty_db)) =
     map (\<lambda>r. claims_of (r_id r) (job_events (run_calls cs empty_db))) (jobs (run_calls cs empty_db))"
  using wf_run_calls [OF wf_empty_db, of cs] by (simp add: wf_db_def claims_ok_def)

end
