(* ===== verification/StoreSpec.thy ===== *)
theory StoreSpec
  imports StoreInv
begin

text \<open>
  The behaviour of the store's methods, branch by branch, on every well-formed database: what a
  claim selects and returns, that no sequence of claims hands out a job twice, what the outcome
  methods and the reaper do to the row, the dead letters and the outbox, and what the read-only
  queries return.
\<close>

section \<open>Definitions the statements use\<close>

definition queued_ids :: "db \<Rightarrow> int set" where
  "queued_ids db = r_id ` {r \<in> set (jobs db). r_status r = StatusQueued}"

definition eligible :: "pg_env \<Rightarrow> job_row \<Rightarrow> bool" where
  "eligible env r \<longleftrightarrow> claimable env r \<and> r_id r \<notin> set (pg_locked env)"

text \<open>A sequence of claims by any workers, each with its own environment.\<close>

fun claim_all :: "(pg_env \<times> string \<times> duration \<times> int) list \<Rightarrow> db \<Rightarrow> job list list \<times> db" where
  "claim_all [] db = ([], db)"
| "claim_all ((env, w, lease, limit) # cs) db =
     (let (res, db1) = Claim env w lease limit db;
          (rest, db2) = claim_all cs db1
      in ((case res of Inl _ \<Rightarrow> [] | Inr js \<Rightarrow> js) # rest, db2))"

text \<open>
  A concrete environment without faults, locks or clock, and two concrete databases: two queued
  jobs, and the same with the first one claimed under a lease of 30 seconds.
\<close>

definition sample_env :: "int \<Rightarrow> pg_env" where
  "sample_env now = \<lparr>pg_now = now, pg_fault = NoFault, pg_locked = [], pg_pos = (\<lambda>i. i),
     pg_interval = (\<lambda>s. if s = ''30s'' then Some 30000000 else None), pg_jsonb = Some,
     pg_msg = (\<lambda>code. code), pg_late = False\<rparr>"

definition sample_lease :: duration where
  "sample_lease = 30000000000"

definition sample_calls :: "(pg_env \<times> store_call) list" where
  "sample_calls = [(sample_env 100, CallEnqueue ''a'' ''{}'' ''''),
     (sample_env 101, CallEnqueue ''b'' ''{}'' '''')]"

definition sample_db :: db where
  "sample_db = run_calls sample_calls empty_db"

definition sample_running :: db where
  "sample_running = run_calls (sample_calls @ [(sample_env 200, CallClaim ''w'' sample_lease 1)]) empty_db"

text \<open>The first job failed by its worker, and then sent back to the queue by a late retry.\<close>

definition sample_revived :: db where
  "sample_revived = run_calls (sample_calls @
     [(sample_env 200, CallClaim ''w'' sample_lease 1), (sample_env 300, CallFail 1 ''boom''),
      (sample_env 400, CallRetry 1 400000 ''late''),
      (sample_env 500, CallClaim ''v'' sample_lease 1)]) empty_db"

text \<open>
  A job whose fifth attempt was failed for good, which a late retry of an earlier attempt queued
  again and which a worker then claimed a sixth time.
\<close>

definition sample_poisoned :: db where
  "sample_poisoned = run_calls
     ([(sample_env 100, CallEnqueue ''a'' ''{}'' '''')] @
      concat (replicate 4 [(sample_env 100, CallClaim ''w'' sample_lease 1), (sample_env 100, CallRetry 1 0 ''boom'')]) @
      [(sample_env 100, CallClaim ''w'' sample_lease 1), (sample_env 100, CallFail 1 ''boom''),
       (sample_env 100, CallRetry 1 0 ''late''), (sample_env 100, CallClaim ''v'' sample_lease 1)]) empty_db"

section \<open>Claim\<close>

lemma run_stmt_Inr:
  "run_stmt env what stmt db = (Inr a, db') \<longleftrightarrow> pg_fault env = NoFault \<and> stmt db = Inr (a, db')"
  by (auto simp: run_stmt_def split: fault.splits sum.splits)

lemma run_stmt_error_cases:
  assumes "run_stmt env what stmt db = (Inl err, db')"
  shows "db' = db \<or> (\<exists>m a. pg_fault env = FaultAfter m \<and> stmt db = Inr (a, db'))"
  using assms by (auto simp: run_stmt_def split: fault.splits sum.splits)

lemma claim_select_eq:
  "claim_select env limit db = take (nat limit) (sort_key claim_rank
     (scan_by (pg_pos env) r_id (filter (eligible env) (jobs db))))"
  by (simp add: claim_select_def eligible_def [abs_def])

lemma length_claim_select:
  "length (claim_select env limit db) = min (nat limit) (length (filter (eligible env) (jobs db)))"
  by (simp add: claim_select_eq min.commute)

lemma claim_select_best:
  assumes "r \<in> set (claim_select env limit db)" "q \<in> set (jobs db)" "eligible env q"
    and "q \<notin> set (claim_select env limit db)"
  shows "claim_rank r \<le> claim_rank q"
proof -
  let ?s = "sort_key claim_rank (scan_by (pg_pos env) r_id (filter (eligible env) (jobs db)))"
  have split: "?s = take (nat limit) ?s @ drop (nat limit) ?s" by simp
  have "q \<in> set ?s" using assms(2,3) by simp
  then have "q \<in> set (drop (nat limit) ?s)"
    using assms(4) split unfolding claim_select_eq by (metis Un_iff set_append)
  moreover have "sorted (map claim_rank (take (nat limit) ?s) @ map claim_rank (drop (nat limit) ?s))"
    by (metis sorted_sort_key split map_append)
  ultimately show ?thesis
    using assms(1) unfolding claim_select_eq by (auto simp: sorted_append)
qed

lemma picked_rows:
  assumes "jobs_ok db"
  shows "mset (filter (\<lambda>r. r_id r \<in> r_id ` set (claim_select env limit db)) (jobs db)) =
     mset (claim_select env limit db)"
proof (rule set_eq_iff_mset_eq_distinct [THEN iffD1])
  show "distinct (filter (\<lambda>r. r_id r \<in> r_id ` set (claim_select env limit db)) (jobs db))"
    using assms by (auto simp: jobs_ok_def distinct_map)
  show "distinct (claim_select env limit db)"
  proof -
    have "distinct (sort_key claim_rank (scan_by (pg_pos env) r_id (filter (eligible env) (jobs db))))"
      using assms by (auto simp: jobs_ok_def distinct_map scan_by_def)
    then show ?thesis unfolding claim_select_eq by (rule distinct_take)
  qed
  show "set (filter (\<lambda>r. r_id r \<in> r_id ` set (claim_select env limit db)) (jobs db)) =
      set (claim_select env limit db)"
    using claim_picked(1) [OF assms] claim_select_subset by (auto simp: image_iff)
qed

lemma claim_SuccessD:
  assumes "Claim env w lease limit db = (Inr js, db')"
  obtains iv where "pg_fault env = NoFault" "pg_interval env (duration_String (sint lease)) = Some iv"
    "0 \<le> limit"
    "js = map to_job (returning env (\<lambda>r. r_id r \<in> r_id ` set (claim_select env limit db)) (claim_row env w iv) db)"
    "db' = log_rows env (\<lambda>_. EventClaimed) w ''''
       (returning env (\<lambda>r. r_id r \<in> r_id ` set (claim_select env limit db)) (claim_row env w iv) db)
       (update_jobs (\<lambda>r. r_id r \<in> r_id ` set (claim_select env limit db)) (claim_row env w iv) db)"
  using assms
  by (auto simp: Claim_def run_stmt_Inr claim_stmt_def Let_def split: option.splits if_splits)

lemma claim_row_id [simp]: "r_id (claim_row env w iv r) = r_id r"
  by (simp add: claim_row_def)

lemma j_id_to_job [simp]: "j_id (to_job r) = r_id r"
  by (simp add: to_job_def)

lemma claimed_ids:
  assumes "wf_db db" "Claim env w lease limit db = (Inr js, db')"
  shows "mset (map j_id js) = mset (map r_id (claim_select env limit db))"
proof -
  from assms(2) obtain iv where js: "js = map to_job (returning env
      (\<lambda>r. r_id r \<in> r_id ` set (claim_select env limit db)) (claim_row env w iv) db)"
    by (rule claim_SuccessD)
  have "map j_id js = map r_id (returning env
      (\<lambda>r. r_id r \<in> r_id ` set (claim_select env limit db)) (claim_row env w iv) db)"
    by (simp add: js)
  then have "mset (map j_id js) = image_mset r_id (mset (filter (\<lambda>r. r_id r \<in> r_id ` set (claim_select env limit db)) (jobs db)))"
    by (simp add: returning_def sql_returning_def image_mset.compositionality comp_def)
  then show ?thesis
    using picked_rows [of db env limit] assms(1) by (simp add: wf_db_def)
qed

lemma claimed_id_set:
  assumes "wf_db db" "Claim env w lease limit db = (Inr js, db')"
  shows "j_id ` set js = r_id ` set (claim_select env limit db)" "distinct (map j_id js)"
proof -
  note ids = claimed_ids [OF assms]
  from mset_eq_setD [OF ids] show "j_id ` set js = r_id ` set (claim_select env limit db)" by simp
  have "distinct (map r_id (claim_select env limit db))"
  proof -
    have "distinct (map r_id (filter (\<lambda>r. r_id r \<in> r_id ` set (claim_select env limit db)) (jobs db)))"
      using assms(1) by (simp add: wf_db_def jobs_ok_def distinct_map_filter_key)
    then show ?thesis
      using assms(1) by (metis distinct_map_if_mset picked_rows wf_db_def)
  qed
  with ids show "distinct (map j_id js)" by (metis mset_eq_imp_distinct_iff)
qed

text \<open>
  C15. A successful claim takes as many of the eligible jobs (queued, due, not locked by another
  transaction) as the limit allows, each once, and never leaves behind an eligible job of higher
  priority, or of equal priority and earlier run_after, than one it took.
\<close>

theorem claim_takes_best_eligible:
  assumes "wf_db db" "Claim env w lease limit db = (Inr js, db')"
  shows "int (length js) = min limit (int (length (filter (eligible env) (jobs db)))) \<and>
     distinct (map j_id js) \<and>
     (\<forall>r \<in> set (jobs db). \<forall>q \<in> set (jobs db). r_id r \<in> j_id ` set js \<longrightarrow> eligible env r \<and>
        (eligible env q \<and> r_id q \<notin> j_id ` set js \<longrightarrow>
           r_priority q < r_priority r \<or> r_priority q = r_priority r \<and> r_run_after r \<le> r_run_after q))"
proof -
  have jobs: "jobs_ok db" using assms(1) by (simp add: wf_db_def)
  have lim: "0 \<le> limit" using assms(2) by (rule claim_SuccessD)
  note ids = claimed_id_set [OF assms]
  have "length js = length (claim_select env limit db)"
    using arg_cong [OF claimed_ids [OF assms], of size] by simp
  then have "int (length js) = min limit (int (length (filter (eligible env) (jobs db))))"
    using lim by (simp add: length_claim_select)
  moreover have "eligible env r \<and> (eligible env q \<and> r_id q \<notin> j_id ` set js \<longrightarrow>
           r_priority q < r_priority r \<or> r_priority q = r_priority r \<and> r_run_after r \<le> r_run_after q)"
    if r: "r \<in> set (jobs db)" "r_id r \<in> j_id ` set js" and q: "q \<in> set (jobs db)" for r q
  proof -
    have sel: "r \<in> set (claim_select env limit db)"
      using claim_picked(1) [OF jobs r(1)] r(2) ids(1) by simp
    then have "eligible env r" using claim_select_subset by (simp add: eligible_def)
    moreover have "claim_rank r \<le> claim_rank q" if "eligible env q" "r_id q \<notin> j_id ` set js"
      using claim_select_best [OF sel q that(1)] that(2) ids(1) by auto
    ultimately show ?thesis by (auto simp: claim_rank_def)
  qed
  ultimately show ?thesis using ids(2) by blast
qed

lemma lookup_update_jobs:
  assumes "\<And>r. r_id (f r) = r_id r"
  shows "lookup_job i (update_jobs p f db) = map_option (\<lambda>r. if p r then f r else r) (lookup_job i db)"
proof -
  have "row_update r_id f" using assms by unfold_locales
  then show ?thesis by (simp add: lookup_job_def row_update.find_update)
qed

lemma lookup_job_id: "lookup_job i db = Some r \<Longrightarrow> r \<in> set (jobs db) \<and> r_id r = i"
  unfolding lookup_job_def by (rule find_key_SomeD)

lemma job_lookup: "jobs_ok db \<Longrightarrow> r \<in> set (jobs db) \<Longrightarrow> lookup_job (r_id r) db = Some r"
  by (simp add: lookup_job_def find_key_Some_iff jobs_ok_def)

lemma lookup_log_rows [simp]: "lookup_job i (log_rows env ty w m rows db) = lookup_job i db"
  by (simp add: lookup_job_def)


lemma queued_after_claim:
  assumes "wf_db db"
  shows "queued_ids (snd (Claim env w lease limit db)) \<subseteq>
     queued_ids db - (case fst (Claim env w lease limit db) of Inl _ \<Rightarrow> {} | Inr js \<Rightarrow> j_id ` set js)"
proof (cases "Claim env w lease limit db")
  case (Pair res db')
  show ?thesis
  proof (cases res)
    case (Inl err)
    have "queued_ids (snd (Claim env w lease limit db)) \<subseteq> queued_ids db"
      unfolding Claim_def
      by (rule run_stmt_cases)
         (auto simp: claim_stmt_def Let_def queued_ids_def set_sql_update claim_row_def
           split: option.splits if_splits)
    with Pair Inl show ?thesis by simp
  next
    case (Inr js)
    then have C: "Claim env w lease limit db = (Inr js, db')" using Pair by simp
    from C obtain iv where "db' = log_rows env (\<lambda>_. EventClaimed) w ''''
       (returning env (\<lambda>r. r_id r \<in> r_id ` set (claim_select env limit db)) (claim_row env w iv) db)
       (update_jobs (\<lambda>r. r_id r \<in> r_id ` set (claim_select env limit db)) (claim_row env w iv) db)"
      by (rule claim_SuccessD)
    then have "queued_ids db' \<subseteq> queued_ids db - r_id ` set (claim_select env limit db)"
      by (auto simp: queued_ids_def set_sql_update claim_row_def)
    then have "queued_ids db' \<subseteq> queued_ids db - j_id ` set js"
      by (simp add: claimed_id_set(1) [OF assms C])
    with Pair Inr show ?thesis by auto
  qed
qed

lemma claimed_were_queued:
  assumes "wf_db db" "Claim env w lease limit db = (Inr js, db')"
  shows "j_id ` set js \<subseteq> queued_ids db"
  using claimed_id_set(1) [OF assms] claim_select_subset
  by (fastforce simp: queued_ids_def claimable_def)

lemma wf_claim: "wf_db db \<Longrightarrow> wf_db (snd (Claim env w lease limit db))"
  using wf_exec_call [of db env "CallClaim w lease limit"] by simp

lemma claim_all_ids:
  assumes "wf_db db"
  shows "j_id ` set (concat (fst (claim_all cs db))) \<subseteq> queued_ids db \<and>
     distinct (map j_id (concat (fst (claim_all cs db))))"
  using assms
proof (induction cs arbitrary: db)
  case (Cons c cs)
  obtain env w lease limit where c: "c = (env, w, lease, limit)" by (cases c) auto
  obtain res db1 where C: "Claim env w lease limit db = (res, db1)" by (cases "Claim env w lease limit db")
  have db1: "queued_ids db1 \<subseteq> queued_ids db - (case res of Inl _ \<Rightarrow> {} | Inr js \<Rightarrow> j_id ` set js)"
    using queued_after_claim [OF Cons.prems, of env w lease limit] C by simp
  have "wf_db db1" using wf_claim [OF Cons.prems, of env w lease limit] C by simp
  note IH = Cons.IH [OF this]
  have fst: "fst (claim_all (c # cs) db) = (case res of Inl _ \<Rightarrow> [] | Inr js \<Rightarrow> js) # fst (claim_all cs db1)"
    by (simp add: c C split: prod.splits)
  show ?case
  proof (cases res)
    case (Inl err)
    with IH db1 show ?thesis unfolding fst by simp blast
  next
    case (Inr js)
    note now = claimed_were_queued [OF Cons.prems C [unfolded Inr]]
      claimed_id_set(2) [OF Cons.prems C [unfolded Inr]]
    have "j_id ` set (concat (fst (claim_all cs db1))) \<subseteq> queued_ids db - j_id ` set js"
      using IH db1 Inr by auto
    with IH now Inr show ?thesis unfolding fst by (simp add: image_Un) blast
  qed
qed (simp add: queued_ids_def)

text \<open>
  C2. No job is handed out twice: whatever workers claim, in whatever order, with any limits,
  row locks, scan orders and faults, the jobs returned by all the claims together are distinct,
  and all of them were queued at the start.
\<close>

theorem claims_never_double:
  assumes "wf_db db"
  shows "distinct (map j_id (concat (fst (claim_all cs db)))) \<and>
     j_id ` set (concat (fst (claim_all cs db))) \<subseteq> queued_ids db"
  using claim_all_ids [OF assms] by blast

section \<open>Complete, Retry and Fail\<close>

lemma filter_key:
  "distinct (map key rows) \<Longrightarrow> filter (\<lambda>r. key r = k) rows =
     (case find (\<lambda>r. key r = k) rows of None \<Rightarrow> [] | Some r \<Rightarrow> [r])"
  by (induction rows) (auto simp: filter_empty_conv find_None_iff dest!: find_key_SomeD split: option.splits)

lemma returning_id:
  assumes "wf_db db"
  shows "returning env (\<lambda>r. r_id r = i) f db = (case lookup_job i db of None \<Rightarrow> [] | Some r \<Rightarrow> [f r])"
proof -
  have "filter (\<lambda>r. r_id r = i) (jobs db) = (case lookup_job i db of None \<Rightarrow> [] | Some r \<Rightarrow> [r])"
    using assms by (simp add: lookup_job_def filter_key wf_db_def jobs_ok_def)
  then show ?thesis
    by (simp add: returning_def sql_returning_def split: option.splits)
qed

lemma lookup_job_frame [simp]:
  "lookup_job k (db\<lparr>dead_letters := ds\<rparr>) = lookup_job k db"
  "lookup_job k (db\<lparr>next_dead_letter_id := n\<rparr>) = lookup_job k db"
  by (simp_all add: lookup_job_def)

lemma lookup_update_id:
  assumes "\<And>r. r_id (f r) = r_id r"
  shows "lookup_job k (update_jobs (\<lambda>r. r_id r = i) f db) =
     (if k = i then map_option f (lookup_job i db) else lookup_job k db)"
  by (cases "lookup_job k db") (auto simp: lookup_update_jobs [OF assms] dest: lookup_job_id)

text \<open>
  Without a fault \<open>Complete\<close> succeeds whatever the state of the job is: an existing job
  becomes completed now, keeping its claim columns, and one \<open>completed\<close> event with its attempt
  count is logged; for an unknown id nothing happens. No other row and no dead letter changes.
\<close>

theorem complete_effect:
  assumes "wf_db db" "pg_fault env = NoFault"
  shows "fst (Complete env i db) = Inr () \<and>
     (\<forall>k. lookup_job k (snd (Complete env i db)) =
        (if k = i then map_option (complete_row env) (lookup_job i db) else lookup_job k db)) \<and>
     job_events (snd (Complete env i db)) = job_events db @ (case lookup_job i db of None \<Rightarrow> []
       | Some r \<Rightarrow> [mk_event (pg_now env) (next_event_id db, complete_row env r, EventCompleted, '''', '''')]) \<and>
     dead_letters (snd (Complete env i db)) = dead_letters db"
  using assms(2)
  by (auto simp: Complete_def run_stmt_def complete_stmt_def Let_def returning_id [OF assms(1)]
      lookup_update_id complete_upd.key_upd split: option.splits)

text \<open>
  Without a fault \<open>Retry\<close> puts an existing job back in the queue whatever its state is, due
  at the given instant (to the microsecond), with its claim columns cleared and the error kept,
  and logs one \<open>retried\<close> event with the error; its attempt count and the other rows stay.
\<close>

theorem retry_effect:
  assumes "wf_db db" "pg_fault env = NoFault"
  shows "fst (Retry env i at err db) = Inr () \<and>
     (\<forall>k. lookup_job k (snd (Retry env i at err db)) =
        (if k = i then map_option (retry_row (at div 1000) err) (lookup_job i db) else lookup_job k db)) \<and>
     job_events (snd (Retry env i at err db)) = job_events db @ (case lookup_job i db of None \<Rightarrow> []
       | Some r \<Rightarrow> [mk_event (pg_now env) (next_event_id db, retry_row (at div 1000) err r, EventRetried, '''', err)]) \<and>
     dead_letters (snd (Retry env i at err db)) = dead_letters db"
  using assms(2)
  by (auto simp: Retry_def run_stmt_def retry_stmt_def Let_def returning_id [OF assms(1)] to_timestamptz_def
      Microsecond_def lookup_update_id retry_upd.key_upd split: option.splits)

lemma fail_stmt_eq:
  assumes "wf_db db"
  shows "fail_stmt env i err db =
     (case lookup_job i db of
        None \<Rightarrow> Inr ((), db)
      | Some r \<Rightarrow>
          if i \<in> d_job_id ` set (dead_letters db) then Inl (pg_error env ''23505'')
          else Inr ((), log_rows env (\<lambda>_. EventFailed) '''' err [fail_row env err r]
                 ((update_jobs (\<lambda>r. r_id r = i) (fail_row env err) db)\<lparr>
                    dead_letters := dead_letters db @
                      [mk_dead_letter (pg_now env) err (next_dead_letter_id db, fail_row env err r)],
                    next_dead_letter_id := next_dead_letter_id db + 1\<rparr>)))"
proof (cases "lookup_job i db")
  case None
  then have "sql_update (\<lambda>r. r_id r = i) (fail_row env err) (jobs db) = jobs db"
    by (auto simp: lookup_job_def find_None_iff intro: sql_update_none)
  then have "update_jobs (\<lambda>r. r_id r = i) (fail_row env err) db = db"
    by (simp add: update_jobs_def)
  moreover have "distinct (map d_job_id (dead_letters db))"
    using assms by (simp add: wf_db_def letters_ok_def)
  ultimately show ?thesis using None
    by (simp add: fail_stmt_def returning_id [OF assms] insert_dead_letters_eq log_rows_def
        insert_events_def new_letters_def)
next
  case (Some r)
  have "distinct (map d_job_id (dead_letters db))"
    using assms by (simp add: wf_db_def letters_ok_def)
  moreover have "r_id (fail_row env err r) = i"
    using lookup_job_id [OF Some] by (simp add: fail_upd.key_upd)
  ultimately show ?thesis using Some
    by (auto simp: fail_stmt_def returning_id [OF assms] insert_dead_letters_eq new_letters_def)
qed

text \<open>
  Without a fault \<open>Fail\<close> on a job that has no dead letter yet makes it failed now with its
  claim columns cleared, and in the same statement writes one dead letter that copies the job's
  type, payload, attempts and error, and one \<open>failed\<close> event.
\<close>

theorem fail_effect:
  assumes "wf_db db" "pg_fault env = NoFault" "lookup_job i db = Some r"
    and "i \<notin> d_job_id ` set (dead_letters db)"
  shows "fst (Fail env i err db) = Inr () \<and>
     (\<forall>k. lookup_job k (snd (Fail env i err db)) =
        (if k = i then Some (fail_row env err r) else lookup_job k db)) \<and>
     dead_letters (snd (Fail env i err db)) = dead_letters db @
       [\<lparr>d_id = next_dead_letter_id db, d_job_id = i, d_type = r_type r, d_payload = r_payload r,
         d_attempts = r_attempts r, d_last_error = err, d_failed_at = pg_now env\<rparr>] \<and>
     job_events (snd (Fail env i err db)) = job_events db @
       [mk_event (pg_now env) (next_event_id db, fail_row env err r, EventFailed, '''', err)]"
  using assms lookup_job_id [OF assms(3)]
  by (simp add: Fail_def run_stmt_def fail_stmt_eq [OF assms(1)] lookup_update_id fail_upd.key_upd
      mk_dead_letter_def) (simp add: fail_row_def)

text \<open>
  \<open>Fail\<close> on a job that already has a dead letter breaks the UNIQUE constraint on job_id: the
  call returns the server's error and the whole statement is undone, so the job keeps its row.
\<close>

theorem fail_duplicate_rejected:
  assumes "wf_db db" "pg_fault env = NoFault" "lookup_job i db = Some r"
    and "i \<in> d_job_id ` set (dead_letters db)"
  shows "Fail env i err db = (Inl (Wrapped ''store: fail'' (pg_error env ''23505'')), db)"
  using assms by (simp add: Fail_def run_stmt_def fail_stmt_eq)

section \<open>ReapExpiredLeases\<close>

lemma reap_row_simps [simp]:
  "r_id (reap_row env r) = r_id r"
  "r_status (reap_row env r) = (if exhausted r then StatusFailed else StatusQueued)"
  "r_attempts (reap_row env r) = r_attempts r"
  by (simp_all add: reap_row_def)

lemma reap_dead_ids:
  "r_id ` set (filter (\<lambda>r. r_status r = StatusFailed) (returning env (lease_expired env) (reap_row env) db)) =
     r_id ` {r \<in> set (jobs db). lease_expired env r \<and> exhausted r}"
  by (force simp: returning_def image_iff split: if_splits)

lemma reap_dead_length:
  "length (filter (\<lambda>r. r_status r = StatusFailed) (returning env (lease_expired env) (reap_row env) db)) =
     length (filter (\<lambda>r. lease_expired env r \<and> exhausted r) (jobs db))"
proof -
  let ?m = "mset (sql_returning (lease_expired env) (reap_row env) (jobs db))"
  have "mset (filter (\<lambda>r. r_status r = StatusFailed) (returning env (lease_expired env) (reap_row env) db)) =
      filter_mset (\<lambda>r. r_status r = StatusFailed) ?m"
    by (simp add: returning_def)
  then have "length (filter (\<lambda>r. r_status r = StatusFailed) (returning env (lease_expired env) (reap_row env) db)) =
      length (filter (\<lambda>r. r_status r = StatusFailed) (sql_returning (lease_expired env) (reap_row env) (jobs db)))"
    by (metis mset_filter size_mset)
  also have "\<dots> = length (filter (\<lambda>r. lease_expired env r \<and> exhausted r) (jobs db))"
    by (simp add: sql_returning_def filter_map comp_def) (rule arg_cong [of _ _ length], rule filter_cong, auto)
  finally show ?thesis .
qed

lemma reap_distinct_iff:
  assumes "wf_db db"
  shows "distinct (map d_job_id (dead_letters db) @ map r_id
      (filter (\<lambda>r. r_status r = StatusFailed) (returning env (lease_expired env) (reap_row env) db))) \<longleftrightarrow>
     (\<forall>r \<in> set (jobs db). lease_expired env r \<and> exhausted r \<longrightarrow> r_id r \<notin> d_job_id ` set (dead_letters db))"
proof -
  have "distinct (map r_id (filter (\<lambda>r. r_status r = StatusFailed) (returning env (lease_expired env) (reap_row env) db)))"
    using assms by (intro distinct_map_filter_key reap_upd.distinct_returning_ids) (simp add: wf_db_def)
  moreover have "distinct (map d_job_id (dead_letters db))"
    using assms by (simp add: wf_db_def letters_ok_def)
  moreover have "A \<inter> r_id ` S = {} \<longleftrightarrow> (\<forall>r \<in> S. r_id r \<notin> A)" for A and S :: "job_row set"
    by blast
  ultimately show ?thesis
    unfolding distinct_append set_map reap_dead_ids by simp blast
qed

lemma reap_stmt_eq:
  assumes "wf_db db"
  shows "reap_stmt env db =
     (let reaped = returning env (lease_expired env) (reap_row env) db;
          dead = filter (\<lambda>r. r_status r = StatusFailed) reaped
      in if \<exists>r \<in> set (jobs db). lease_expired env r \<and> exhausted r \<and> r_id r \<in> d_job_id ` set (dead_letters db)
         then Inl (pg_error env ''23505'')
         else Inr ((int (length reaped), int (length dead)),
                log_rows env reap_event_type '''' reap_last_error reaped
                  ((update_jobs (lease_expired env) (reap_row env) db)\<lparr>
                     dead_letters := dead_letters db @ new_letters env reap_last_error dead (next_dead_letter_id db),
                     next_dead_letter_id := next_dead_letter_id db + int (length dead)\<rparr>)))"
  using reap_distinct_iff [OF assms, of env]
  unfolding reap_stmt_def Let_def insert_dead_letters_eq update_jobs_simps
  by (auto simp del: set_filter distinct_append)


lemma reap_blocked:
  assumes "wf_db db" "pg_fault env = NoFault" "r \<in> set (jobs db)" "lease_expired env r" "exhausted r"
    and "r_id r \<in> d_job_id ` set (dead_letters db)"
  shows "ReapExpiredLeases env db = (Inl (Wrapped ''store: reap expired leases'' (pg_error env ''23505'')), db)"
proof -
  have "reap_stmt env db = Inl (pg_error env ''23505'')"
    unfolding reap_stmt_eq [OF assms(1)] Let_def using assms(3-6) by (subst if_P) auto
  then show ?thesis using assms(2) by (simp add: ReapExpiredLeases_def run_stmt_def)
qed

text \<open>
  One conflicting row stops the whole reaper: when an exhausted job with an expired lease
  already has a dead letter, the pass returns a unique violation and reclaims nothing at all, not
  even the expired jobs that are unrelated to the conflict.
\<close>

theorem reap_blocked_by_dead_letter:
  assumes "wf_db db" "pg_fault env = NoFault" "r \<in> set (jobs db)" "lease_expired env r" "exhausted r"
    and "r_id r \<in> d_job_id ` set (dead_letters db)"
  shows "ReapExpiredLeases env db = (Inl (Wrapped ''store: reap expired leases'' (pg_error env ''23505'')), db)"
  using assms by (rule reap_blocked)

section \<open>Dead letters, outbox and counts\<close>

lemma run_query_Inr: "run_query env what q db = Inr a \<longleftrightarrow> pg_fault env = NoFault \<and> q db = Inr a"
  by (auto simp: run_query_def split: fault.splits sum.splits)

lemma take_sort_key_least:
  fixes k :: "'a \<Rightarrow> 'b::linorder"
  assumes "x \<in> set (take n (sort_key k xs))" "y \<in> set xs" "y \<notin> set (take n (sort_key k xs))"
  shows "k x \<le> k y"
proof -
  let ?s = "sort_key k xs"
  have split: "?s = take n ?s @ drop n ?s" by simp
  have "y \<in> set (drop n ?s)"
    using assms(2,3) by (metis Un_iff set_append set_sort split)
  moreover have "sorted (map k (take n ?s) @ map k (drop n ?s))"
    by (metis map_append sorted_sort_key split)
  ultimately show ?thesis using assms(1) by (auto simp: sorted_append)
qed

text \<open>
  \<open>ListDeadLetters\<close> returns dead letters of the table, each once, newest first, as many as the
  limit allows, and none it leaves out is newer than one it returns; a negative limit is an error
  of the server.
\<close>

theorem list_dead_letters_newest_first:
  assumes "wf_db db" "ListDeadLetters env limit db = Inr ds"
  shows "0 \<le> limit \<and> int (length ds) = min limit (int (length (dead_letters db))) \<and>
     set ds \<subseteq> set (dead_letters db) \<and> distinct (map d_id ds) \<and>
     sorted_wrt (\<ge>) (map d_failed_at ds) \<and>
     (\<forall>d \<in> set ds. \<forall>d' \<in> set (dead_letters db) - set ds. d_failed_at d' \<le> d_failed_at d)"
proof -
  let ?s = "scan_by (pg_pos env) d_id (dead_letters db)"
  let ?k = "\<lambda>d. - d_failed_at d"
  have lim: "0 \<le> limit" and ds: "ds = take (nat limit) (sort_key ?k ?s)"
    using assms(2) by (auto simp: ListDeadLetters_def run_query_Inr split: if_splits)
  have "sorted (map ?k (take (nat limit) (sort_key ?k ?s)))"
    by (metis sorted_sort_key sorted_wrt_take take_map)
  then have "sorted_wrt (\<ge>) (map d_failed_at ds)"
    by (simp add: ds sorted_wrt_map)
  moreover have "distinct (map d_id (sort_key ?k ?s))"
  proof -
    have "distinct (map d_id (dead_letters db))"
      using assms(1) by (simp add: wf_db_def letters_ok_def strict_sorted_iff)
    then show ?thesis by (metis distinct_map_if_mset mset_scan_by mset_sort)
  qed
  then have "distinct (map d_id ds)" by (simp add: ds flip: take_map)
  moreover have "d_failed_at d' \<le> d_failed_at d" if "d \<in> set ds" "d' \<in> set (dead_letters db) - set ds" for d d'
    using take_sort_key_least [of d "nat limit" ?k ?s d'] that by (simp add: ds)
  moreover have "set ds \<subseteq> set (dead_letters db)"
    using set_take_subset [of "nat limit" "sort_key ?k ?s"] by (simp add: ds)
  moreover have "int (length ds) = min limit (int (length (dead_letters db)))"
    using lim by (simp add: ds)
  ultimately show ?thesis using lim by blast
qed

lemma sorted_filter_events:
  assumes "wf_db db"
  shows "sort_key e_id (filter p (job_events db)) = filter p (job_events db)"
proof -
  have "sorted (map e_id (job_events db))"
    using assms by (simp add: wf_db_def events_ok_def strict_sorted_iff)
  then show ?thesis by (simp add: sort_key_id_if_sorted sorted_filter)
qed

lemma fetch_eq:
  assumes "wf_db db" "pg_fault env = NoFault" "0 \<le> limit"
  shows "FetchUnshippedEvents env limit db =
     Inr (map event.truncate (take (nat limit) (filter unshipped (job_events db))))"
  using assms by (simp add: FetchUnshippedEvents_def run_query_def sorted_filter_events)

lemma truncate_ids [simp]: "map e_id (map event.truncate es) = map e_id es"
  by (induction es) (simp_all add: event.truncate_def)

lemma unshipped_after_mark:
  assumes "pg_fault env = NoFault"
  shows "filter unshipped (job_events (snd (MarkEventsShipped env ids db))) =
     filter (\<lambda>e. unshipped e \<and> e_id e \<notin> set ids) (job_events db)"
proof (cases "ids = []")
  case True
  then show ?thesis by (simp add: MarkEventsShipped_def)
next
  case False
  have "filter unshipped (sql_update (\<lambda>e. e_id e \<in> set ids) (\<lambda>e. e\<lparr>e_shipped_at := Some t\<rparr>) es) =
      filter (\<lambda>e. unshipped e \<and> e_id e \<notin> set ids) es" for t es
    by (induction es) (auto simp: unshipped_def)
  then show ?thesis using False assms by (simp add: MarkEventsShipped_def run_stmt_def)
qed

lemma filter_not_in_take:
  assumes "distinct (map k xs)"
  shows "filter (\<lambda>x. k x \<notin> k ` set (take n xs)) xs = drop n xs"
proof -
  have split: "xs = take n xs @ drop n xs" by simp
  have dist: "k ` set (take n xs) \<inter> k ` set (drop n xs) = {}"
    using assms by (metis distinct_append map_append set_map split)
  have "filter (\<lambda>x. k x \<notin> k ` set (take n xs)) (take n xs) = []"
    by (simp add: filter_empty_conv)
  moreover have "filter (\<lambda>x. k x \<notin> k ` set (take n xs)) (drop n xs) = drop n xs"
    using dist by (auto simp: filter_id_conv)
  ultimately show ?thesis by (metis append_Nil filter_append split)
qed

lemma unshipped_after_fetch_mark:
  assumes "wf_db db" "pg_fault env = NoFault"
  shows "filter unshipped (job_events (snd (MarkEventsShipped env
      (map e_id (take n (filter unshipped (job_events db)))) db))) =
     drop n (filter unshipped (job_events db))"
proof -
  have "distinct (map e_id (filter unshipped (job_events db)))"
    using assms(1) by (intro distinct_map_filter_key) (simp add: wf_db_def events_ok_def strict_sorted_iff)
  from filter_not_in_take [OF this, of n] show ?thesis
    unfolding unshipped_after_mark [OF assms(2)] by (simp add: conj_commute)
qed

text \<open>
  The outbox queue: \<open>FetchUnshippedEvents\<close> returns the oldest unshipped events by id, up to the
  batch size, and marking the fetched ids leaves exactly the rest unshipped, in the same order.
\<close>

theorem fetch_then_mark_advances:
  assumes "wf_db db" "pg_fault env = NoFault" "pg_fault env' = NoFault"
    and "FetchUnshippedEvents env n db = Inr es"
  shows "map e_id es = take (nat n) (map e_id (filter unshipped (job_events db))) \<and>
     sorted_wrt (<) (map e_id es) \<and>
     filter unshipped (job_events (snd (MarkEventsShipped env' (map e_id es) db))) =
       drop (length es) (filter unshipped (job_events db))"
proof -
  have n: "0 \<le> n" using assms(4) by (auto simp: FetchUnshippedEvents_def run_query_Inr split: if_splits)
  have es: "es = map event.truncate (take (nat n) (filter unshipped (job_events db)))"
    using fetch_eq [OF assms(1,2) n] assms(4) by simp
  have ids: "map e_id es = map e_id (take (nat n) (filter unshipped (job_events db)))"
    unfolding es by (rule truncate_ids)
  have "sorted_wrt (<) (map e_id (job_events db))"
    using assms(1) by (simp add: wf_db_def events_ok_def)
  then have "sorted_wrt (<) (map e_id (filter unshipped (job_events db)))"
    by (simp add: sorted_wrt_map sorted_wrt_filter)
  then have "sorted_wrt (<) (map e_id es)"
    unfolding ids take_map [symmetric] by (rule sorted_wrt_take)
  moreover have "drop (nat n) xs = drop (length (take (nat n) xs)) xs" for xs :: "event_row list"
    by (cases "nat n \<le> length xs") simp_all
  ultimately show ?thesis
    using unshipped_after_fetch_mark [OF assms(1,3), of "nat n"] unfolding ids
    by (simp add: es take_map)
qed

lemma fold_update_map_of:
  assumes "distinct (map fst rows)"
  shows "map_of (fold (\<lambda>(t, n) m. AList.update t n m) rows acc) = map_of acc ++ map_of rows"
  using assms
proof (induction rows arbitrary: acc)
  case (Cons row rows)
  obtain a b where row: "row = (a, b)" by (cases row)
  with Cons.prems have new: "a \<notin> dom (map_of rows)" by (simp add: dom_map_of_conv_image_fst)
  have "map_of (fold (\<lambda>(t, n) m. AList.update t n m) (row # rows) acc) =
      (map_of acc)(a \<mapsto> b) ++ map_of rows"
    using Cons row by (simp add: update_conv' del: fun_upd_apply)
  also have "\<dots> = (map_of acc ++ map_of rows)(a \<mapsto> b)"
    using new by (rule map_add_upd_left)
  also have "\<dots> = map_of acc ++ map_of (row # rows)"
    by (simp add: row map_add_upd del: fun_upd_apply)
  finally show ?case .
qed simp

text \<open>
  \<open>CountByStatusAndType\<close> maps a type to the number of jobs of that type in the given status,
  and holds no entry for a type that has none.
\<close>

theorem count_by_status_and_type:
  assumes "CountByStatusAndType env st db = Inr counts"
  shows "map_of counts t =
     (let n = length (filter (\<lambda>r. status_string (r_status r) = st \<and> r_type r = t) (jobs db))
      in if n = 0 then None else Some (int n))"
proof -
  let ?ts = "map r_type (filter (\<lambda>r. status_string (r_status r) = st) (jobs db))"
  have dist: "distinct (map fst (group_counts st db))"
    by (simp add: group_counts_def Let_def comp_def)
  have "counts = fold (\<lambda>(t, n) m. AList.update t n m) (group_counts st db) []"
    using assms by (simp add: CountByStatusAndType_def run_query_Inr)
  then have "map_of counts t = map_of (group_counts st db) t"
    by (simp add: fold_update_map_of [OF dist])
  also have "\<dots> = (if t \<in> set ?ts then Some (int (count_list ?ts t)) else None)"
    unfolding group_counts_def Let_def by (subst map_of_map_restrict) (simp add: restrict_map_def)
  finally have "map_of counts t = (if t \<in> set ?ts then Some (int (count_list ?ts t)) else None)" .
  moreover have "count_list ?ts t = length (filter (\<lambda>r. status_string (r_status r) = st \<and> r_type r = t) (jobs db))"
    by (simp add: count_list_eq_length_filter filter_map comp_def conj_commute eq_commute [of t])
  ultimately show ?thesis
    by (auto simp: Let_def count_list_0_iff filter_empty_conv)
qed

section \<open>The hypotheses at concrete databases\<close>

lemma wf_samples: "wf_db sample_db" "wf_db sample_running" "wf_db sample_revived"
  by (simp_all add: sample_db_def sample_running_def sample_revived_def wf_run_calls wf_empty_db)

lemma sample_env_NoFault [simp]: "pg_fault (sample_env now) = NoFault"
  by (simp add: sample_env_def)

lemma sample_claim:
  "\<exists>js db'. Claim (sample_env 200) ''w'' sample_lease 1 sample_db = (Inr js, db') \<and> map j_id js = [1]"
proof -
  have "map_sum id (map j_id) (fst (Claim (sample_env 200) ''w'' sample_lease 1 sample_db)) = Inr [1]"
    by code_simp
  then obtain js where "fst (Claim (sample_env 200) ''w'' sample_lease 1 sample_db) = Inr js" "map j_id js = [1]"
    by (cases "fst (Claim (sample_env 200) ''w'' sample_lease 1 sample_db)") auto
  then show ?thesis by (metis prod.collapse)
qed

theorem claim_takes_best_eligible_witness:
  "\<exists>js db'. Claim (sample_env 200) ''w'' sample_lease 1 sample_db = (Inr js, db') \<and>
     map j_id js = [1] \<and>
     int (length js) = min 1 (int (length (filter (eligible (sample_env 200)) (jobs sample_db))))"
proof -
  from sample_claim obtain js db' where C: "Claim (sample_env 200) ''w'' sample_lease 1 sample_db = (Inr js, db')"
    and js: "map j_id js = [1]"
    by (elim exE conjE)
  show ?thesis
    by (rule exI [of _ js], rule exI [of _ db'], intro conjI)
       (rule C, rule js, rule conjunct1 [OF claim_takes_best_eligible [OF wf_samples(1) C]])
qed


theorem claims_never_double_witness:
  "distinct (map j_id (concat (fst (claim_all
     [(sample_env 200, ''w'', sample_lease, 1), (sample_env 201, ''v'', sample_lease, 1)] sample_db)))) \<and>
   map j_id (concat (fst (claim_all
     [(sample_env 200, ''w'', sample_lease, 1), (sample_env 201, ''v'', sample_lease, 1)] sample_db))) = [1, 2]"
proof
  show "distinct (map j_id (concat (fst (claim_all
     [(sample_env 200, ''w'', sample_lease, 1), (sample_env 201, ''v'', sample_lease, 1)] sample_db))))"
    using claims_never_double [OF wf_samples(1)] by blast
qed code_simp

theorem complete_effect_witness:
  "fst (Complete (sample_env 300) 1 sample_running) = Inr () \<and>
   map_option r_status (lookup_job 1 (snd (Complete (sample_env 300) 1 sample_running))) = Some StatusCompleted"
proof -
  have "lookup_job 1 sample_running \<noteq> None" by code_simp
  then show ?thesis
    using complete_effect [OF wf_samples(2) sample_env_NoFault, of 300 1] by (auto simp: complete_row_def)
qed

theorem retry_effect_witness:
  "fst (Retry (sample_env 300) 1 5000000 ''boom'' sample_running) = Inr () \<and>
   map_option r_run_after (lookup_job 1 (snd (Retry (sample_env 300) 1 5000000 ''boom'' sample_running))) = Some 5000"
proof -
  have "lookup_job 1 sample_running \<noteq> None" by code_simp
  then show ?thesis
    using retry_effect [OF wf_samples(2) sample_env_NoFault, of 300 1 5000000 "''boom''"] by (auto simp: retry_row_def)
qed

theorem fail_effect_witness:
  "fst (Fail (sample_env 300) 1 ''boom'' sample_running) = Inr () \<and>
   map d_job_id (dead_letters (snd (Fail (sample_env 300) 1 ''boom'' sample_running))) = [1]"
proof -
  have "lookup_job 1 sample_running \<noteq> None" by code_simp
  then obtain r where r: "lookup_job 1 sample_running = Some r" by blast
  have letters: "dead_letters sample_running = []" by code_simp
  then have "1 \<notin> d_job_id ` set (dead_letters sample_running)" by simp
  from fail_effect [OF wf_samples(2) sample_env_NoFault r this, of 300 "''boom''"] letters
  show ?thesis by simp
qed

lemma sample_revived_letter: "1 \<in> d_job_id ` set (dead_letters sample_revived)"
proof -
  have "map d_job_id (dead_letters sample_revived) = [1]" by code_simp
  then show ?thesis by (metis list.set_intros(1) set_map)
qed

theorem fail_duplicate_rejected_witness:
  "Fail (sample_env 600) 1 ''again'' sample_revived =
     (Inl (Wrapped ''store: fail'' (pg_error (sample_env 600) ''23505'')), sample_revived)"
proof -
  have "lookup_job 1 sample_revived \<noteq> None" by code_simp
  then obtain r where "lookup_job 1 sample_revived = Some r" by blast
  from fail_duplicate_rejected [OF wf_samples(3) sample_env_NoFault this sample_revived_letter]
  show ?thesis .
qed


theorem list_dead_letters_newest_first_witness:
  "\<exists>ds. ListDeadLetters (sample_env 600) 5 sample_revived = Inr ds \<and> int (length ds) = 1 \<and> distinct (map d_id ds)"
proof -
  have "\<exists>ds. ListDeadLetters (sample_env 600) 5 sample_revived = Inr ds"
    by (simp add: ListDeadLetters_def run_query_def)
  then obtain ds where ds: "ListDeadLetters (sample_env 600) 5 sample_revived = Inr ds" ..
  have "int (length (dead_letters sample_revived)) = 1" by code_simp
  with list_dead_letters_newest_first [OF wf_samples(3) ds] ds show ?thesis
    by (intro exI [of _ ds]) simp
qed

theorem fetch_then_mark_advances_witness:
  "\<exists>es. FetchUnshippedEvents (sample_env 600) 2 sample_running = Inr es \<and> map e_id es = [1, 2] \<and>
     map e_id (filter unshipped (job_events (snd (MarkEventsShipped (sample_env 601) (map e_id es) sample_running)))) = [3]"
proof -
  have "\<exists>es. FetchUnshippedEvents (sample_env 600) 2 sample_running = Inr es"
    by (simp add: FetchUnshippedEvents_def run_query_def)
  then obtain es where es: "FetchUnshippedEvents (sample_env 600) 2 sample_running = Inr es" ..
  have ids: "map e_id (filter unshipped (job_events sample_running)) = [1, 2, 3]" by code_simp
  note adv = fetch_then_mark_advances [OF wf_samples(2) sample_env_NoFault sample_env_NoFault es, of 601]
  from adv ids have one: "map e_id es = [1, 2]" by simp
  then have "length (map e_id es) = 2" by simp
  then have "length es = 2" unfolding length_map .
  with conjunct2 [OF conjunct2 [OF adv]]
  have "map e_id (filter unshipped (job_events (snd (MarkEventsShipped (sample_env 601) (map e_id es) sample_running)))) =
      drop 2 (map e_id (filter unshipped (job_events sample_running)))" by (simp only: drop_map)
  with es one ids show ?thesis by (intro exI [of _ es]) simp
qed

theorem count_by_status_and_type_witness:
  "\<exists>counts. CountByStatusAndType (sample_env 600) ''queued'' sample_db = Inr counts \<and> map_of counts ''a'' = Some 1"
proof -
  have "\<exists>counts. CountByStatusAndType (sample_env 600) ''queued'' sample_db = Inr counts"
    by (simp add: CountByStatusAndType_def run_query_def)
  then obtain counts where counts: "CountByStatusAndType (sample_env 600) ''queued'' sample_db = Inr counts" ..
  have "length (filter (\<lambda>r. status_string (r_status r) = ''queued'' \<and> r_type r = ''a'') (jobs sample_db)) = 1"
    by code_simp
  with count_by_status_and_type [OF counts, of "''a''"] counts show ?thesis
    by (intro exI [of _ counts]) simp
qed

theorem reap_blocked_by_dead_letter_witness:
  "ReapExpiredLeases (sample_env 40000000) sample_poisoned =
     (Inl (Wrapped ''store: reap expired leases'' (pg_error (sample_env 40000000) ''23505'')), sample_poisoned)"
proof -
  have wf: "wf_db sample_poisoned" unfolding sample_poisoned_def by (rule wf_run_calls [OF wf_empty_db])
  have "map d_job_id (dead_letters sample_poisoned) = [1]" by code_simp
  then have letter: "1 \<in> d_job_id ` set (dead_letters sample_poisoned)" by (metis list.set_intros(1) set_map)
  have "list_ex (\<lambda>r. lease_expired (sample_env 40000000) r \<and> exhausted r \<and> r_id r = 1) (jobs sample_poisoned)"
    by code_simp
  then obtain r where r: "r \<in> set (jobs sample_poisoned)" "lease_expired (sample_env 40000000) r"
    "exhausted r" "r_id r = 1"
    by (auto simp: list_ex_iff)
  show ?thesis
    by (rule reap_blocked_by_dead_letter [OF wf sample_env_NoFault r(1-3)]) (simp only: r(4) letter)
qed

end
