(* ===== verification/Metrics.thy ===== *)
theory Metrics
  imports StoreSpec
begin

text \<open>
  internal/metrics: the event-driven instruments the worker records (\<open>Metrics\<close>), and the
  collector that reads queue depth, in-flight count and shipper lag from the store on every
  scrape. An observation is kept as its duration in nanoseconds; bucketing is Prometheus' own.
\<close>

section \<open>Instruments\<close>

record metrics =
  ClaimDuration :: "int list"
  JobDuration :: "(string \<times> int) list"
  Retries :: "string \<Rightarrow> nat"
  DeadLetters :: "string \<Rightarrow> nat"

definition new_metrics :: metrics where
  "new_metrics = \<lparr>ClaimDuration = [], JobDuration = [], Retries = (\<lambda>_. 0), DeadLetters = (\<lambda>_. 0)\<rparr>"

definition observe_claim :: "int \<Rightarrow> metrics \<Rightarrow> metrics" where
  "observe_claim ns m = m\<lparr>ClaimDuration := ClaimDuration m @ [ns]\<rparr>"

definition observe_job :: "string \<Rightarrow> int \<Rightarrow> metrics \<Rightarrow> metrics" where
  "observe_job t ns m = m\<lparr>JobDuration := JobDuration m @ [(t, ns)]\<rparr>"

definition inc_retries :: "string \<Rightarrow> metrics \<Rightarrow> metrics" where
  "inc_retries t m = m\<lparr>Retries := (Retries m)(t := Retries m t + 1)\<rparr>"

definition inc_dead_letters :: "string \<Rightarrow> metrics \<Rightarrow> metrics" where
  "inc_dead_letters t m = m\<lparr>DeadLetters := (DeadLetters m)(t := DeadLetters m t + 1)\<rparr>"

section \<open>The store collector\<close>

text \<open>
  A descriptor holds the full name of a metric, its help text and the names of its labels; a
  gauge sample is the descriptor, the label values and the value: a count, or a duration in
  nanoseconds that is reported in seconds. Building a sample whose label values do not match the
  labels of its descriptor panics, which is \<open>None\<close> here.
\<close>

record desc =
  fqName :: string
  help_text :: string
  variableLabels :: "string list"

datatype gauge = Float64 int | Seconds int

type_synonym sample = "desc \<times> string list \<times> gauge"

definition MustNewConstMetric :: "desc \<Rightarrow> gauge \<Rightarrow> string list \<Rightarrow> sample option" where
  "MustNewConstMetric d v labels =
     (if length labels = length (variableLabels d) then Some (d, labels, v) else None)"

record storeCollector =
  queueDepth :: desc
  inFlight :: desc
  shipperLag :: desc

definition RegisterStoreCollector :: storeCollector where
  "RegisterStoreCollector = \<lparr>
     queueDepth = \<lparr>fqName = ''jobqueue_queue_depth'',
       help_text = ''Number of jobs currently queued, by job type.'', variableLabels = [''job_type'']\<rparr>,
     inFlight = \<lparr>fqName = ''jobqueue_in_flight'',
       help_text = ''Number of jobs currently running, by job type.'', variableLabels = [''job_type'']\<rparr>,
     shipperLag = \<lparr>fqName = ''jobqueue_shipper_lag_seconds'',
       help_text = ''Age of the oldest unshipped job_events row, in seconds (0 if none).'', variableLabels = []\<rparr>\<rparr>"

definition Describe :: "storeCollector \<Rightarrow> desc list" where
  "Describe c = [queueDepth c, inFlight c, shipperLag c]"

text \<open>
  The instruments \<open>New\<close> registers: the namespace, an underscore and the name, with their labels.
\<close>

definition in_namespace :: "string \<Rightarrow> string" where
  "in_namespace name = ''jobqueue_'' @ name"

definition New_descs :: "desc list" where
  "New_descs = [
     \<lparr>fqName = in_namespace ''claim_duration_seconds'',
       help_text = ''Time taken by a single Claim call, whether or not it found a job.'', variableLabels = []\<rparr>,
     \<lparr>fqName = in_namespace ''job_duration_seconds'',
       help_text = ''Time spent executing a claimed job's handler, by job type.'', variableLabels = [''job_type'']\<rparr>,
     \<lparr>fqName = in_namespace ''retries_total'',
       help_text = ''Jobs sent back to the queue after a failed attempt, by job type.'', variableLabels = [''job_type'']\<rparr>,
     \<lparr>fqName = in_namespace ''dead_letters_total'',
       help_text = ''Jobs that reached terminal failure, by job type.'', variableLabels = [''job_type'']\<rparr>]"

text \<open>
  One scrape: the samples sent on the channel, and the messages logged for the queries that
  failed. \<open>sc_order\<close> is the order in which \<open>range\<close> happens to visit the keys of a map, and
  \<open>sc_now_ns\<close> the clock \<open>time.Since\<close> reads.
\<close>

record scrape_env =
  sc_depth :: pg_env
  sc_running :: pg_env
  sc_lag :: pg_env
  sc_order :: "string \<Rightarrow> int"
  sc_now_ns :: int

fun send_counts :: "desc \<Rightarrow> (string \<times> int) list \<Rightarrow> sample list option" where
  "send_counts d [] = Some []"
| "send_counts d ((jobType, n) # rest) =
     (case MustNewConstMetric d (Float64 n) [jobType] of
        None \<Rightarrow> None
      | Some m \<Rightarrow> map_option ((#) m) (send_counts d rest))"

definition collect_counts ::
  "(string \<Rightarrow> int) \<Rightarrow> desc \<Rightarrow> string \<Rightarrow> (string \<times> int) list result \<Rightarrow> (sample list \<times> string list) option" where
  "collect_counts order d message answer =
     (case answer of
        Inl e \<Rightarrow> Some ([], [message])
      | Inr counts \<Rightarrow> map_option (\<lambda>ms. (ms, [])) (send_counts d (sort_key (\<lambda>(t, _). order t) counts)))"

definition collect_lag :: "desc \<Rightarrow> int result \<Rightarrow> (sample list \<times> string list) option" where
  "collect_lag d answer =
     (case answer of
        Inl e \<Rightarrow> Some ([], [''metrics: shipper lag query failed''])
      | Inr lag \<Rightarrow> map_option (\<lambda>m. ([m], [])) (MustNewConstMetric d (Seconds lag) []))"

definition Collect :: "storeCollector \<Rightarrow> scrape_env \<Rightarrow> db \<Rightarrow> (sample list \<times> string list) option" where
  "Collect c se db =
     (case collect_counts (sc_order se) (queueDepth c) ''metrics: queue depth query failed''
             (CountByStatusAndType (sc_depth se) ''queued'' db) of
        None \<Rightarrow> None
      | Some (m1, l1) \<Rightarrow>
     (case collect_counts (sc_order se) (inFlight c) ''metrics: in-flight query failed''
             (CountByStatusAndType (sc_running se) ''running'' db) of
        None \<Rightarrow> None
      | Some (m2, l2) \<Rightarrow>
     (case collect_lag (shipperLag c) (ShipperLag (sc_lag se) (sc_now_ns se) db) of
        None \<Rightarrow> None
      | Some (m3, l3) \<Rightarrow> Some (m1 @ m2 @ m3, l1 @ l2 @ l3))))"

section \<open>Lemmas\<close>

lemma metrics_simps [simp]:
  "Retries (observe_job t ns m) = Retries m"
  "DeadLetters (observe_job t ns m) = DeadLetters m"
  "JobDuration (observe_job t ns m) = JobDuration m @ [(t, ns)]"
  "Retries (inc_retries t m) = (Retries m)(t := Retries m t + 1)"
  "DeadLetters (inc_retries t m) = DeadLetters m"
  "JobDuration (inc_retries t m) = JobDuration m"
  "Retries (inc_dead_letters t m) = Retries m"
  "DeadLetters (inc_dead_letters t m) = (DeadLetters m)(t := DeadLetters m t + 1)"
  "JobDuration (inc_dead_letters t m) = JobDuration m"
  by (simp_all add: observe_job_def inc_retries_def inc_dead_letters_def)


section \<open>Correctness of a scrape\<close>

lemma send_counts_one_label [simp]:
  "length (variableLabels d) = 1 \<Longrightarrow>
     send_counts d counts = Some (map (\<lambda>(t, n). (d, [t], Float64 n)) counts)"
  by (induction counts) (auto simp: MustNewConstMetric_def)

text \<open>The samples of one descriptor in a scrape, and the counts it is meant to show.\<close>

definition readings :: "desc \<Rightarrow> sample list \<Rightarrow> (string list \<times> gauge) set" where
  "readings d ms = {(ls, v). (d, ls, v) \<in> set ms}"

definition jobs_by :: "status \<Rightarrow> string \<Rightarrow> db \<Rightarrow> nat" where
  "jobs_by st t db = length (filter (\<lambda>r. r_status r = st \<and> r_type r = t) (jobs db))"

definition type_counts :: "status \<Rightarrow> db \<Rightarrow> (string list \<times> gauge) set" where
  "type_counts st db = {([t], Float64 (int (jobs_by st t db))) |t. 0 < jobs_by st t db}"

lemma status_string_inj: "status_string a = status_string b \<longleftrightarrow> a = b"
  by (cases a; cases b) simp_all

lemma distinct_fold_update:
  "distinct (map fst acc) \<Longrightarrow> distinct (map fst (fold (\<lambda>(t, n) m. AList.update t n m) rows acc))"
  by (induction rows arbitrary: acc) (auto intro: distinct_update)

lemma counts_as_set:
  assumes "CountByStatusAndType env (status_string st) db = Inr counts"
  shows "set counts = {(t, int (jobs_by st t db)) |t. 0 < jobs_by st t db}"
proof -
  have "distinct (map fst counts)"
    using assms by (auto simp: CountByStatusAndType_def run_query_Inr intro!: distinct_fold_update)
  then have "set counts = {(t, n). map_of counts t = Some n}" by (rule set_map_of_compr)
  also have "\<dots> = {(t, int (jobs_by st t db)) |t. 0 < jobs_by st t db}"
    using count_by_status_and_type [OF assms]
    by (auto simp: Let_def jobs_by_def status_string_inj split: if_splits)
  finally show ?thesis .
qed

lemma collect_counts_readings:
  assumes "length (variableLabels d) = 1"
  shows "\<exists>ms. collect_counts order d message (CountByStatusAndType env (status_string st) db) =
      Some (ms, if pg_fault env = NoFault then [] else [message]) \<and> fst ` set ms \<subseteq> {d} \<and>
    readings d ms = (if pg_fault env = NoFault then type_counts st db else {})"
proof (cases "CountByStatusAndType env (status_string st) db")
  case (Inl e)
  then have "pg_fault env \<noteq> NoFault"
    by (auto simp: CountByStatusAndType_def run_query_def)
  with Inl show ?thesis by (simp add: collect_counts_def readings_def)
next
  case (Inr counts)
  then have "pg_fault env = NoFault"
    by (auto simp: CountByStatusAndType_def run_query_def split: fault.splits)
  moreover have "readings d (map (\<lambda>(t, n). (d, [t], Float64 n)) (sort_key (\<lambda>(t, _). order t) counts)) = type_counts st db"
    using counts_as_set [OF Inr] by (auto simp: readings_def type_counts_def image_iff)
  ultimately show ?thesis using Inr assms by (auto simp: collect_counts_def)
qed

text \<open>The lag a scrape shows: zero with an empty backlog, else the age of its first event.\<close>

definition lag_of :: "int \<Rightarrow> db \<Rightarrow> int \<Rightarrow> bool" where
  "lag_of now db lag =
     (let pending = set (filter unshipped (job_events db))
      in if pending = {} then lag = 0
         else \<exists>e\<in>pending. (\<forall>e'\<in>pending. e_id e \<le> e_id e') \<and> lag = now - e_occurred_at e * Microsecond)"

lemma ShipperLag_cases:
  "\<exists>lag. ShipperLag env now db = (case pg_fault env of NoFault \<Rightarrow> Inr lag
       | FaultBefore m \<Rightarrow> Inl (Wrapped ''store: shipper lag'' (ConnErr m))
       | FaultAfter m \<Rightarrow> Inl (Wrapped ''store: shipper lag'' (ConnErr m))) \<and> lag_of now db lag"
proof (cases "sort_key e_id (filter unshipped (job_events db))")
  case Nil
  then have "set (filter unshipped (job_events db)) = {}" by (metis set_empty set_sort)
  with Nil show ?thesis
    by (intro exI [of _ 0]) (auto simp: ShipperLag_def run_query_def lag_of_def split: fault.split)
next
  case (Cons e es)
  then have "e \<in> set (filter unshipped (job_events db))" by (metis list.set_intros(1) set_sort)
  moreover have "\<forall>e'\<in>set (filter unshipped (job_events db)). e_id e \<le> e_id e'"
    using Cons by (metis list.simps(9) set_ConsD set_sort sorted_sort_key sorted_wrt.simps(2) image_eqI list.set_map order_refl)
  ultimately have "lag_of now db (now - e_occurred_at e * Microsecond)"
    unfolding lag_of_def Let_def by auto
  with Cons show ?thesis
    by (intro exI [of _ "now - e_occurred_at e * Microsecond"])
       (auto simp: ShipperLag_def run_query_def split: fault.split)
qed

lemma collect_lag_readings:
  assumes "variableLabels d = []"
  shows "\<exists>ms lag. collect_lag d (ShipperLag env now db) =
      Some (ms, if pg_fault env = NoFault then [] else [''metrics: shipper lag query failed'']) \<and>
    lag_of now db lag \<and>
    ms = (if pg_fault env = NoFault then [(d, [], Seconds lag)] else [])"
  using ShipperLag_cases [of env now db] assms
  by (cases "pg_fault env") (auto simp: collect_lag_def MustNewConstMetric_def)

lemma readings_append [simp]: "readings d (xs @ ys) = readings d xs \<union> readings d ys"
  by (auto simp: readings_def)

lemma readings_other: "fst ` set ms \<subseteq> {d'} \<Longrightarrow> d \<noteq> d' \<Longrightarrow> readings d ms = {}"
  by (force simp: readings_def)


text \<open>
  A registry refuses two collectors that announce the same name: the worker process registers
  both sets on one registry, and no name occurs twice.
\<close>

theorem metric_names_distinct:
  "distinct (map fqName (New_descs @ Describe RegisterStoreCollector))"
  by (simp add: New_descs_def Describe_def RegisterStoreCollector_def in_namespace_def)

end
