(* ===== verification/Worker.thy ===== *)
theory Worker
  imports Metrics
begin

text \<open>
  internal/worker: the backoff computation on 64-bit durations, the handling of one claimed job
  (\<open>process\<close>, with the handler's panic turned into an error by \<open>execute\<close>), and the claim loop
  \<open>Run\<close>. What the process does not decide (clocks, the random source, the database's choices,
  what other processes do to the database while the handler runs) comes in as an argument.
\<close>

section \<open>Workers and handlers\<close>

record worker =
  w_id :: string
  w_leaseDuration :: duration
  w_pollInterval :: duration
  w_maxPollInterval :: duration
  w_retryBaseDelay :: duration
  w_maxRetryDelay :: duration

definition New ::
  "string \<Rightarrow> duration \<Rightarrow> duration \<Rightarrow> duration \<Rightarrow> duration \<Rightarrow> duration \<Rightarrow> worker" where
  "New workerID leaseDuration pollInterval maxPollInterval retryBaseDelay maxRetryDelay =
     \<lparr>w_id = workerID, w_leaseDuration = leaseDuration, w_pollInterval = pollInterval,
      w_maxPollInterval = maxPollInterval, w_retryBaseDelay = retryBaseDelay, w_maxRetryDelay = maxRetryDelay\<rparr>"

text \<open>A handler returns nil, returns an error or panics; \<open>'w\<close> is the state of the world it acts on.\<close>

datatype handler_result = HNil | HErr string | HPanic string

type_synonym 'w handler = "job \<Rightarrow> 'w \<Rightarrow> handler_result \<times> 'w"

text \<open>\<open>execute\<close>: a recovered panic becomes the error \<open>panic: %v\<close>.\<close>

fun execute_err :: "handler_result \<Rightarrow> string option" where
  "execute_err HNil = None"
| "execute_err (HErr e) = Some e"
| "execute_err (HPanic v) = Some (''panic: '' @ v)"

definition execute :: "'w handler \<Rightarrow> job \<Rightarrow> 'w \<Rightarrow> string option \<times> 'w" where
  "execute h j wd = (let (res, wd') = h j wd in (execute_err res, wd'))"

section \<open>Retry delay\<close>

text \<open>\<open>rand.Int64N(n)\<close> panics unless n is positive; otherwise it returns what the source yields.\<close>

definition rand_Int64N :: "(int \<Rightarrow> int) \<Rightarrow> int \<Rightarrow> int option" where
  "rand_Int64N rnd n = (if n \<le> 0 then None else Some (rnd n))"

function retry_delay_loop :: "duration \<Rightarrow> int \<Rightarrow> int \<Rightarrow> duration \<Rightarrow> duration" where
  "retry_delay_loop maxDelay i attempts delay =
     (if i < attempts
      then (let delay' = delay * 2
            in if maxDelay <s delay' \<or> delay' \<le>s 0 then maxDelay
               else retry_delay_loop maxDelay (i + 1) attempts delay')
      else delay)"
  by pat_completeness auto
termination
  by (relation "measure (\<lambda>(maxDelay, i, attempts, delay). nat (attempts - i))") auto

declare retry_delay_loop.simps [simp del]

definition calculateRetryDelay :: "(int \<Rightarrow> int) \<Rightarrow> worker \<Rightarrow> job \<Rightarrow> duration option" where
  "calculateRetryDelay rnd w j =
     (let delay = retry_delay_loop (w_maxRetryDelay w) 1 (j_attempts j) (w_retryBaseDelay w)
      in if delay \<le>s 0 then Some 0
         else map_option word_of_int (rand_Int64N rnd (sint delay)))"

section \<open>process\<close>

text \<open>
  The state a worker touches: the database, its metrics, the spans it has ended (name and error
  status), its error log, and the world of the handlers.
\<close>

record 'w wstate =
  ws_db :: db
  ws_metrics :: metrics
  ws_spans :: "(string \<times> string option) list"
  ws_log :: "(string \<times> string) list"
  ws_world :: 'w

record proc_env =
  pe_exec_ns :: int
  pe_now_ns :: int
  pe_rand :: "int \<Rightarrow> int"
  pe_meanwhile :: "(pg_env \<times> store_call) list"
  pe_pg :: pg_env

definition record_outcome :: "string \<Rightarrow> unit result \<times> db \<Rightarrow> 'w wstate \<Rightarrow> 'w wstate" where
  "record_outcome name res s =
     (case res of
        (Inr _, db') \<Rightarrow> s\<lparr>ws_db := db', ws_spans := ws_spans s @ [(name, None), (''claim'', None)]\<rparr>
      | (Inl e, db') \<Rightarrow> s\<lparr>ws_db := db',
          ws_spans := ws_spans s @ [(name, Some (err_Error e)), (''claim'', None)],
          ws_log := ws_log s @ [(name @ '' failed'', err_Error e)]\<rparr>)"

definition process :: "worker \<Rightarrow> 'w handler \<Rightarrow> proc_env \<Rightarrow> job \<Rightarrow> 'w wstate \<Rightarrow> 'w wstate option" where
  "process w h pe j s =
     (let (err, wd) = execute h j (ws_world s);
          s1 = s\<lparr>ws_db := run_calls (pe_meanwhile pe) (ws_db s), ws_world := wd,
                 ws_metrics := observe_job (j_type j) (pe_exec_ns pe) (ws_metrics s),
                 ws_spans := ws_spans s @ [(''execute'', err)]\<rparr>
      in case err of
           None \<Rightarrow> Some (record_outcome ''complete'' (Complete (pe_pg pe) (j_id j) (ws_db s1)) s1)
         | Some e \<Rightarrow>
             if j_max_attempts j \<le> j_attempts j
             then Some (record_outcome ''fail'' (Fail (pe_pg pe) (j_id j) e (ws_db s1))
                    (s1\<lparr>ws_metrics := inc_dead_letters (j_type j) (ws_metrics s1)\<rparr>))
             else
               (case calculateRetryDelay (pe_rand pe) w j of
                  None \<Rightarrow> None
                | Some delay \<Rightarrow>
                    Some (record_outcome ''retry''
                      (Retry (pe_pg pe) (j_id j) (pe_now_ns pe + sint delay) e (ws_db s1))
                      (s1\<lparr>ws_metrics := inc_retries (j_type j) (ws_metrics s1)\<rparr>))))"

section \<open>Run\<close>

text \<open>
  One turn of the loop: whether the context is cancelled at its head, the claim's environment and
  duration, whether cancellation wins the wait, and the environment of the job it may process.
\<close>

record turn =
  t_cancelled :: bool
  t_before :: "(pg_env \<times> store_call) list"
  t_pg :: pg_env
  t_claim_ns :: int
  t_done :: bool
  t_proc :: proc_env

datatype run_result = Returned | Looping duration | Panicked

definition next_interval :: "worker \<Rightarrow> duration \<Rightarrow> duration" where
  "next_interval w interval =
     (let interval' = interval * 2
      in if w_maxPollInterval w <s interval' then w_maxPollInterval w else interval')"

text \<open>The claim of one turn: the jobs it got (none on an error, which is logged) and the new state.\<close>

definition claim_turn :: "worker \<Rightarrow> turn \<Rightarrow> 'w wstate \<Rightarrow> job list \<times> 'w wstate" where
  "claim_turn w t s =
     (let (res, db') = Claim (t_pg t) (w_id w) (w_leaseDuration w) 1 (run_calls (t_before t) (ws_db s));
          s1 = s\<lparr>ws_db := db', ws_metrics := observe_claim (t_claim_ns t) (ws_metrics s)\<rparr>
      in case res of
           Inl e \<Rightarrow> ([], s1\<lparr>ws_log := ws_log s1 @ [(''claim failed'', err_Error e)]\<rparr>)
         | Inr js \<Rightarrow> (js, s1))"

fun run_loop :: "worker \<Rightarrow> 'w handler \<Rightarrow> duration \<Rightarrow> turn list \<Rightarrow> 'w wstate \<Rightarrow> run_result \<times> 'w wstate" where
  "run_loop w h interval [] s = (Looping interval, s)"
| "run_loop w h interval (t # ts) s =
     (if t_cancelled t then (Returned, s)
      else
        (case claim_turn w t s of
           ([], s1) \<Rightarrow> if t_done t then (Returned, s1) else run_loop w h (next_interval w interval) ts s1
         | (j # _, s1) \<Rightarrow>
             (case process w h (t_proc t) j s1 of
                None \<Rightarrow> (Panicked, s1)
              | Some s2 \<Rightarrow> run_loop w h (w_pollInterval w) ts s2)))"

definition Run :: "worker \<Rightarrow> 'w handler \<Rightarrow> turn list \<Rightarrow> 'w wstate \<Rightarrow> run_result \<times> 'w wstate" where
  "Run w h = run_loop w h (w_pollInterval w)"

end
