(* ===== verification/WorkerSpec.thy ===== *)
theory WorkerSpec
  imports Worker
begin

text \<open>
  The worker's behaviour: the range of the retry delay, what a turn of the loop keeps
  (\<open>run_invariant\<close>), the doubling of the poll interval, the three outcomes of a processed job,
  and the whole life of a job whose handler never succeeds.
\<close>

section \<open>The retry delay\<close>

text \<open>The delay the loop computes, on unbounded integers.\<close>

definition retry_cap :: "int \<Rightarrow> int \<Rightarrow> int \<Rightarrow> int" where
  "retry_cap base maxDelay attempts =
     (if attempts \<le> 1 then base else min (base * 2 ^ nat (attempts - 1)) maxDelay)"

lemma sint64_bounds: "sint (d :: duration) < 2 ^ 63" "- (2 ^ 63) \<le> sint (d :: duration)"
  using sint_lt [of d] sint_ge [of d] by simp_all

lemma sint_double:
  fixes d :: duration
  assumes "0 < sint d"
  shows "sint (d * 2) = (if sint d < 2 ^ 62 then 2 * sint d else 2 * sint d - 2 ^ 64)"
proof -
  have "(word_of_int (sint d * 2) :: duration) = d * 2" by simp
  then have "sint (d * 2) = signed_take_bit 63 (sint d * 2)"
    using sint_sbintrunc' [of "sint d * 2", where 'a = 64] by simp
  also have "\<dots> = (if sint d < 2 ^ 62 then 2 * sint d else 2 * sint d - 2 ^ 64)"
  proof (cases "sint d < 2 ^ 62")
    case True
    then have "signed_take_bit 63 (sint d * 2) = sint d * 2"
      using assms by (intro signed_take_bit_int_eq_self) simp_all
    with True show ?thesis by simp
  next
    case False
    have "(sint d * 2 + 2 ^ 63) mod 2 ^ 64 = (sint d * 2 + 2 ^ 63 - 2 ^ 64) mod (2 ^ 64 :: int)"
      by (rule minus_mod_self2 [symmetric])
    also have "\<dots> = sint d * 2 + 2 ^ 63 - 2 ^ 64"
      using False sint64_bounds [of d] by (intro mod_pos_pos_trivial) simp_all
    finally have "signed_take_bit 63 (sint d * 2) = sint d * 2 - 2 ^ 64"
      by (simp add: signed_take_bit_eq_take_bit_shift take_bit_eq_mod)
    with False show ?thesis by simp
  qed
  finally show ?thesis .
qed

lemma retry_step_stops:
  fixes d m :: duration
  assumes "0 < sint d"
  shows "m <s d * 2 \<or> d * 2 \<le>s 0 \<longleftrightarrow> sint m < 2 * sint d"
  using sint_double [OF assms] sint64_bounds [of m] sint64_bounds [of d] assms
  by (auto simp: word_sless_alt word_sle_eq split: if_splits)

lemma sint_double_le:
  fixes d m :: duration
  assumes "0 < sint d" "2 * sint d \<le> sint m"
  shows "sint (d * 2) = 2 * sint d"
  using sint_double [OF assms(1)] sint64_bounds [of m] assms(2) by simp

lemma pow_step: "i < n \<Longrightarrow> (x::int) * 2 ^ nat (n - i) = 2 * x * 2 ^ nat (n - (i + 1))"
proof -
  assume "i < n"
  then have "nat (n - i) = Suc (nat (n - (i + 1)))" by simp
  then show ?thesis by simp
qed

lemma retry_loop_cap:
  assumes "0 < sint d"
  shows "sint (retry_delay_loop m i n d) =
     (if n \<le> i then sint d else min (sint d * 2 ^ nat (n - i)) (sint m))"
  using assms
proof (induction m i n d rule: retry_delay_loop.induct)
  case (1 m i n d)
  note unf = retry_delay_loop.simps [of m i n d] retry_step_stops [OF "1.prems"]
  show ?case
  proof (cases "i < n")
    case False
    then show ?thesis by (simp add: unf)
  next
    case less: True
    have grow: "2 * sint d \<le> 2 * sint d * 2 ^ nat (n - (i + 1))"
      using mult_left_mono [of 1 "2 ^ nat (n - (i + 1))" "2 * sint d"] "1.prems" by simp
    show ?thesis
    proof (cases "sint m < 2 * sint d")
      case True
      then have "min (sint d * 2 ^ nat (n - i)) (sint m) = sint m"
        unfolding pow_step [OF less] using grow by linarith
      with True less show ?thesis by (simp add: unf)
    next
      case False
      then have dbl: "sint (d * 2) = 2 * sint d" using sint_double_le [OF "1.prems", of m] by simp
      have "sint (retry_delay_loop m (i + 1) n (d * 2)) =
          (if n \<le> i + 1 then sint (d * 2) else min (sint (d * 2) * 2 ^ nat (n - (i + 1))) (sint m))"
        using "1.IH" [OF less refl] False dbl "1.prems" by (simp add: retry_step_stops)
      with False less dbl pow_step [OF less, of "sint d"] show ?thesis by (auto simp: unf)
    qed
  qed
qed


lemma calculateRetryDelay_total: "\<exists>d. calculateRetryDelay rnd w j = Some d"
  by (auto simp: calculateRetryDelay_def Let_def rand_Int64N_def word_sle_eq)

lemma retry_delay_value:
  assumes "0 < sint (w_retryBaseDelay w)"
  shows "calculateRetryDelay rnd w j =
     (let cap = retry_cap (sint (w_retryBaseDelay w)) (sint (w_maxRetryDelay w)) (j_attempts j)
      in if cap \<le> 0 then Some 0 else Some (word_of_int (rnd cap)))"
  using retry_loop_cap [OF assms, of "w_maxRetryDelay w" 1 "j_attempts j"]
  by (simp add: calculateRetryDelay_def Let_def rand_Int64N_def word_sle_eq retry_cap_def)

text \<open>\<open>rand.Int64N(n)\<close> draws from the half-open interval [0, n).\<close>

definition rand_ok :: "(int \<Rightarrow> int) \<Rightarrow> bool" where
  "rand_ok rnd \<longleftrightarrow> (\<forall>n. 0 < n \<longrightarrow> 0 \<le> rnd n \<and> rnd n < n)"

lemma retry_cap_bound: "retry_cap (sint (b::duration)) (sint (m::duration)) n < 2 ^ 63"
  using sint64_bounds [of b] sint64_bounds [of m] by (auto simp: retry_cap_def)

lemma sint_of_delay: "0 \<le> k \<Longrightarrow> k < 2 ^ 63 \<Longrightarrow> sint (word_of_int k :: duration) = k"
  by (simp add: sint_sbintrunc' signed_take_bit_int_eq_self)

lemma retry_delay_range:
  assumes "0 < sint (w_retryBaseDelay w)" "rand_ok rnd" "calculateRetryDelay rnd w j = Some d"
  shows "0 \<le> sint d" "sint d \<le> max 0 (retry_cap (sint (w_retryBaseDelay w)) (sint (w_maxRetryDelay w)) (j_attempts j))"
proof -
  let ?cap = "retry_cap (sint (w_retryBaseDelay w)) (sint (w_maxRetryDelay w)) (j_attempts j)"
  consider "?cap \<le> 0" "d = 0" | "0 < ?cap" "d = word_of_int (rnd ?cap)"
    using retry_delay_value [OF assms(1), of rnd j] assms(3) by (auto simp: Let_def split: if_splits)
  then show "0 \<le> sint d" "sint d \<le> max 0 ?cap"
    using assms(2) retry_cap_bound [of "w_retryBaseDelay w" "w_maxRetryDelay w" "j_attempts j"]
    by (cases; force simp: rand_ok_def sint_of_delay)+
qed

text \<open>
  C19. Exponential backoff with full jitter, on 64-bit durations: with a positive base and maximum
  delay the values \<open>calculateRetryDelay\<close> can return are exactly those of the half-open interval
  from 0 to the cap, where the cap is the base delay on the first attempt and afterwards the base
  delay doubled once per earlier attempt, cut at the maximum. No attempt count makes the doubling
  overflow into a wrong delay.
\<close>

theorem retry_delay_full_jitter:
  assumes "0 < sint (w_retryBaseDelay w)" "0 < sint (w_maxRetryDelay w)"
  shows "{d. \<exists>rnd. rand_ok rnd \<and> calculateRetryDelay rnd w j = Some d} =
     word_of_int ` {0..<if j_attempts j \<le> 1 then sint (w_retryBaseDelay w)
        else min (sint (w_retryBaseDelay w) * 2 ^ nat (j_attempts j - 1)) (sint (w_maxRetryDelay w))}"
proof -
  let ?cap = "retry_cap (sint (w_retryBaseDelay w)) (sint (w_maxRetryDelay w)) (j_attempts j)"
  have pos: "0 < ?cap" using assms by (simp add: retry_cap_def)
  have draws: "{rnd ?cap | rnd. rand_ok rnd} = {0..<?cap}"
  proof (intro equalityI subsetI)
    fix k assume "k \<in> {0..<?cap}"
    then have "rand_ok (\<lambda>n. if n = ?cap then k else 0)" by (simp add: rand_ok_def)
    then show "k \<in> {rnd ?cap | rnd. rand_ok rnd}"
      by (intro CollectI exI [of _ "\<lambda>n. if n = ?cap then k else 0"]) simp
  qed (use pos in \<open>auto simp: rand_ok_def\<close>)
  have "{d. \<exists>rnd. rand_ok rnd \<and> calculateRetryDelay rnd w j = Some d} =
      word_of_int ` {rnd ?cap | rnd. rand_ok rnd}"
    using pos by (auto simp: retry_delay_value [OF assms(1)] Let_def)
  then have "{d. \<exists>rnd. rand_ok rnd \<and> calculateRetryDelay rnd w j = Some d} = word_of_int ` {0..<?cap}"
    unfolding draws .
  then show ?thesis by (simp add: retry_cap_def)
qed

section \<open>Polling\<close>

lemma next_interval_sint:
  assumes "0 < sint i" "sint i \<le> sint (w_maxPollInterval w)" "sint (w_maxPollInterval w) < 2 ^ 62"
  shows "sint (next_interval w i) = min (2 * sint i) (sint (w_maxPollInterval w))"
  using sint_double [OF assms(1)] assms
  by (auto simp: next_interval_def Let_def word_sless_alt)

lemma claim_idle:
  assumes "filter (eligible env) (jobs db) = []"
  shows "(case fst (Claim env w lease 1 db) of Inl _ \<Rightarrow> [] | Inr js \<Rightarrow> js) = [] \<and> snd (Claim env w lease 1 db) = db"
proof -
  have sel: "claim_select env 1 db = []" by (simp add: claim_select_eq assms)
  have "update_jobs (\<lambda>r. False) f db = db" for f by (simp add: update_jobs_def sql_update_none)
  then have "claim_stmt env w l 1 db = Inl (pg_error env ''22007'') \<or> claim_stmt env w l 1 db = Inr ([], db)" for l :: string
    by (auto simp: claim_stmt_def sel returning_def sql_returning_def log_rows_def insert_events_def split: option.splits)
  from this [of "duration_String (sint lease)"] show ?thesis
    unfolding Claim_def run_stmt_def by (rule disjE)
       (auto split: fault.splits)
qed

section \<open>Process\<close>

lemma record_outcome_simps [simp]:
  "ws_db (record_outcome name res s) = snd res"
  "ws_metrics (record_outcome name res s) = ws_metrics s"
  "ws_world (record_outcome name res s) = ws_world s"
  by (auto simp: record_outcome_def split: prod.splits sum.splits)

lemma process_total: "\<exists>s'. process w h pe j s = Some s'"
  using calculateRetryDelay_total [of "pe_rand pe" w j]
  by (auto simp: process_def Let_def split: prod.splits option.splits)

lemma wf_store_calls:
  assumes "wf_db db"
  shows "wf_db (snd (Complete env i db))" "wf_db (snd (Retry env i at e db))"
    "wf_db (snd (Fail env i e db))" "wf_db (snd (ReapExpiredLeases env db))"
    "wf_db (snd (Enqueue env t p c db))"
  using wf_exec_call [OF assms, of env "CallComplete i"] wf_exec_call [OF assms, of env "CallRetry i at e"]
    wf_exec_call [OF assms, of env "CallFail i e"] wf_exec_call [OF assms, of env CallReap]
    wf_exec_call [OF assms, of env "CallEnqueue t p c"]
  by simp_all

lemma wf_process:
  assumes "wf_db (ws_db s)" "process w h pe j s = Some s'"
  shows "wf_db (ws_db s')"
  using assms(2) wf_run_calls [OF assms(1), of "pe_meanwhile pe"]
  by (auto simp: process_def Let_def wf_store_calls split: prod.splits option.splits if_splits)


text \<open>
  What the two steps of the loop (the claim of a turn, the processing of a job) keep, the loop
  keeps, and it ends when its context is cancelled.
\<close>

locale run_invariant =
  fixes w :: worker and h :: "'w handler" and P :: "'w wstate \<Rightarrow> bool"
  assumes claim_keeps: "P s \<Longrightarrow> P (snd (claim_turn w t s))"
    and process_keeps: "P s \<Longrightarrow> process w h pe j s = Some s' \<Longrightarrow> P s'"
begin

lemma loop_keeps: "P s \<Longrightarrow> P (snd (run_loop w h i ts s))"
proof (induction ts arbitrary: i s)
  case (Cons t ts)
  obtain js s1 where C: "claim_turn w t s = (js, s1)" by (cases "claim_turn w t s")
  with claim_keeps [OF Cons.prems, of t] have P: "P s1" by simp
  show ?case
  proof (cases js)
    case Nil
    with C P Cons.IH [OF P] Cons.prems show ?thesis by simp
  next
    case (Cons j js')
    obtain s2 where "process w h (t_proc t) j s1 = Some s2" using process_total by blast
    with process_keeps [OF P this] Cons.IH C Cons \<open>P s\<close> show ?thesis by simp
  qed
qed simp

lemma Run_keeps: "P s \<Longrightarrow> P (snd (Run w h ts s))"
  by (simp add: Run_def loop_keeps)

end

lemma claim_turn_db: "ws_db (snd (claim_turn w t s)) =
    snd (Claim (t_pg t) (w_id w) (w_leaseDuration w) 1 (run_calls (t_before t) (ws_db s)))"
  by (simp add: claim_turn_def Let_def split: prod.splits sum.splits)

lemma claim_turn_idle:
  assumes "t_before t = []" "filter (eligible (t_pg t)) (jobs (ws_db s)) = []"
  shows "fst (claim_turn w t s) = []" "ws_db (snd (claim_turn w t s)) = ws_db s"
  using claim_idle [OF assms(2), of "w_id w" "w_leaseDuration w"] assms(1)
  by (auto simp: claim_turn_def Let_def split: prod.splits sum.splits)

interpretation wf_run: run_invariant w h "\<lambda>s. wf_db (ws_db s)" for w h
  by unfold_locales (simp_all add: claim_turn_db wf_claim wf_run_calls wf_process)

lemma run_loop_result:
  "fst (run_loop w h i ts s) \<noteq> Panicked \<and>
     (list_ex t_cancelled ts \<longrightarrow> fst (run_loop w h i ts s) = Returned)"
proof (induction ts arbitrary: i s)
  case (Cons t ts)
  obtain js s1 where C: "claim_turn w t s = (js, s1)" by (cases "claim_turn w t s")
  show ?case
  proof (cases js)
    case Nil
    with C Cons.IH show ?thesis by simp
  next
    case (Cons j js')
    obtain s2 where "process w h (t_proc t) j s1 = Some s2" using process_total by blast
    with Cons.IH C Cons show ?thesis by simp
  qed
qed simp

text \<open>
  C32. Whatever the handler does (errors and panics included), whatever the database answers and
  whatever other processes write meanwhile, \<open>Run\<close> never panics and keeps the database
  well-formed, and it returns once a turn finds its context cancelled.
\<close>

theorem worker_run_safe:
  assumes "wf_db (ws_db s)"
  shows "fst (Run w h ts s) \<noteq> Panicked \<and> wf_db (ws_db (snd (Run w h ts s))) \<and>
     (list_ex t_cancelled ts \<longrightarrow> fst (Run w h ts s) = Returned)"
  using wf_run.Run_keeps [OF assms, of w h ts] run_loop_result [of w h "w_pollInterval w" ts s]
  by (simp add: Run_def)

lemma min_double:
  fixes x m :: int
  assumes "0 < x" "x \<le> m"
  shows "min (min (2 * x) m * 2 ^ k) m = min (x * (2 * 2 ^ k)) m"
proof (cases "2 * x \<le> m")
  case True
  then show ?thesis by (simp add: ac_simps)
next
  case False
  have grow: "y \<le> y * 2 ^ k" if "0 < y" for y :: int
    using mult_left_mono [of 1 "2 ^ k" y] that by simp
  have "x * (2 * 2 ^ k) = 2 * x * 2 ^ k" by simp
  with grow [of "2 * x"] False assms have "m \<le> x * (2 * 2 ^ k)" by linarith
  moreover have "m \<le> min (2 * x) m * 2 ^ k" using grow [of m] False assms by simp
  ultimately show ?thesis by simp
qed

lemma idle_loop:
  assumes "0 < sint i" "sint i \<le> sint (w_maxPollInterval w)" "sint (w_maxPollInterval w) < 2 ^ 62"
    and "\<forall>t \<in> set ts. \<not> t_cancelled t \<and> \<not> t_done t \<and> t_before t = [] \<and>
       filter (eligible (t_pg t)) (jobs (ws_db s)) = []"
  shows "\<exists>i' s'. run_loop w h i ts s = (Looping i', s') \<and> ws_db s' = ws_db s \<and>
     sint i' = min (sint i * 2 ^ length ts) (sint (w_maxPollInterval w))"
  using assms
proof (induction ts arbitrary: i s)
  case (Cons t ts)
  obtain js s1 where C: "claim_turn w t s = (js, s1)" by (cases "claim_turn w t s")
  have idle: "js = []" "ws_db s1 = ws_db s"
    using claim_turn_idle [of t s w] C Cons.prems(4) by simp_all
  let ?n = "next_interval w i" and ?m = "sint (w_maxPollInterval w)"
  have n: "sint ?n = min (2 * sint i) ?m" using Cons.prems(1-3) by (rule next_interval_sint)
  with Cons.prems have "0 < sint ?n" "sint ?n \<le> ?m" by simp_all
  moreover have "\<forall>t \<in> set ts. \<not> t_cancelled t \<and> \<not> t_done t \<and> t_before t = [] \<and>
       filter (eligible (t_pg t)) (jobs (ws_db s1)) = []"
    using Cons.prems(4) idle(2) by simp
  ultimately obtain i' s' where IH: "run_loop w h ?n ts s1 = (Looping i', s')" "ws_db s' = ws_db s1"
    "sint i' = min (sint ?n * 2 ^ length ts) ?m"
    using Cons.IH [of ?n s1] Cons.prems(3) by blast
  have "sint i' = min (sint i * 2 ^ length (t # ts)) ?m"
    unfolding IH(3) n using Cons.prems(1,2) by (simp add: min_double)
  with IH C idle Cons.prems(4) show ?case by simp
qed simp

text \<open>
  While nothing is eligible the loop changes nothing in the database and its wait doubles from
  the poll interval up to the maximum: after n idle turns it is the minimum of the two.
\<close>

theorem idle_polling_backs_off:
  assumes "0 < sint (w_pollInterval w)" "sint (w_pollInterval w) \<le> sint (w_maxPollInterval w)"
    "sint (w_maxPollInterval w) < 2 ^ 62"
    and "\<forall>t \<in> set ts. \<not> t_cancelled t \<and> \<not> t_done t \<and> t_before t = [] \<and>
       filter (eligible (t_pg t)) (jobs (ws_db s)) = []"
  shows "\<exists>i s'. Run w h ts s = (Looping i, s') \<and> ws_db s' = ws_db s \<and>
     sint i = min (sint (w_pollInterval w) * 2 ^ length ts) (sint (w_maxPollInterval w))"
  unfolding Run_def using assms by (rule idle_loop)


section \<open>Outcomes\<close>

text \<open>The database when the outcome is recorded: after what others did while the handler ran.\<close>

abbreviation report_db :: "proc_env \<Rightarrow> 'w wstate \<Rightarrow> db" where
  "report_db pe s \<equiv> run_calls (pe_meanwhile pe) (ws_db s)"

lemma process_success:
  assumes "execute h j (ws_world s) = (None, wd)" "process w h pe j s = Some s'"
  shows "ws_db s' = snd (Complete (pe_pg pe) (j_id j) (report_db pe s))"
    "ws_metrics s' = observe_job (j_type j) (pe_exec_ns pe) (ws_metrics s)" "ws_world s' = wd"
  using assms by (auto simp: process_def)

lemma process_exhausted:
  assumes "execute h j (ws_world s) = (Some e, wd)" "process w h pe j s = Some s'"
    "j_max_attempts j \<le> j_attempts j"
  shows "ws_db s' = snd (Fail (pe_pg pe) (j_id j) e (report_db pe s))"
    "ws_metrics s' = inc_dead_letters (j_type j) (observe_job (j_type j) (pe_exec_ns pe) (ws_metrics s))"
    "ws_world s' = wd"
  using assms by (auto simp: process_def)

lemma process_retry:
  assumes "execute h j (ws_world s) = (Some e, wd)" "process w h pe j s = Some s'"
    "j_attempts j < j_max_attempts j"
  obtains d where "calculateRetryDelay (pe_rand pe) w j = Some d"
    "ws_db s' = snd (Retry (pe_pg pe) (j_id j) (pe_now_ns pe + sint d) e (report_db pe s))"
    "ws_metrics s' = inc_retries (j_type j) (observe_job (j_type j) (pe_exec_ns pe) (ws_metrics s))"
    "ws_world s' = wd"
  using assms by (auto simp: process_def Let_def split: option.splits)

lemma lookup_after_complete:
  assumes "wf_db db" "pg_fault env = NoFault"
  shows "lookup_job i (snd (Complete env i db)) = map_option (complete_row env) (lookup_job i db)"
  using assms(2)
  by (auto simp: Complete_def run_stmt_def complete_stmt_def Let_def lookup_update_id complete_upd.key_upd)

lemma retry_after:
  assumes "pg_fault env = NoFault"
  shows "lookup_job i (snd (Retry env i at e db)) = map_option (retry_row (at div 1000) e) (lookup_job i db)"
    "dead_letters (snd (Retry env i at e db)) = dead_letters db"
    "jobs (snd (Retry env i at e db)) = sql_update (\<lambda>r. r_id r = i) (retry_row (at div 1000) e) (jobs db)"
  using assms
  by (auto simp: Retry_def run_stmt_def retry_stmt_def Let_def lookup_update_id retry_upd.key_upd
      to_timestamptz_def Microsecond_def)

lemma fail_after:
  assumes "wf_db db" "pg_fault env = NoFault" "lookup_job i db = Some r" "i \<notin> d_job_id ` set (dead_letters db)"
  shows "lookup_job i (snd (Fail env i e db)) = Some (fail_row env e r)"
    "map d_job_id (dead_letters (snd (Fail env i e db))) = map d_job_id (dead_letters db) @ [i]"
    "jobs (snd (Fail env i e db)) = sql_update (\<lambda>r. r_id r = i) (fail_row env e) (jobs db)"
  using assms lookup_job_id [OF assms(3)]
  by (simp_all add: Fail_def run_stmt_def fail_stmt_eq lookup_update_id fail_upd.key_upd)

text \<open>
  A handler that returns nil: the job's row becomes completed, its duration is observed under
  its type, and neither the retry nor the dead-letter counter moves.
\<close>

theorem process_success_completes:
  assumes "wf_db (ws_db s)" "pg_fault (pe_pg pe) = NoFault"
    and "h j (ws_world s) = (HNil, wd)"
    and "lookup_job (j_id j) (report_db pe s) = Some r"
  shows "\<exists>s'. process w h pe j s = Some s' \<and> ws_world s' = wd \<and>
     lookup_job (j_id j) (ws_db s') = Some (complete_row (pe_pg pe) r) \<and>
     Retries (ws_metrics s') = Retries (ws_metrics s) \<and> DeadLetters (ws_metrics s') = DeadLetters (ws_metrics s) \<and>
     JobDuration (ws_metrics s') = JobDuration (ws_metrics s) @ [(j_type j, pe_exec_ns pe)]"
proof -
  obtain s' where P: "process w h pe j s = Some s'" using process_total by blast
  have "execute h j (ws_world s) = (None, wd)" by (simp add: execute_def assms(3))
  note out = process_success [OF this P]
  have "wf_db (report_db pe s)" using assms(1) by (rule wf_run_calls)
  from lookup_after_complete [OF this assms(2)] assms(4) out P show ?thesis by simp
qed

text \<open>
  A handler that returns an error or panics on a job with attempts left: the row goes back to
  the queue with the error's text (prefixed for a panic), due between now and now plus the capped
  backoff, the retry counter of its type goes up by one and no dead letter is written.
\<close>

theorem process_failure_retries:
  assumes "pg_fault (pe_pg pe) = NoFault"
    and "h j (ws_world s) = (res, wd)" "execute_err res = Some e"
    and "j_attempts j < j_max_attempts j" "0 < sint (w_retryBaseDelay w)" "rand_ok (pe_rand pe)"
    and "lookup_job (j_id j) (report_db pe s) = Some r"
  shows "\<exists>s' at. process w h pe j s = Some s' \<and> ws_world s' = wd \<and>
     lookup_job (j_id j) (ws_db s') = Some (retry_row at e r) \<and>
     pe_now_ns pe div 1000 \<le> at \<and>
     at \<le> (pe_now_ns pe + max 0 (retry_cap (sint (w_retryBaseDelay w)) (sint (w_maxRetryDelay w)) (j_attempts j))) div 1000 \<and>
     Retries (ws_metrics s') (j_type j) = Retries (ws_metrics s) (j_type j) + 1 \<and>
     DeadLetters (ws_metrics s') = DeadLetters (ws_metrics s) \<and>
     dead_letters (ws_db s') = dead_letters (report_db pe s)"
proof -
  obtain s' where P: "process w h pe j s = Some s'" using process_total by blast
  have "execute h j (ws_world s) = (Some e, wd)" by (simp add: execute_def assms(2,3))
  then obtain d where d: "calculateRetryDelay (pe_rand pe) w j = Some d"
    and out: "ws_db s' = snd (Retry (pe_pg pe) (j_id j) (pe_now_ns pe + sint d) e (report_db pe s))"
      "ws_metrics s' = inc_retries (j_type j) (observe_job (j_type j) (pe_exec_ns pe) (ws_metrics s))" "ws_world s' = wd"
    using P assms(4) by (rule process_retry)
  note rng = retry_delay_range [OF assms(5,6) d]
  then have "pe_now_ns pe div 1000 \<le> (pe_now_ns pe + sint d) div 1000"
    "(pe_now_ns pe + sint d) div 1000 \<le> (pe_now_ns pe + max 0 (retry_cap (sint (w_retryBaseDelay w))
       (sint (w_maxRetryDelay w)) (j_attempts j))) div 1000"
    by (intro zdiv_mono1; simp)+
  with P out assms(7) show ?thesis by (auto simp: retry_after [OF assms(1)])
qed

text \<open>
  A handler that returns an error or panics on the last attempt: the row becomes failed with the
  error's text, one dead letter is written and the dead-letter counter of the type goes up by one.
\<close>

theorem process_exhausted_dead_letters:
  assumes "wf_db (ws_db s)" "pg_fault (pe_pg pe) = NoFault"
    and "h j (ws_world s) = (res, wd)" "execute_err res = Some e"
    and "j_max_attempts j \<le> j_attempts j"
    and "lookup_job (j_id j) (report_db pe s) = Some r"
    and "j_id j \<notin> d_job_id ` set (dead_letters (report_db pe s))"
  shows "\<exists>s'. process w h pe j s = Some s' \<and> ws_world s' = wd \<and>
     lookup_job (j_id j) (ws_db s') = Some (fail_row (pe_pg pe) e r) \<and>
     map d_job_id (dead_letters (ws_db s')) = map d_job_id (dead_letters (report_db pe s)) @ [j_id j] \<and>
     Retries (ws_metrics s') = Retries (ws_metrics s) \<and>
     DeadLetters (ws_metrics s') (j_type j) = DeadLetters (ws_metrics s) (j_type j) + 1"
proof -
  obtain s' where P: "process w h pe j s = Some s'" using process_total by blast
  have "execute h j (ws_world s) = (Some e, wd)" by (simp add: execute_def assms(3,4))
  note out = process_exhausted [OF this P assms(5)]
  have "wf_db (report_db pe s)" using assms(1) by (rule wf_run_calls)
  from fail_after [OF this assms(2,6,7)] out P show ?thesis by simp
qed


section \<open>A job that always fails\<close>

definition undisturbed :: "worker \<Rightarrow> turn \<Rightarrow> bool" where
  "undisturbed w t \<longleftrightarrow> \<not> t_cancelled t \<and> t_before t = [] \<and> pg_fault (t_pg t) = NoFault \<and>
     pg_locked (t_pg t) = [] \<and> pg_interval (t_pg t) (duration_String (sint (w_leaseDuration w))) \<noteq> None \<and>
     pe_meanwhile (t_proc t) = [] \<and> pg_fault (pe_pg (t_proc t)) = NoFault \<and> rand_ok (pe_rand (t_proc t))"

text \<open>The next claim comes when the longest possible retry delay is over.\<close>

definition waits_out :: "worker \<Rightarrow> turn \<Rightarrow> turn \<Rightarrow> bool" where
  "waits_out w t t' \<longleftrightarrow>
     (pe_now_ns (t_proc t) + max (sint (w_retryBaseDelay w)) (sint (w_maxRetryDelay w))) div 1000 \<le> pg_now (t_pg t')"

lemma claim_single:
  assumes "jobs db = [r]" "claimable env r" "pg_locked env = []" "pg_fault env = NoFault"
    "pg_interval env (duration_String (sint lease)) = Some iv" "r_attempts r < int4_max"
  shows "\<exists>db'. Claim env w lease 1 db = (Inr [to_job (claim_row env w iv r)], db') \<and>
     jobs db' = [claim_row env w iv r] \<and> dead_letters db' = dead_letters db"
proof -
  have sel: "claim_select env 1 db = [r]" using assms by (simp add: claim_select_def)
  show ?thesis using assms
    by (simp add: Claim_def run_stmt_def claim_stmt_def sel returning_def sql_returning_def Let_def)
       (simp add: claim_row_def)
qed

lemma claim_turn_single:
  assumes "undisturbed w t" "jobs (ws_db s) = [r]" "claimable (t_pg t) r" "r_attempts r < int4_max"
  obtains s1 iv where "claim_turn w t s = ([to_job (claim_row (t_pg t) (w_id w) iv r)], s1)"
    "jobs (ws_db s1) = [claim_row (t_pg t) (w_id w) iv r]" "dead_letters (ws_db s1) = dead_letters (ws_db s)"
    "Retries (ws_metrics s1) = Retries (ws_metrics s)" "DeadLetters (ws_metrics s1) = DeadLetters (ws_metrics s)"
proof -
  from assms(1) obtain iv where iv: "pg_interval (t_pg t) (duration_String (sint (w_leaseDuration w))) = Some iv"
    by (auto simp: undisturbed_def)
  from claim_single [OF assms(2,3) _ _ iv assms(4), of "w_id w"] assms(1)
  obtain db' where C: "Claim (t_pg t) (w_id w) (w_leaseDuration w) 1 (ws_db s) =
      (Inr [to_job (claim_row (t_pg t) (w_id w) iv r)], db')"
    "jobs db' = [claim_row (t_pg t) (w_id w) iv r]" "dead_letters db' = dead_letters (ws_db s)"
    by (auto simp: undisturbed_def)
  show ?thesis
    by (rule that [of iv "snd (claim_turn w t s)"]) (use C assms(1) in \<open>simp_all add: claim_turn_def undisturbed_def observe_claim_def\<close>)
qed

lemma retry_cap_le: "retry_cap b m n \<le> max b m"
  by (auto simp: retry_cap_def)

text \<open>One turn on the only job, with a handler that fails: the job is claimed and reported.\<close>

lemma failing_turn:
  assumes "undisturbed w t" "wf_db (ws_db s)" "jobs (ws_db s) = [r]" "claimable (t_pg t) r"
    "r_attempts r < r_max_attempts r" "r_max_attempts r \<le> int4_max" "\<forall>j wd. j_type j = r_type r \<longrightarrow> execute_err (fst (h j wd)) \<noteq> None"
  obtains s1 iv s2 e wd where
    "claim_turn w t s = ([to_job (claim_row (t_pg t) (w_id w) iv r)], s1)"
    "process w h (t_proc t) (to_job (claim_row (t_pg t) (w_id w) iv r)) s1 = Some s2"
    "execute h (to_job (claim_row (t_pg t) (w_id w) iv r)) (ws_world s1) = (Some e, wd)"
    "jobs (ws_db s1) = [claim_row (t_pg t) (w_id w) iv r]" "dead_letters (ws_db s1) = dead_letters (ws_db s)"
    "Retries (ws_metrics s1) = Retries (ws_metrics s)" "DeadLetters (ws_metrics s1) = DeadLetters (ws_metrics s)"
    "wf_db (ws_db s1)" "wf_db (ws_db s2)" "report_db (t_proc t) s1 = ws_db s1"
proof -
  have "r_attempts r < int4_max" using assms(5,6) by simp
  then obtain s1 iv where C: "claim_turn w t s = ([to_job (claim_row (t_pg t) (w_id w) iv r)], s1)"
    and s1: "jobs (ws_db s1) = [claim_row (t_pg t) (w_id w) iv r]" "dead_letters (ws_db s1) = dead_letters (ws_db s)"
      "Retries (ws_metrics s1) = Retries (ws_metrics s)" "DeadLetters (ws_metrics s1) = DeadLetters (ws_metrics s)"
    using claim_turn_single [OF assms(1,3,4)] by metis
  let ?j = "to_job (claim_row (t_pg t) (w_id w) iv r)"
  obtain s2 where P: "process w h (t_proc t) ?j s1 = Some s2" using process_total by blast
  obtain res wd where H: "h ?j (ws_world s1) = (res, wd)" by (cases "h ?j (ws_world s1)")
  moreover have "j_type ?j = r_type r" by (simp add: to_job_def claim_row_def)
  ultimately obtain e where "execute_err res = Some e"
    using assms(7) by (metis fst_conv option.exhaust)
  with H have E: "execute h ?j (ws_world s1) = (Some e, wd)" by (simp add: execute_def)
  have wf1: "wf_db (ws_db s1)" using wf_run.claim_keeps [OF assms(2), of w t] C by simp
  have "report_db (t_proc t) s1 = ws_db s1" using assms(1) by (simp add: undisturbed_def)
  with that [OF C P E s1 wf1 wf_process [OF wf1 P]] show ?thesis .
qed

lemma failing_turn_last:
  assumes "undisturbed w t" "wf_db (ws_db s)" "jobs (ws_db s) = [r]" "claimable (t_pg t) r"
    "r_attempts r + 1 = r_max_attempts r" "r_max_attempts r \<le> int4_max" "\<forall>j wd. j_type j = r_type r \<longrightarrow> execute_err (fst (h j wd)) \<noteq> None"
    "r_id r \<notin> d_job_id ` set (dead_letters (ws_db s))"
  obtains j s1 s2 r' where "claim_turn w t s = ([j], s1)" "process w h (t_proc t) j s1 = Some s2"
    "jobs (ws_db s2) = [r']" "r_id r' = r_id r" "r_status r' = StatusFailed" "r_attempts r' = r_max_attempts r"
    "map d_job_id (dead_letters (ws_db s2)) = map d_job_id (dead_letters (ws_db s)) @ [r_id r]"
    "Retries (ws_metrics s2) (r_type r) = Retries (ws_metrics s) (r_type r)"
    "DeadLetters (ws_metrics s2) (r_type r) = DeadLetters (ws_metrics s) (r_type r) + 1"
proof -
  have "r_attempts r < r_max_attempts r" using assms(5) by simp
  then obtain s1 iv s2 e wd where
    C: "claim_turn w t s = ([to_job (claim_row (t_pg t) (w_id w) iv r)], s1)"
    and P: "process w h (t_proc t) (to_job (claim_row (t_pg t) (w_id w) iv r)) s1 = Some s2"
    and E: "execute h (to_job (claim_row (t_pg t) (w_id w) iv r)) (ws_world s1) = (Some e, wd)"
    and s1: "jobs (ws_db s1) = [claim_row (t_pg t) (w_id w) iv r]" "dead_letters (ws_db s1) = dead_letters (ws_db s)"
      "Retries (ws_metrics s1) = Retries (ws_metrics s)" "DeadLetters (ws_metrics s1) = DeadLetters (ws_metrics s)"
    and wf: "wf_db (ws_db s1)" "wf_db (ws_db s2)" and report: "report_db (t_proc t) s1 = ws_db s1"
    by (rule failing_turn [OF assms(1-4) _ assms(6,7)])
  let ?r = "claim_row (t_pg t) (w_id w) iv r"
  have j: "j_id (to_job ?r) = r_id r" "j_type (to_job ?r) = r_type r" by (simp_all add: to_job_def claim_row_def)
  have "j_max_attempts (to_job ?r) \<le> j_attempts (to_job ?r)"
    using assms(5) by (simp add: to_job_def claim_row_def)
  note out = process_exhausted [OF E P this, unfolded report j]
  have look: "lookup_job (r_id r) (ws_db s1) = Some ?r" by (simp add: lookup_job_def s1)
  have nf: "pg_fault (pe_pg (t_proc t)) = NoFault" using assms(1) by (simp add: undisturbed_def)
  have "r_id r \<notin> d_job_id ` set (dead_letters (ws_db s1))" using assms(8) by (simp add: s1)
  note f = fail_after [OF wf(1) nf look this, of e]
  show ?thesis
    by (rule that [OF C P, of "fail_row (pe_pg (t_proc t)) e ?r"])
       (use assms(5) in \<open>simp_all add: out f s1 fail_row_def\<close>, simp_all add: claim_row_def)
qed

lemma failing_turn_retry:
  assumes "undisturbed w t" "wf_db (ws_db s)" "jobs (ws_db s) = [r]" "claimable (t_pg t) r"
    "r_attempts r + 1 < r_max_attempts r" "r_max_attempts r \<le> int4_max" "\<forall>j wd. j_type j = r_type r \<longrightarrow> execute_err (fst (h j wd)) \<noteq> None"
    "0 < sint (w_retryBaseDelay w)" "waits_out w t t'"
  obtains j s1 s2 q where "claim_turn w t s = ([j], s1)" "process w h (t_proc t) j s1 = Some s2"
    "wf_db (ws_db s2)" "jobs (ws_db s2) = [q]" "r_id q = r_id r" "r_type q = r_type r" "r_status q = StatusQueued"
    "r_attempts q = r_attempts r + 1" "r_max_attempts q = r_max_attempts r"
    "r_run_after q \<le> pg_now (t_pg t')" "dead_letters (ws_db s2) = dead_letters (ws_db s)"
    "Retries (ws_metrics s2) (r_type r) = Retries (ws_metrics s) (r_type r) + 1"
    "DeadLetters (ws_metrics s2) = DeadLetters (ws_metrics s)"
proof -
  have "r_attempts r < r_max_attempts r" using assms(5) by simp
  then obtain s1 iv s2 e wd where
    C: "claim_turn w t s = ([to_job (claim_row (t_pg t) (w_id w) iv r)], s1)"
    and P: "process w h (t_proc t) (to_job (claim_row (t_pg t) (w_id w) iv r)) s1 = Some s2"
    and E: "execute h (to_job (claim_row (t_pg t) (w_id w) iv r)) (ws_world s1) = (Some e, wd)"
    and s1: "jobs (ws_db s1) = [claim_row (t_pg t) (w_id w) iv r]" "dead_letters (ws_db s1) = dead_letters (ws_db s)"
      "Retries (ws_metrics s1) = Retries (ws_metrics s)" "DeadLetters (ws_metrics s1) = DeadLetters (ws_metrics s)"
    and wf: "wf_db (ws_db s1)" "wf_db (ws_db s2)" and report: "report_db (t_proc t) s1 = ws_db s1"
    by (rule failing_turn [OF assms(1-4) _ assms(6,7)])
  let ?r = "claim_row (t_pg t) (w_id w) iv r"
  have j: "j_id (to_job ?r) = r_id r" "j_type (to_job ?r) = r_type r" by (simp_all add: to_job_def claim_row_def)
  have "j_attempts (to_job ?r) < j_max_attempts (to_job ?r)"
    using assms(5) by (simp add: to_job_def claim_row_def)
  with E P obtain d where d: "calculateRetryDelay (pe_rand (t_proc t)) w (to_job ?r) = Some d"
    and out: "ws_db s2 = snd (Retry (pe_pg (t_proc t)) (r_id r) (pe_now_ns (t_proc t) + sint d) e (ws_db s1))"
      "ws_metrics s2 = inc_retries (r_type r) (observe_job (r_type r) (pe_exec_ns (t_proc t)) (ws_metrics s1))"
    by (rule process_retry [where pe = "t_proc t" and s = s1, unfolded report]) (simp_all add: j)
  have nf: "pg_fault (pe_pg (t_proc t)) = NoFault" and rnd: "rand_ok (pe_rand (t_proc t))"
    using assms(1) by (simp_all add: undisturbed_def)
  have "sint d \<le> max (sint (w_retryBaseDelay w)) (sint (w_maxRetryDelay w))"
    using retry_delay_range(2) [OF assms(8) rnd d] assms(8)
      retry_cap_le [of "sint (w_retryBaseDelay w)" "sint (w_maxRetryDelay w)" "j_attempts (to_job ?r)"] by linarith
  then have "(pe_now_ns (t_proc t) + sint d) div 1000 \<le>
      (pe_now_ns (t_proc t) + max (sint (w_retryBaseDelay w)) (sint (w_maxRetryDelay w))) div 1000"
    by (intro zdiv_mono1) simp_all
  with assms(9) have due: "(pe_now_ns (t_proc t) + sint d) div 1000 \<le> pg_now (t_pg t')"
    by (simp add: waits_out_def)
  show ?thesis
    by (rule that [OF C P wf(2), of "retry_row ((pe_now_ns (t_proc t) + sint d) div 1000) e ?r"])
       (use due in \<open>simp_all add: out(1) retry_after [OF nf] s1 retry_row_def\<close>, simp_all add: out(2) s1 claim_row_def)
qed

lemma failing_loop:
  assumes "wf_db (ws_db s)" "jobs (ws_db s) = [r]" "r_status r = StatusQueued"
    and "r_attempts r + int (length ts) = r_max_attempts r" "r_max_attempts r \<le> int4_max"
    and "r_id r \<notin> d_job_id ` set (dead_letters (ws_db s))"
    and "ts \<noteq> []" "r_run_after r \<le> pg_now (t_pg (hd ts))"
    and "\<forall>t \<in> set ts. undisturbed w t" "sorted_wrt (waits_out w) ts"
    and "0 < sint (w_retryBaseDelay w)" "\<forall>j wd. j_type j = r_type r \<longrightarrow> execute_err (fst (h j wd)) \<noteq> None"
  shows "\<exists>i s' r'. run_loop w h i0 ts s = (Looping i, s') \<and> jobs (ws_db s') = [r'] \<and>
     r_id r' = r_id r \<and> r_status r' = StatusFailed \<and> r_attempts r' = r_max_attempts r \<and>
     map d_job_id (dead_letters (ws_db s')) = map d_job_id (dead_letters (ws_db s)) @ [r_id r] \<and>
     Retries (ws_metrics s') (r_type r) = Retries (ws_metrics s) (r_type r) + (length ts - 1) \<and>
     DeadLetters (ws_metrics s') (r_type r) = DeadLetters (ws_metrics s) (r_type r) + 1"
  using assms(1-10,12)
proof (induction ts arbitrary: i0 s r)
  case (Cons t ts)
  have und: "undisturbed w t" and run: "\<not> t_cancelled t" using Cons.prems(9) by (simp_all add: undisturbed_def)
  have cl: "claimable (t_pg t) r" using Cons.prems(3,8) by (simp add: claimable_def)
  show ?case
  proof (cases ts)
    case Nil
    then have "r_attempts r + 1 = r_max_attempts r" using Cons.prems(4) by simp
    then obtain j s1 s2 r' where "claim_turn w t s = ([j], s1)" "process w h (t_proc t) j s1 = Some s2"
      "jobs (ws_db s2) = [r']" "r_id r' = r_id r" "r_status r' = StatusFailed" "r_attempts r' = r_max_attempts r"
      "map d_job_id (dead_letters (ws_db s2)) = map d_job_id (dead_letters (ws_db s)) @ [r_id r]"
      "Retries (ws_metrics s2) (r_type r) = Retries (ws_metrics s) (r_type r)"
      "DeadLetters (ws_metrics s2) (r_type r) = DeadLetters (ws_metrics s) (r_type r) + 1"
      by (rule failing_turn_last [OF und Cons.prems(1,2) cl _ Cons.prems(5) Cons.prems(11) Cons.prems(6)])
    with run Nil show ?thesis by simp
  next
    case more: (Cons t' ts')
    then have lt: "r_attempts r + 1 < r_max_attempts r" using Cons.prems(4) by simp
    have "waits_out w t t'" using Cons.prems(10) more by simp
    then obtain j s1 s2 q where step: "claim_turn w t s = ([j], s1)" "process w h (t_proc t) j s1 = Some s2"
      and s2: "wf_db (ws_db s2)" "jobs (ws_db s2) = [q]" "r_id q = r_id r" "r_type q = r_type r" "r_status q = StatusQueued"
      "r_attempts q = r_attempts r + 1" "r_max_attempts q = r_max_attempts r"
      "r_run_after q \<le> pg_now (t_pg t')" "dead_letters (ws_db s2) = dead_letters (ws_db s)"
      "Retries (ws_metrics s2) (r_type r) = Retries (ws_metrics s) (r_type r) + 1"
      "DeadLetters (ws_metrics s2) = DeadLetters (ws_metrics s)"
      by (rule failing_turn_retry [OF und Cons.prems(1,2) cl lt Cons.prems(5) Cons.prems(11) assms(11)])
    have "r_run_after q \<le> pg_now (t_pg (hd ts))" using s2(8) more by simp
    note IH = Cons.IH [OF s2(1,2,5) _ _ _ _ this, of "w_pollInterval w"]
    show ?thesis using IH Cons.prems more s2 run step by simp
  qed
qed simp


section \<open>The hypotheses at a concrete worker\<close>

definition sample_worker :: worker where
  "sample_worker = \<lparr>w_id = ''w'', w_leaseDuration = sample_lease, w_pollInterval = 500000000,
     w_maxPollInterval = 5000000000, w_retryBaseDelay = 1000000000, w_maxRetryDelay = 60000000000\<rparr>"

definition sample_state :: "db \<Rightarrow> unit wstate" where
  "sample_state db = \<lparr>ws_db = db, ws_metrics = new_metrics, ws_spans = [], ws_log = [], ws_world = ()\<rparr>"

definition sample_proc :: "int \<Rightarrow> proc_env" where
  "sample_proc now = \<lparr>pe_exec_ns = 5, pe_now_ns = now * 1000, pe_rand = (\<lambda>n. 0), pe_meanwhile = [],
     pe_pg = sample_env now\<rparr>"

definition sample_turn :: "int \<Rightarrow> turn" where
  "sample_turn now = \<lparr>t_cancelled = False, t_before = [], t_pg = sample_env now, t_claim_ns = 3,
     t_done = False, t_proc = sample_proc now\<rparr>"

text \<open>The first job of \<open>sample_running\<close> as its claim returned it, on its first and on its last attempt.\<close>

definition sample_job :: "int \<Rightarrow> job" where
  "sample_job n = \<lparr>j_id = 1, j_type = ''a'', j_payload = ''{}'', j_attempts = n, j_max_attempts = 5,
     j_trace_context = ''''\<rparr>"

lemma rand_ok_zero: "rand_ok (\<lambda>n. 0)"
  by (simp add: rand_ok_def)

lemma sample_worker_sint:
  "sint (w_retryBaseDelay sample_worker) = 1000000000" "sint (w_maxRetryDelay sample_worker) = 60000000000"
  "sint (w_pollInterval sample_worker) = 500000000" "sint (w_maxPollInterval sample_worker) = 5000000000"
  by (simp_all add: sample_worker_def)

theorem retry_delay_full_jitter_witness:
  "{d. \<exists>rnd. rand_ok rnd \<and> calculateRetryDelay rnd sample_worker (sample_job 3) = Some d} =
     word_of_int ` {0..<4000000000}"
proof -
  have "0 < sint (w_retryBaseDelay sample_worker)" "0 < sint (w_maxRetryDelay sample_worker)"
    by (simp_all add: sample_worker_sint)
  from retry_delay_full_jitter [OF this, of "sample_job 3"] show ?thesis
    by (simp add: sample_worker_sint sample_job_def)
qed

theorem worker_run_safe_witness:
  "wf_db (ws_db (snd (Run sample_worker (\<lambda>j wd. (HPanic ''boom'', wd)) [sample_turn 200, sample_turn 300] (sample_state sample_db))))"
proof -
  have "wf_db (ws_db (sample_state sample_db))" by (simp add: sample_state_def wf_samples)
  from worker_run_safe [OF this] show ?thesis by blast
qed

theorem idle_polling_backs_off_witness:
  "\<exists>i s'. Run sample_worker (\<lambda>j wd. (HNil, wd)) [sample_turn 50, sample_turn 60] (sample_state sample_db) = (Looping i, s') \<and>
     ws_db s' = sample_db \<and> sint i = 2000000000"
proof -
  have "filter (eligible (sample_env 50)) (jobs sample_db) = []" "filter (eligible (sample_env 60)) (jobs sample_db) = []"
    by code_simp+
  then have "\<forall>t \<in> set [sample_turn 50, sample_turn 60]. \<not> t_cancelled t \<and> \<not> t_done t \<and> t_before t = [] \<and>
       filter (eligible (t_pg t)) (jobs (ws_db (sample_state sample_db))) = []"
    by (simp add: sample_turn_def sample_state_def)
  from idle_polling_backs_off [OF _ _ _ this, of sample_worker "\<lambda>j wd. (HNil, wd)"] show ?thesis
    by (simp add: sample_worker_sint) (simp add: sample_state_def)
qed

lemma report_sample: "report_db (sample_proc now) (sample_state db) = db"
  by (simp add: sample_proc_def sample_state_def)

lemma sample_proc_simps [simp]:
  "pg_fault (pe_pg (sample_proc now)) = NoFault" "pe_now_ns (sample_proc now) = now * 1000"
  "pe_rand (sample_proc now) = (\<lambda>n. 0)" "pe_pg (sample_proc now) = sample_env now"
  by (simp_all add: sample_proc_def)

lemma sample_job_simps [simp]:
  "j_id (sample_job n) = 1" "j_attempts (sample_job n) = n" "j_max_attempts (sample_job n) = 5" "j_type (sample_job n) = ''a''"
  by (simp_all add: sample_job_def)

lemma sample_row: "\<exists>r. lookup_job 1 sample_running = Some r"
proof -
  have "lookup_job 1 sample_running \<noteq> None" by code_simp
  then show ?thesis by blast
qed

theorem process_success_completes_witness:
  "\<exists>s'. process sample_worker (\<lambda>j wd. (HNil, wd)) (sample_proc 300) (sample_job 1) (sample_state sample_running) = Some s' \<and>
     map_option r_status (lookup_job 1 (ws_db s')) = Some StatusCompleted"
proof -
  from sample_row obtain r where r: "lookup_job 1 sample_running = Some r" ..
  have "wf_db (ws_db (sample_state sample_running))" by (simp add: sample_state_def wf_samples)
  from process_success_completes [OF this, of "sample_proc 300" "\<lambda>j wd. (HNil, wd)" "sample_job 1" _ r sample_worker] r
  show ?thesis by (auto simp: report_sample complete_row_def)
qed

theorem process_failure_retries_witness:
  "\<exists>s' at. process sample_worker (\<lambda>j wd. (HErr ''boom'', wd)) (sample_proc 300) (sample_job 1) (sample_state sample_running) = Some s' \<and>
     map_option r_run_after (lookup_job 1 (ws_db s')) = Some at \<and> 300 \<le> at \<and> at \<le> 1000300 \<and>
     Retries (ws_metrics s') ''a'' = 1"
proof -
  from sample_row obtain r where r: "lookup_job 1 sample_running = Some r" ..
  then have "lookup_job (j_id (sample_job 1)) (report_db (sample_proc 300) (sample_state sample_running)) = Some r"
    by (simp add: report_sample)
  from process_failure_retries [OF _ _ _ _ _ _ this, of "\<lambda>j wd. (HErr ''boom'', wd)" "HErr ''boom''" "()" "''boom''" sample_worker]
  show ?thesis
    by (auto simp: sample_worker_sint rand_ok_zero retry_cap_def retry_row_def)
       (auto simp: sample_state_def new_metrics_def)
qed

theorem process_exhausted_dead_letters_witness:
  "\<exists>s'. process sample_worker (\<lambda>j wd. (HPanic ''boom'', wd)) (sample_proc 300) (sample_job 5) (sample_state sample_running) = Some s' \<and>
     map_option r_last_error (lookup_job 1 (ws_db s')) = Some (Some ''panic: boom'') \<and>
     map d_job_id (dead_letters (ws_db s')) = [1]"
proof -
  from sample_row obtain r where r: "lookup_job 1 sample_running = Some r" ..
  then have look: "lookup_job (j_id (sample_job 5)) (report_db (sample_proc 300) (sample_state sample_running)) = Some r"
    by (simp add: report_sample)
  have letters: "dead_letters sample_running = []" by code_simp
  have "wf_db (ws_db (sample_state sample_running))" by (simp add: sample_state_def wf_samples)
  from process_exhausted_dead_letters [OF this _ _ _ _ look, of "\<lambda>j wd. (HPanic ''boom'', wd)" "HPanic ''boom''" "()" "''panic: boom''" sample_worker]
  show ?thesis by (auto simp: report_sample letters fail_row_def)
qed

definition sample_single :: db where
  "sample_single = run_calls [(sample_env 100, CallEnqueue ''a'' ''{}'' '''')] empty_db"

definition sample_turns :: "turn list" where
  "sample_turns = map sample_turn [100, 100000000, 200000000, 300000000, 400000000]"

lemma sample_single_rows:
  "jobs sample_single = [new_job_row (sample_env 100) 1 ''a'' ''{}'' '''']" "dead_letters sample_single = []"
  "wf_db sample_single"
proof -
  show "jobs sample_single = [new_job_row (sample_env 100) 1 ''a'' ''{}'' '''']" "dead_letters sample_single = []"
    by (simp_all add: sample_single_def Enqueue_def run_stmt_def enqueue_stmt_def)
       (simp_all add: sample_env_def empty_db_def Let_def)
  show "wf_db sample_single" unfolding sample_single_def by (rule wf_run_calls [OF wf_empty_db])
qed

lemma sample_turns_ok:
  "\<forall>t \<in> set sample_turns. undisturbed sample_worker t" "sorted_wrt (waits_out sample_worker) sample_turns"
  "r_run_after (new_job_row (sample_env 100) 1 ''a'' ''{}'' '''') \<le> pg_now (t_pg (hd sample_turns))"
  "int (length sample_turns) = r_max_attempts (new_job_row (sample_env 100) 1 ''a'' ''{}'' '''')"
proof -
  have lease: "duration_String (sint sample_lease) = ''30s''" by code_simp
  show "\<forall>t \<in> set sample_turns. undisturbed sample_worker t"
    by (simp add: sample_turns_def sample_turn_def undisturbed_def rand_ok_zero)
       (simp add: sample_worker_def sample_env_def sample_proc_def lease)
  show "sorted_wrt (waits_out sample_worker) sample_turns"
    by (simp add: sample_turns_def waits_out_def sample_worker_sint sample_turn_def) (simp add: sample_env_def)
qed (simp_all add: sample_turns_def sample_turn_def new_job_row_def)


end
