(* ===== verification/JobLife.thy ===== *)
theory JobLife
  imports StoreSpec
begin

text \<open>
  A job once enqueued is never lost and never altered: whatever calls follow, its row stays and
  keeps its type, payload, priority, attempt limit, creation time and trace context.
\<close>

section \<open>What no call changes\<close>

text \<open>The columns that are written once, when the job is enqueued.\<close>

definition row_identity :: "job_row \<Rightarrow> string \<times> string \<times> int \<times> int \<times> int \<times> string" where
  "row_identity r = (r_type r, r_payload r, r_priority r, r_max_attempts r, r_created_at r, r_trace_context r)"

definition keeps_identity :: "db \<Rightarrow> db \<Rightarrow> bool" where
  "keeps_identity db db' \<longleftrightarrow> (\<forall>i. case lookup_job i db of None \<Rightarrow> True
     | Some r \<Rightarrow> (case lookup_job i db' of None \<Rightarrow> False | Some r' \<Rightarrow> row_identity r' = row_identity r))"

lemma keeps_identity_refl [simp]: "keeps_identity db db"
  by (simp add: keeps_identity_def split: option.splits)

lemma keeps_identity_trans: "keeps_identity a b \<Longrightarrow> keeps_identity b c \<Longrightarrow> keeps_identity a c"
  by (fastforce simp: keeps_identity_def split: option.splits)

lemma keeps_identity_update:
  assumes "\<And>r. row_identity (f r) = row_identity r" "jobs db' = sql_update p f (jobs db)" "\<And>r. r_id (f r) = r_id r"
  shows "keeps_identity db db'"
proof -
  have "lookup_job i db' = map_option (\<lambda>r. if p r then f r else r) (lookup_job i db)" for i
    using lookup_update_jobs [OF assms(3), of i p db] assms(2) by (simp add: lookup_job_def)
  then show ?thesis using assms(1) by (auto simp: keeps_identity_def split: option.splits)
qed

lemma keeps_identity_append: "jobs db' = jobs db @ rs \<Longrightarrow> keeps_identity db db'"
  by (auto simp: keeps_identity_def lookup_job_def find_append split: option.splits)

lemma identity_updates [simp]:
  "row_identity (claim_row env w iv r) = row_identity r" "row_identity (complete_row env r) = row_identity r"
  "row_identity (retry_row at e r) = row_identity r" "row_identity (fail_row env e r) = row_identity r"
  "row_identity (reap_row env r) = row_identity r"
  by (simp_all add: row_identity_def row_defs)

lemma insert_dead_letters_jobs: "insert_dead_letters env e rows db = Inr db' \<Longrightarrow> jobs db' = jobs db"
  by (auto simp: insert_dead_letters_def Let_def split: if_splits)

lemma run_stmt_keeps:
  assumes "\<And>a db'. stmt db = Inr (a, db') \<Longrightarrow> keeps_identity db db'"
  shows "keeps_identity db (snd (run_stmt env what stmt db))"
  by (rule run_stmt_cases) (simp_all add: assms)

lemma stmt_keeps:
  "claim_stmt env w l n db = Inr (js, db') \<Longrightarrow> keeps_identity db db'"
  "complete_stmt env i db = Inr (u, db') \<Longrightarrow> keeps_identity db db'"
  "retry_stmt env i at e db = Inr (u, db') \<Longrightarrow> keeps_identity db db'"
  "fail_stmt env i e db = Inr (u, db') \<Longrightarrow> keeps_identity db db'"
  "reap_stmt env db = Inr (c, db') \<Longrightarrow> keeps_identity db db'"
  "enqueue_stmt env t p tc db = Inr (k, db') \<Longrightarrow> keeps_identity db db'"
  by (auto simp: stmt_defs Let_def
      split: option.splits if_splits sum.splits dest!: insert_dead_letters_jobs
      intro: keeps_identity_update [OF _ _ claim_upd.key_upd] keeps_identity_update [OF _ _ complete_upd.key_upd]
        keeps_identity_update [OF _ _ retry_upd.key_upd] keeps_identity_update [OF _ _ fail_upd.key_upd]
        keeps_identity_update [OF _ _ reap_upd.key_upd] keeps_identity_append)

lemma exec_call_keeps: "keeps_identity db (exec_call env c db)"
proof (cases c)
  case (CallMarkShipped ids)
  have "keeps_identity db (snd (MarkEventsShipped env ids db))"
    by (intro keeps_identity_append [of _ _ "[]"]) (simp add: MarkEventsShipped_def run_stmt_def split: fault.splits)
  with CallMarkShipped show ?thesis by simp
next
  case (CallSequenceGap a b c)
  then show ?thesis by (simp add: keeps_identity_append [of _ _ "[]"])
qed (auto simp: call_defs
      intro!: run_stmt_keeps intro: stmt_keeps)

lemma run_calls_keep: "keeps_identity db (run_calls cs db)"
proof (induction cs arbitrary: db)
  case (Cons c cs)
  then show ?case by (cases c) (auto intro: keeps_identity_trans [OF exec_call_keeps])
qed simp

lemma keeps_identityD:
  assumes "keeps_identity db db'" "lookup_job i db = Some r"
  obtains r' where "lookup_job i db' = Some r'" "row_identity r' = row_identity r"
  using assms by (auto simp: keeps_identity_def split: option.splits)

lemma enqueue_SuccessD:
  assumes "Enqueue env t p tc db = (Inr i, db')"
  obtains p' where "pg_fault env = NoFault" "pg_jsonb env p = Some p'" "i = next_job_id db"
    "jobs db' = jobs db @ [new_job_row env i t p' tc]"
  using assms
  by (auto simp: Enqueue_def run_stmt_Inr enqueue_stmt_def Let_def new_job_row_def split: option.splits)

lemma lookup_enqueued:
  assumes "wf_db db" "jobs db' = jobs db @ [new_job_row env (next_job_id db) t p tc]"
  shows "lookup_job (next_job_id db) db' = Some (new_job_row env (next_job_id db) t p tc)"
proof -
  have "lookup_job (next_job_id db) db = None"
    using assms(1) by (auto simp: lookup_job_def find_None_iff wf_db_def jobs_ok_def)
  then show ?thesis using assms(2) by (simp add: lookup_job_def find_append new_job_row_def)
qed

lemma claimed_identity:
  assumes "wf_db db" "Claim env w lease limit db = (Inr js, db')" "j \<in> set js" "lookup_job (j_id j) db = Some r"
  shows "j_type j = r_type r" "j_payload j = r_payload r" "j_trace_context j = r_trace_context r"
    "j_max_attempts j = r_max_attempts r"
proof -
  from assms(2) obtain iv where "js = map to_job (returning env
      (\<lambda>r. r_id r \<in> r_id ` set (claim_select env limit db)) (claim_row env w iv) db)"
    by (rule claim_SuccessD)
  with assms(3) obtain q where q: "q \<in> set (jobs db)" "j = to_job (claim_row env w iv q)"
    by (auto simp: returning_def)
  then have "q = r"
    using assms(1,4) lookup_job_id [OF assms(4)] by (auto simp: wf_db_def jobs_ok_def intro: same_id_same_row)
  then show "j_type j = r_type r" "j_payload j = r_payload r" "j_trace_context j = r_trace_context r"
    "j_max_attempts j = r_max_attempts r"
    by (simp_all add: q(2) to_job_def claim_row_def)
qed

text \<open>
  C29. No submitted job is lost or altered: after a successful \<open>Enqueue\<close> and any calls by anyone the
  job is still in the table, and whenever a later claim returns it, at whatever attempt, it hands
  the worker the type and trace context it was enqueued with, the payload as the server stored
  it, and the limit of five attempts.
\<close>

theorem enqueued_job_is_kept:
  assumes "wf_db db" "Enqueue env t p tc db = (Inr i, db1)"
  shows "\<exists>p'. pg_jsonb env p = Some p' \<and> lookup_job i (run_calls cs db1) \<noteq> None \<and>
     (\<forall>env' w lease limit js db2 j. Claim env' w lease limit (run_calls cs db1) = (Inr js, db2) \<and>
        j \<in> set js \<and> j_id j = i \<longrightarrow>
        j_type j = t \<and> j_payload j = p' \<and> j_trace_context j = tc \<and> j_max_attempts j = 5)"
proof -
  from assms(2) obtain p' where p': "pg_jsonb env p = Some p'" "i = next_job_id db"
    and rows: "jobs db1 = jobs db @ [new_job_row env i t p' tc]"
    by (rule enqueue_SuccessD)
  from lookup_enqueued [OF assms(1)] rows p'(2)
  have "lookup_job i db1 = Some (new_job_row env i t p' tc)" by simp
  then obtain r where r: "lookup_job i (run_calls cs db1) = Some r"
    "row_identity r = row_identity (new_job_row env i t p' tc)"
    by (rule keeps_identityD [OF run_calls_keep])
  have "wf_db (run_calls cs db1)"
    using wf_exec_call [OF assms(1), of env "CallEnqueue t p tc"] assms(2) by (simp add: wf_run_calls)
  from claimed_identity [OF this] r p' show ?thesis
    by (auto simp: row_identity_def new_job_row_def)
qed

theorem enqueued_job_is_kept_witness:
  "\<exists>i db1. Enqueue (sample_env 100) ''a'' ''{}'' '''' empty_db = (Inr i, db1) \<and>
     lookup_job i (run_calls [(sample_env 200, CallClaim ''w'' sample_lease 1), (sample_env 300, CallFail 1 ''x'')] db1) \<noteq> None"
proof -
  have "\<exists>i. fst (Enqueue (sample_env 100) ''a'' ''{}'' '''' empty_db) = Inr i"
    by (simp add: Enqueue_def run_stmt_def enqueue_stmt_def) (simp add: sample_env_def Let_def)
  then obtain i db1 where E: "Enqueue (sample_env 100) ''a'' ''{}'' '''' empty_db = (Inr i, db1)"
    by (metis prod.collapse)
  from enqueued_job_is_kept [OF wf_empty_db E] E show ?thesis by blast
qed

section \<open>What each statement writes\<close>

text \<open>Every statement that changes jobs updates some rows and logs exactly these.\<close>

lemma complete_logged:
  "complete_stmt env i db = Inr (a, db') \<Longrightarrow> jobs db' = sql_update (\<lambda>r. r_id r = i) (complete_row env) (jobs db) \<and>
     job_events db' = job_events db @ new_events env (\<lambda>_. EventCompleted) '''' ''''
       (returning env (\<lambda>r. r_id r = i) (complete_row env) db) (next_event_id db)"
  by (auto simp: complete_stmt_def Let_def)

lemma retry_logged:
  "retry_stmt env i at e db = Inr (a, db') \<Longrightarrow> jobs db' = sql_update (\<lambda>r. r_id r = i) (retry_row at e) (jobs db) \<and>
     job_events db' = job_events db @ new_events env (\<lambda>_. EventRetried) '''' e
       (returning env (\<lambda>r. r_id r = i) (retry_row at e) db) (next_event_id db)"
  by (auto simp: retry_stmt_def Let_def)

lemma fail_logged:
  "fail_stmt env i e db = Inr (a, db') \<Longrightarrow> jobs db' = sql_update (\<lambda>r. r_id r = i) (fail_row env e) (jobs db) \<and>
     job_events db' = job_events db @ new_events env (\<lambda>_. EventFailed) '''' e
       (returning env (\<lambda>r. r_id r = i) (fail_row env e) db) (next_event_id db)"
  by (auto simp: fail_stmt_def Let_def insert_dead_letters_eq split: sum.splits if_splits)

lemma reap_logged:
  "reap_stmt env db = Inr (a, db') \<Longrightarrow> jobs db' = sql_update (lease_expired env) (reap_row env) (jobs db) \<and>
     job_events db' = job_events db @ new_events env reap_event_type '''' reap_last_error
       (returning env (lease_expired env) (reap_row env) db) (next_event_id db)"
  by (auto simp: reap_stmt_def Let_def insert_dead_letters_eq split: sum.splits if_splits)

lemma claim_logged:
  assumes "pg_interval env lease = Some iv" "claim_stmt env w lease limit db = Inr (a, db')"
  shows "jobs db' = sql_update (\<lambda>r. r_id r \<in> r_id ` set (claim_select env limit db)) (claim_row env w iv) (jobs db) \<and>
     job_events db' = job_events db @ new_events env (\<lambda>_. EventClaimed) w ''''
       (returning env (\<lambda>r. r_id r \<in> r_id ` set (claim_select env limit db)) (claim_row env w iv) db) (next_event_id db)"
  using assms by (auto simp: claim_stmt_def Let_def split: if_splits)

lemmas stmts_logged = complete_logged retry_logged fail_logged reap_logged

text \<open>A lease the database does not read as an interval leaves everything as it is.\<close>

lemma claim_by_interval:
  assumes "P db" "\<And>iv. pg_interval env (duration_String (sint lease)) = Some iv \<Longrightarrow> P (snd (Claim env w lease limit db))"
  shows "P (snd (Claim env w lease limit db))"
  using assms by (cases "pg_interval env (duration_String (sint lease))")
    (simp_all add: Claim_def run_stmt_def claim_stmt_def split: fault.split)

section \<open>Events carry the type of their job\<close>

definition typed_log :: "db \<Rightarrow> bool" where
  "typed_log db \<longleftrightarrow> (\<forall>e \<in> set (job_events db). map_option r_type (lookup_job (e_job_id e) db) = Some (e_job_type e))"

lemma new_events_types:
  "e \<in> set (new_events env ty w m rows k) \<Longrightarrow> \<exists>r \<in> set rows. e_job_id e = r_id r \<and> e_job_type e = r_type r"
  by (induction rows arbitrary: k) auto

lemma typed_append:
  assumes "typed_log db" "keeps_identity db db'" "job_events db' = job_events db @ new_events env ty w m rows k"
    and "\<And>r. r \<in> set rows \<Longrightarrow> map_option r_type (lookup_job (r_id r) db') = Some (r_type r)"
  shows "typed_log db'"
  unfolding typed_log_def
proof
  fix e assume "e \<in> set (job_events db')"
  then consider "e \<in> set (job_events db)" | "e \<in> set (new_events env ty w m rows k)" by (auto simp: assms(3))
  then show "map_option r_type (lookup_job (e_job_id e) db') = Some (e_job_type e)"
  proof cases
    case 1
    with assms(1) obtain r where r: "lookup_job (e_job_id e) db = Some r" "r_type r = e_job_type e" by (auto simp: typed_log_def)
    from keeps_identityD [OF assms(2) r(1)] obtain r' where "lookup_job (e_job_id e) db' = Some r'" "row_identity r' = row_identity r" .
    with r(2) show ?thesis by (simp add: row_identity_def)
  next
    case 2
    with new_events_types [OF 2] assms(4) show ?thesis by auto
  qed
qed

context logged_update
begin

lemma typed_stmt:
  assumes "jobs_ok db" "typed_log db" "\<And>r. row_identity (f r) = row_identity r"
    and "\<And>a db'. stmt db = Inr (a, db') \<Longrightarrow> jobs db' = sql_update p f (jobs db) \<and>
      job_events db' = job_events db @ new_events env ty w m' (returning env p f db) (next_event_id db)"
  shows "typed_log (snd (run_stmt env' what stmt db))"
proof (rule run_stmt_cases [where P = typed_log, OF assms(2)])
  fix a db' assume "stmt db = Inr (a, db')"
  note db' = assms(4) [OF this]
  have look: "lookup_job i db' = map_option (\<lambda>r. if p r then f r else r) (lookup_job i db)" for i
    using find_update [of i p "jobs db"] db' by (simp add: lookup_job_def)
  show "typed_log db'"
  proof (rule typed_append [OF assms(2) keeps_identity_update [OF assms(3) _ key_upd] conjunct2 [OF db']])
    show "jobs db' = sql_update p f (jobs db)" using db' by simp
    fix r assume "r \<in> set (returning env p f db)"
    then obtain q where "q \<in> set (jobs db)" "p q" "r = f q" by (auto simp: returning_def)
    with job_lookup [OF assms(1)] show "map_option r_type (lookup_job (r_id r) db') = Some (r_type r)"
      by (simp add: look key_upd)
  qed
qed

end

lemma typed_enqueue:
  assumes "wf_db db" "typed_log db"
  shows "typed_log (snd (Enqueue env t p tc db))"
  unfolding Enqueue_def
proof (rule run_stmt_cases [where P = typed_log, OF assms(2)])
  fix i db' assume "enqueue_stmt env t p tc db = Inr (i, db')"
  then obtain p' where db': "jobs db' = jobs db @ [new_job_row env (next_job_id db) t p' tc]" "job_events db' = job_events db @
      new_events env (\<lambda>_. EventEnqueued) '''' '''' [new_job_row env (next_job_id db) t p' tc] (next_event_id db)"
    by (auto simp: enqueue_stmt_def Let_def split: option.splits)
  show "typed_log db'"
    by (rule typed_append [OF assms(2) keeps_identity_append [OF db'(1)] db'(2)])
       (use lookup_enqueued [OF assms(1) db'(1)] in \<open>auto simp: new_job_row_def\<close>)
qed

lemma typed_ship: "typed_log db \<Longrightarrow> typed_log (snd (MarkEventsShipped env ids db))"
  unfolding MarkEventsShipped_def
  by (auto simp: set_sql_update typed_log_def lookup_job_def run_stmt_def split: fault.splits)

lemma typed_exec_call:
  assumes "wf_db db" "typed_log db"
  shows "typed_log (exec_call env c db)"
proof -
  have ok: "jobs_ok db" using assms(1) by (simp add: wf_db_def)
  show ?thesis
  proof (cases c)
    case (CallClaim w lease limit)
    have "typed_log (snd (Claim env w lease limit db))"
    proof (rule claim_by_interval [where P = typed_log, OF assms(2)])
      fix iv assume "pg_interval env (duration_String (sint lease)) = Some iv"
      then show "typed_log (snd (Claim env w lease limit db))"
        unfolding Claim_def by (intro claim_upd.typed_stmt [OF ok assms(2) _ claim_logged]) simp_all
    qed
    with CallClaim show ?thesis by simp
  next
    case (CallComplete i)
    show ?thesis unfolding CallComplete exec_call.simps Complete_def
      by (rule complete_upd.typed_stmt [OF ok assms(2) _ complete_logged]) simp_all
  next
    case (CallRetry i at e)
    show ?thesis unfolding CallRetry exec_call.simps Retry_def
      by (rule retry_upd.typed_stmt [OF ok assms(2) _ retry_logged]) simp_all
  next
    case (CallFail i e)
    show ?thesis unfolding CallFail exec_call.simps Fail_def
      by (rule fail_upd.typed_stmt [OF ok assms(2) _ fail_logged]) simp_all
  next
    case CallReap
    show ?thesis unfolding CallReap exec_call.simps ReapExpiredLeases_def
      by (rule reap_upd.typed_stmt [OF ok assms(2) _ reap_logged]) simp_all
  next
    case (CallSequenceGap a b c)
    then show ?thesis using assms(2) by (simp add: typed_log_def lookup_job_def)
  qed (use assms in \<open>simp_all add: typed_enqueue typed_ship\<close>)
qed

end
