(* ===== verification/System.thy ===== *)
theory System
  imports WorkerSpec JobLife
begin

text \<open>
  The whole queue: clients that submit, workers that claim and report through \<open>process\<close>, the
  reaper, crashes and the clock, as one transition system over the database and the claims that
  workers hold. With the flag \<open>timely\<close> a worker reports only before its lease ends; without it a
  worker may report at any time, as the code allows.
\<close>

section \<open>States and actions\<close>

record sys =
  sy_db :: db
  sy_now :: int
  sy_flight :: "(job \<times> int) list"

definition sys_init :: sys where
  "sys_init = \<lparr>sy_db = empty_db, sy_now = 0, sy_flight = []\<rparr>"

text \<open>
  The environments of an action carry every choice but the clock, which is the system's. A report
  is the outcome of the handler for the n-th held claim.
\<close>

datatype sys_action =
    ASubmit pg_env string string string
  | AClaim pg_env string duration
  | AReport nat worker handler_result proc_env
  | ACrash nat
  | AReap pg_env
  | AShip pg_env "int list"
  | ATick int

definition lease_end :: "int \<Rightarrow> db \<Rightarrow> int" where
  "lease_end i db = (case lookup_job i db of None \<Rightarrow> 0
     | Some r \<Rightarrow> (case r_lease_expires_at r of None \<Rightarrow> 0 | Some t \<Rightarrow> t))"

definition remove_nth :: "nat \<Rightarrow> 'a list \<Rightarrow> 'a list" where
  "remove_nth n xs = take n xs @ drop (Suc n) xs"

definition worker_state :: "db \<Rightarrow> unit wstate" where
  "worker_state db = \<lparr>ws_db = db, ws_metrics = new_metrics, ws_spans = [], ws_log = [], ws_world = ()\<rparr>"

fun sys_exec :: "bool \<Rightarrow> sys_action \<Rightarrow> sys \<Rightarrow> sys option" where
  "sys_exec timely (ASubmit env t p tc) s =
     Some (s\<lparr>sy_db := snd (Enqueue (env\<lparr>pg_now := sy_now s\<rparr>) t p tc (sy_db s))\<rparr>)"
| "sys_exec timely (AClaim env w lease) s =
     (let (res, db') = Claim (env\<lparr>pg_now := sy_now s\<rparr>) w lease 1 (sy_db s);
          js = (case res of Inl _ \<Rightarrow> [] | Inr js \<Rightarrow> js)
      in Some (s\<lparr>sy_db := db', sy_flight := map (\<lambda>j. (j, lease_end (j_id j) db')) js @ sy_flight s\<rparr>))"
| "sys_exec timely (AReport n w res pe) s =
     (if n < length (sy_flight s) \<and> (timely \<longrightarrow> sy_now s \<le> snd (sy_flight s ! n))
      then map_option (\<lambda>s'. s\<lparr>sy_db := ws_db s', sy_flight := remove_nth n (sy_flight s)\<rparr>)
             (process w (\<lambda>_ _. (res, ()))
               (pe\<lparr>pe_meanwhile := [], pe_pg := (pe_pg pe)\<lparr>pg_now := sy_now s\<rparr>\<rparr>)
               (fst (sy_flight s ! n)) (worker_state (sy_db s)))
      else None)"
| "sys_exec timely (ACrash n) s = Some (s\<lparr>sy_flight := remove_nth n (sy_flight s)\<rparr>)"
| "sys_exec timely (AReap env) s =
     Some (s\<lparr>sy_db := snd (ReapExpiredLeases (env\<lparr>pg_now := sy_now s\<rparr>) (sy_db s))\<rparr>)"
| "sys_exec timely (AShip env ids) s = Some (s\<lparr>sy_db := snd (MarkEventsShipped env ids (sy_db s))\<rparr>)"
| "sys_exec timely (ATick d) s = Some (s\<lparr>sy_now := sy_now s + max 0 d\<rparr>)"

inductive sys_step :: "bool \<Rightarrow> sys \<Rightarrow> sys \<Rightarrow> bool" for timely where
  sys_act: "sys_exec timely a s = Some s' \<Longrightarrow> sys_step timely s s'"

inductive_cases sys_stepE: "sys_step timely s s'"

section \<open>The invariant of timely workers\<close>

definition row_disc :: "job_row \<Rightarrow> bool" where
  "row_disc r \<longleftrightarrow> r_attempts r \<le> r_max_attempts r \<and> (r_status r = StatusQueued \<longrightarrow> r_attempts r < r_max_attempts r)"

definition jobs_inv :: "db \<Rightarrow> bool" where
  "jobs_inv db \<longleftrightarrow> (\<forall>i r. lookup_job i db = Some r \<longrightarrow> row_disc r \<and>
     (i \<in> d_job_id ` set (dead_letters db) \<longrightarrow> r_status r = StatusFailed))"

text \<open>A held claim whose lease has not ended is the current claim of its job.\<close>

definition claim_ok :: "int \<Rightarrow> db \<Rightarrow> job \<times> int \<Rightarrow> bool" where
  "claim_ok now db = (\<lambda>(j, dl). \<exists>r. lookup_job (j_id j) db = Some r \<and> j_attempts j \<le> r_attempts r \<and>
     j_max_attempts j = r_max_attempts r \<and>
     (now \<le> dl \<longrightarrow> r_status r = StatusRunning \<and> r_attempts r = j_attempts j \<and> r_lease_expires_at r = Some dl))"

definition claim_key :: "job \<times> int \<Rightarrow> int \<times> int" where
  "claim_key f = (j_id (fst f), j_attempts (fst f))"

definition sys_inv :: "sys \<Rightarrow> bool" where
  "sys_inv s \<longleftrightarrow> wf_db (sy_db s) \<and> jobs_inv (sy_db s) \<and>
     (\<forall>f \<in> set (sy_flight s). claim_ok (sy_now s) (sy_db s) f) \<and> distinct (map claim_key (sy_flight s))"

text \<open>
  What a change of the database must keep: the rows under a live lease, outside the ids in X, and
  the rows of finished jobs.
\<close>

definition keeps_live :: "int \<Rightarrow> int set \<Rightarrow> db \<Rightarrow> db \<Rightarrow> bool" where
  "keeps_live now X db db' \<longleftrightarrow> (\<forall>i r. lookup_job i db = Some r \<longrightarrow>
     (\<exists>r'. lookup_job i db' = Some r' \<and> r_attempts r \<le> r_attempts r' \<and> r_max_attempts r' = r_max_attempts r \<and>
        (i \<notin> X \<and> r_status r = StatusRunning \<and> (\<exists>dl. r_lease_expires_at r = Some dl \<and> now \<le> dl) \<longrightarrow> r' = r) \<and>
        (r_status r = StatusCompleted \<or> r_status r = StatusFailed \<longrightarrow> r' = r)))"

lemma keeps_live_refl [simp]: "keeps_live now X db db"
  by (simp add: keeps_live_def)

lemma claim_ok_keep:
  assumes "claim_ok now db f" "keeps_live now X db db'" "j_id (fst f) \<in> X \<Longrightarrow> snd f < now"
  shows "claim_ok now db' f"
proof -
  obtain j dl where f: "f = (j, dl)" by (cases f)
  from assms(1) obtain r where r: "lookup_job (j_id j) db = Some r" "j_attempts j \<le> r_attempts r"
    "j_max_attempts j = r_max_attempts r"
    "now \<le> dl \<longrightarrow> r_status r = StatusRunning \<and> r_attempts r = j_attempts j \<and> r_lease_expires_at r = Some dl"
    by (auto simp: claim_ok_def f)
  from assms(2) r(1) obtain r' where r': "lookup_job (j_id j) db' = Some r'" "r_attempts r \<le> r_attempts r'"
    "r_max_attempts r' = r_max_attempts r"
    "j_id j \<notin> X \<and> r_status r = StatusRunning \<and> (\<exists>dl. r_lease_expires_at r = Some dl \<and> now \<le> dl) \<longrightarrow> r' = r"
    unfolding keeps_live_def by blast
  have "now \<le> dl \<longrightarrow> r' = r" using assms(3) r(4) r'(4) by (auto simp: f)
  with r r' show ?thesis by (auto simp: claim_ok_def f)
qed

lemma sys_inv_step:
  assumes "sys_inv s" "wf_db db'" "jobs_inv db'" "keeps_live (sy_now s) X (sy_db s) db'"
    and "set fl \<subseteq> set (sy_flight s)" "distinct (map claim_key fl)"
    and "\<And>f. f \<in> set fl \<Longrightarrow> j_id (fst f) \<in> X \<Longrightarrow> snd f < sy_now s"
  shows "sys_inv (s\<lparr>sy_db := db', sy_flight := fl\<rparr>)"
  using assms claim_ok_keep [OF _ assms(4)] by (auto simp: sys_inv_def)

lemma distinct_remove_nth: "distinct (map k xs) \<Longrightarrow> distinct (map k (remove_nth n xs))"
proof -
  assume "distinct (map k xs)"
  then have "distinct (map k (take n xs) @ map k (drop n xs))" by (metis append_take_drop_id map_append)
  moreover have "set (map k (drop (Suc n) xs)) \<subseteq> set (map k (drop n xs))"
    using set_drop_subset_set_drop [of n "Suc n" xs] by auto
  moreover have "distinct (map k (drop (Suc n) xs))"
    using \<open>distinct (map k xs)\<close> by (metis distinct_drop drop_map)
  ultimately show ?thesis by (auto simp: remove_nth_def)
qed

lemma set_remove_nth: "set (remove_nth n xs) \<subseteq> set xs"
  by (auto simp: remove_nth_def dest: in_set_takeD in_set_dropD)

lemma remove_nth_other:
  assumes "distinct (map k xs)" "n < length xs" "x \<in> set (remove_nth n xs)"
  shows "k x \<noteq> k (xs ! n)"
proof -
  have "xs = take n xs @ xs ! n # drop (Suc n) xs" using assms(2) by (rule id_take_nth_drop)
  then have "distinct (map k (take n xs @ xs ! n # drop (Suc n) xs))" using assms(1) by simp
  then have "k (xs ! n) \<notin> k ` set (remove_nth n xs)" by (simp add: remove_nth_def image_Un)
  with assms(3) show ?thesis by (metis image_eqI)
qed

section \<open>Each action keeps it\<close>

definition good_change :: "int \<Rightarrow> int set \<Rightarrow> db \<Rightarrow> db \<Rightarrow> bool" where
  "good_change now X db db' \<longleftrightarrow> jobs_inv db' \<and> keeps_live now X db db'"

lemma run_stmt_good:
  assumes "jobs_inv db" "\<And>a db'. stmt db = Inr (a, db') \<Longrightarrow> good_change now X db db'"
  shows "good_change now X db (snd (run_stmt env what stmt db))"
  by (rule run_stmt_cases [where P = "good_change now X db"])
     (simp add: good_change_def assms(1), rule assms(2))

lemma jobs_inv_update:
  assumes "jobs_inv db" "dead_letters db' = dead_letters db"
    and "\<And>k. lookup_job k db' = (if k = i then map_option f (lookup_job i db) else lookup_job k db)"
    and "\<And>r. lookup_job i db = Some r \<Longrightarrow> row_disc (f r) \<and> (i \<in> d_job_id ` set (dead_letters db) \<longrightarrow> r_status (f r) = StatusFailed)"
  shows "jobs_inv db'"
  using assms by (auto simp: jobs_inv_def split: if_splits)

lemma keeps_live_update:
  assumes "\<And>k. lookup_job k db' = (if k = i then map_option f (lookup_job i db) else lookup_job k db)"
    and "\<And>r. r_attempts (f r) = r_attempts r \<and> r_max_attempts (f r) = r_max_attempts r"
    and "lookup_job i db = Some r" "r_status r = StatusRunning"
  shows "keeps_live now {i} db db'"
  using assms by (auto simp: keeps_live_def)


lemma running_no_letter:
  "jobs_inv db \<Longrightarrow> lookup_job i db = Some r \<Longrightarrow> r_status r = StatusRunning \<Longrightarrow> i \<notin> d_job_id ` set (dead_letters db)"
  unfolding jobs_inv_def by (metis status.distinct)

lemma row_disc_updates:
  "row_disc r \<Longrightarrow> row_disc (complete_row env r)" "row_disc r \<Longrightarrow> row_disc (fail_row env e r)"
  "r_attempts r < r_max_attempts r \<Longrightarrow> row_disc (retry_row at e r)"
  "r_attempts r < r_max_attempts r \<Longrightarrow> row_disc (claim_row env w iv r)"
  "row_disc r \<Longrightarrow> row_disc (reap_row env r)"
  by (auto simp: row_disc_def row_defs exhausted_def)

lemma count_updates [simp]:
  "r_attempts (complete_row env r) = r_attempts r \<and> r_max_attempts (complete_row env r) = r_max_attempts r"
  "r_attempts (fail_row env e r) = r_attempts r \<and> r_max_attempts (fail_row env e r) = r_max_attempts r"
  "r_attempts (retry_row at e r) = r_attempts r \<and> r_max_attempts (retry_row at e r) = r_max_attempts r"
  by (simp_all add: row_defs)

lemma report_complete:
  assumes "jobs_inv db" "lookup_job i db = Some r" "r_status r = StatusRunning"
  shows "good_change now {i} db (snd (Complete env i db))"
proof -
  have disc: "row_disc r" using assms(1,2) by (auto simp: jobs_inv_def)
  have "jobs_inv db' \<and> keeps_live now {i} db db'" if "complete_stmt env i db = Inr (u, db')" for u db'
  proof
    have "db' = log_rows env (\<lambda>_. EventCompleted) '''' '''' (returning env (\<lambda>r. r_id r = i) (complete_row env) db)
        (update_jobs (\<lambda>r. r_id r = i) (complete_row env) db)"
      using that by (simp add: complete_stmt_def Let_def)
    then have db': "dead_letters db' = dead_letters db"
      "\<And>k. lookup_job k db' = (if k = i then map_option (complete_row env) (lookup_job i db) else lookup_job k db)"
      by (simp_all add: lookup_update_id complete_upd.key_upd)
    show "jobs_inv db'"
      by (rule jobs_inv_update [OF assms(1) db'])
         (use assms(2) disc running_no_letter [OF assms] in \<open>simp add: row_disc_updates\<close>)
    show "keeps_live now {i} db db'" by (rule keeps_live_update [OF db'(2) _ assms(2,3)]) simp
  qed
  then show ?thesis unfolding Complete_def good_change_def [symmetric] by (intro run_stmt_good assms)
qed

lemma report_retry:
  assumes "jobs_inv db" "lookup_job i db = Some r" "r_status r = StatusRunning" "r_attempts r < r_max_attempts r"
  shows "good_change now {i} db (snd (Retry env i at e db))"
proof -
  have "jobs_inv db' \<and> keeps_live now {i} db db'" if "retry_stmt env i at e db = Inr (u, db')" for u db' at
  proof
    have "db' = log_rows env (\<lambda>_. EventRetried) '''' e (returning env (\<lambda>r. r_id r = i) (retry_row at e) db)
        (update_jobs (\<lambda>r. r_id r = i) (retry_row at e) db)"
      using that by (simp add: retry_stmt_def Let_def)
    then have db': "dead_letters db' = dead_letters db"
      "\<And>k. lookup_job k db' = (if k = i then map_option (retry_row at e) (lookup_job i db) else lookup_job k db)"
      by (simp_all add: lookup_update_id retry_upd.key_upd)
    show "jobs_inv db'"
      by (rule jobs_inv_update [OF assms(1) db'])
         (use assms(2,4) running_no_letter [OF assms(1-3)] in \<open>simp add: row_disc_updates\<close>)
    show "keeps_live now {i} db db'" by (rule keeps_live_update [OF db'(2) _ assms(2,3)]) simp
  qed
  then show ?thesis unfolding Retry_def good_change_def [symmetric] by (intro run_stmt_good assms)
qed

lemma report_fail:
  assumes "wf_db db" "jobs_inv db" "lookup_job i db = Some r" "r_status r = StatusRunning"
  shows "good_change now {i} db (snd (Fail env i e db))"
proof -
  have disc: "row_disc r" using assms(2,3) by (auto simp: jobs_inv_def)
  have "jobs_inv db' \<and> keeps_live now {i} db db'" if "fail_stmt env i e db = Inr (u, db')" for u db'
  proof
    have db': "d_job_id ` set (dead_letters db') = insert i (d_job_id ` set (dead_letters db))"
      "\<And>k. lookup_job k db' = (if k = i then map_option (fail_row env e) (lookup_job i db) else lookup_job k db)"
    proof -
      have "db' = log_rows env (\<lambda>_. EventFailed) '''' e [fail_row env e r]
          ((update_jobs (\<lambda>r. r_id r = i) (fail_row env e) db)\<lparr>dead_letters := dead_letters db @
              [mk_dead_letter (pg_now env) e (next_dead_letter_id db, fail_row env e r)],
            next_dead_letter_id := next_dead_letter_id db + 1\<rparr>)"
        using that running_no_letter [OF assms(2-4)] by (simp add: fail_stmt_eq [OF assms(1)] assms(3))
      then show "d_job_id ` set (dead_letters db') = insert i (d_job_id ` set (dead_letters db))"
        "\<And>k. lookup_job k db' = (if k = i then map_option (fail_row env e) (lookup_job i db) else lookup_job k db)"
        using lookup_job_id [OF assms(3)] by (simp_all add: lookup_update_id fail_upd.key_upd)
    qed
    show "jobs_inv db'"
      using assms(2,3) disc unfolding jobs_inv_def db'
      by (auto simp: row_disc_updates split: if_splits) (simp_all add: fail_row_def)
    show "keeps_live now {i} db db'" by (rule keeps_live_update [OF db'(2) _ assms(3,4)]) simp
  qed
  then show ?thesis unfolding Fail_def good_change_def [symmetric] by (intro run_stmt_good assms)
qed

lemma reap_keeps:
  assumes "wf_db db" "jobs_inv db"
  shows "good_change (pg_now env) {} db (snd (ReapExpiredLeases env db))"
proof -
  have "jobs_inv db' \<and> keeps_live (pg_now env) {} db db'" if "reap_stmt env db = Inr (u, db')" for u db'
  proof
    let ?f = "\<lambda>r. if lease_expired env r then reap_row env r else r"
    have db': "d_job_id ` set (dead_letters db') = d_job_id ` set (dead_letters db) \<union>
        r_id ` {r \<in> set (jobs db). lease_expired env r \<and> exhausted r}"
      "\<And>k. lookup_job k db' = map_option ?f (lookup_job k db)"
    proof -
      let ?reaped = "returning env (lease_expired env) (reap_row env) db"
      let ?dead = "filter (\<lambda>r. r_status r = StatusFailed) ?reaped"
      have "db' = log_rows env reap_event_type '''' reap_last_error ?reaped
          ((update_jobs (lease_expired env) (reap_row env) db)\<lparr>
             dead_letters := dead_letters db @ new_letters env reap_last_error ?dead (next_dead_letter_id db),
             next_dead_letter_id := next_dead_letter_id db + int (length ?dead)\<rparr>)"
        using that unfolding reap_stmt_eq [OF assms(1)] Let_def by (simp split: if_splits)
      then show "d_job_id ` set (dead_letters db') = d_job_id ` set (dead_letters db) \<union>
          r_id ` {r \<in> set (jobs db). lease_expired env r \<and> exhausted r}"
        "\<And>k. lookup_job k db' = map_option ?f (lookup_job k db)"
        by (simp_all add: lookup_update_jobs image_Un reap_dead_ids del: set_filter)
    qed
    have same: "r = q" if "lookup_job k db = Some r" "q \<in> set (jobs db)" "r_id q = k" for k r q
      using that lookup_job_id [OF that(1)] assms(1) by (auto simp: wf_db_def jobs_ok_def intro: same_id_same_row)
    show "jobs_inv db'"
      unfolding jobs_inv_def
    proof (intro allI impI)
      fix k r' assume "lookup_job k db' = Some r'"
      then obtain r where r: "lookup_job k db = Some r" "r' = ?f r" by (auto simp: db')
      with assms(2) have disc: "row_disc r" "k \<in> d_job_id ` set (dead_letters db) \<longrightarrow> r_status r = StatusFailed"
        by (auto simp: jobs_inv_def)
      have "row_disc r'" using disc(1) by (simp add: r(2) row_disc_updates)
      moreover have "k \<in> d_job_id ` set (dead_letters db') \<longrightarrow> r_status r' = StatusFailed"
        using disc(2) same [OF r(1)] by (auto simp: db' r(2) lease_expired_def)
      ultimately show "row_disc r' \<and> (k \<in> d_job_id ` set (dead_letters db') \<longrightarrow> r_status r' = StatusFailed)" ..
    qed
    show "keeps_live (pg_now env) {} db db'"
      by (auto simp: keeps_live_def db' reap_row_def) (auto simp: lease_expired_def)
  qed
  then show ?thesis unfolding ReapExpiredLeases_def good_change_def [symmetric] by (intro run_stmt_good assms)
qed


lemma claim_change:
  assumes "wf_db db" "jobs_inv db"
  shows "good_change now {} db (snd (Claim env w lease limit db))"
proof -
  have "good_change now {} db db'" if C: "claim_stmt env w l limit db = Inr (js, db')" for l js db'
  proof -
    let ?p = "\<lambda>r. r_id r \<in> r_id ` set (claim_select env limit db)"
    obtain iv where "db' = log_rows env (\<lambda>_. EventClaimed) w '''' (returning env ?p (claim_row env w iv) db)
        (update_jobs ?p (claim_row env w iv) db)"
      using C by (auto simp: claim_stmt_def Let_def split: option.splits if_splits)
    then have db': "dead_letters db' = dead_letters db"
      "\<And>k. lookup_job k db' = map_option (\<lambda>r. if ?p r then claim_row env w iv r else r) (lookup_job k db)"
      by (simp_all add: lookup_update_jobs)
    have queued: "r_status r = StatusQueued" if "lookup_job k db = Some r" "?p r" for k r
      using claim_picked(2) [of db r env limit] lookup_job_id [OF that(1)] that(2) assms(1)
      by (simp add: wf_db_def claimable_def)
    show ?thesis
      unfolding good_change_def
    proof
      show "jobs_inv db'"
        unfolding jobs_inv_def db'
      proof (intro allI impI)
        fix k r' assume "map_option (\<lambda>r. if ?p r then claim_row env w iv r else r) (lookup_job k db) = Some r'"
        then obtain r where r: "lookup_job k db = Some r" "r' = (if ?p r then claim_row env w iv r else r)" by auto
        with assms(2) have inv: "row_disc r" "k \<in> d_job_id ` set (dead_letters db) \<longrightarrow> r_status r = StatusFailed"
          unfolding jobs_inv_def by blast+
        show "row_disc r' \<and> (k \<in> d_job_id ` set (dead_letters db) \<longrightarrow> r_status r' = StatusFailed)"
          using inv queued [OF r(1)] by (auto simp: r(2) row_disc_def claim_row_def)
      qed
      show "keeps_live now {} db db'"
        using queued by (force simp: keeps_live_def db' claim_row_def)
    qed
  qed
  then show ?thesis unfolding Claim_def by (intro run_stmt_good assms)
qed

lemma claimed_row:
  assumes "wf_db db" "Claim env w lease limit db = (Inr js, db')" "j \<in> set js"
  obtains r iv where "lookup_job (j_id j) db = Some r" "r_status r = StatusQueued"
    "lookup_job (j_id j) db' = Some (claim_row env w iv r)" "j = to_job (claim_row env w iv r)"
proof -
  let ?p = "\<lambda>r. r_id r \<in> r_id ` set (claim_select env limit db)"
  from assms(2) obtain iv where js: "js = map to_job (returning env ?p (claim_row env w iv) db)"
    and db': "db' = log_rows env (\<lambda>_. EventClaimed) w '''' (returning env ?p (claim_row env w iv) db)
                (update_jobs ?p (claim_row env w iv) db)"
    by (rule claim_SuccessD)
  have ok: "jobs_ok db" using assms(1) by (simp add: wf_db_def)
  from assms(3) obtain r where r: "r \<in> set (jobs db)" "?p r" "j = to_job (claim_row env w iv r)"
    by (auto simp: js returning_def)
  then have look: "lookup_job (j_id j) db = Some r"
    using ok by (simp add: lookup_job_def find_key_Some_iff jobs_ok_def)
  then have "lookup_job (j_id j) db' = Some (claim_row env w iv r)"
    using r(2) by (simp add: db' lookup_update_jobs)
  with that [OF look _ this r(3)] claim_picked(2) [OF ok r(1,2)] show ?thesis by (simp add: claimable_def)
qed

lemma submit_change:
  assumes "wf_db db" "jobs_inv db"
  shows "good_change now {} db (snd (Enqueue env t p tc db))"
proof -
  have "good_change now {} db db'" if "enqueue_stmt env t p tc db = Inr (i, db')" for i db'
  proof -
    from that obtain p' where rows: "jobs db' = jobs db @ [new_job_row env (next_job_id db) t p' tc]"
      and letters: "dead_letters db' = dead_letters db"
      by (auto simp: enqueue_stmt_def Let_def split: option.splits)
    let ?r = "new_job_row env (next_job_id db) t p' tc"
    have new: "lookup_job (next_job_id db) db = None"
      using assms(1) by (auto simp: lookup_job_def find_None_iff wf_db_def jobs_ok_def)
    have look: "lookup_job k db' = (if k = next_job_id db then Some ?r else lookup_job k db)" for k
      using new by (auto simp: lookup_job_def rows find_append new_job_row_def split: option.splits)
    have "next_job_id db \<notin> d_job_id ` set (dead_letters db)"
      using assms(1) by (force simp: wf_db_def letters_ok_def jobs_ok_def)
    then show ?thesis
      using assms(2) new unfolding good_change_def jobs_inv_def keeps_live_def look letters
      by (auto simp: row_disc_def new_job_row_def)
  qed
  then show ?thesis unfolding Enqueue_def by (intro run_stmt_good assms)
qed

lemma ship_change: "jobs_inv db \<Longrightarrow> good_change now {} db (snd (MarkEventsShipped env ids db))"
proof -
  assume inv: "jobs_inv db"
  have "jobs (snd (MarkEventsShipped env ids db)) = jobs db" "dead_letters (snd (MarkEventsShipped env ids db)) = dead_letters db"
    by (simp_all add: MarkEventsShipped_def run_stmt_def split: fault.splits)
  then show ?thesis using inv by (simp add: good_change_def jobs_inv_def keeps_live_def lookup_job_def)
qed

lemma report_change:
  assumes "wf_db db" "jobs_inv db" "lookup_job (j_id j) db = Some r" "r_status r = StatusRunning"
    and "r_attempts r = j_attempts j" "r_max_attempts r = j_max_attempts j"
    and "pe_meanwhile pe = []" "process w h pe j s = Some s'" "ws_db s = db"
  shows "good_change now {j_id j} db (ws_db s')"
proof -
  obtain err wd where E: "execute h j (ws_world s) = (err, wd)" by (cases "execute h j (ws_world s)")
  have db: "report_db pe s = db" using assms(7,9) by simp
  show ?thesis
  proof (cases err)
    case None
    from process_success(1) [OF E [unfolded None] assms(8)] show ?thesis
      using report_complete [OF assms(2-4)] by (simp add: db)
  next
    case (Some e)
    show ?thesis
    proof (cases "j_max_attempts j \<le> j_attempts j")
      case True
      from process_exhausted(1) [OF E [unfolded Some] assms(8) True] show ?thesis
        using report_fail [OF assms(1-4)] by (simp add: db)
    next
      case False
      then have lt: "j_attempts j < j_max_attempts j" by simp
      obtain d where "calculateRetryDelay (pe_rand pe) w j = Some d"
        and R: "ws_db s' = snd (Retry (pe_pg pe) (j_id j) (pe_now_ns pe + sint d) e (report_db pe s))"
        and "ws_metrics s' = inc_retries (j_type j) (observe_job (j_type j) (pe_exec_ns pe) (ws_metrics s))" "ws_world s' = wd"
        by (rule process_retry [OF E [unfolded Some] assms(8) lt])
      show ?thesis unfolding R db by (rule report_retry [OF assms(2-4)]) (use assms(5,6) lt in simp)
    qed
  qed
qed


lemma sys_inv_db:
  assumes "sys_inv s" "wf_db db'" "good_change (sy_now s) {} (sy_db s) db'"
  shows "sys_inv (s\<lparr>sy_db := db'\<rparr>)"
proof -
  have "sys_inv (s\<lparr>sy_db := db', sy_flight := sy_flight s\<rparr>)"
    by (rule sys_inv_step [where X = "{}"]) (use assms in \<open>auto simp: good_change_def sys_inv_def\<close>)
  then show ?thesis by simp
qed

lemma exec_claim_inv:
  assumes "sys_inv s" "Claim env w lease 1 (sy_db s) = (res, db')"
  shows "sys_inv (s\<lparr>sy_db := db', sy_flight := map (\<lambda>j. (j, lease_end (j_id j) db'))
      (case res of Inl _ \<Rightarrow> [] | Inr js \<Rightarrow> js) @ sy_flight s\<rparr>)"
proof -
  have inv: "wf_db (sy_db s)" "jobs_inv (sy_db s)" using assms(1) by (simp_all add: sys_inv_def)
  have "good_change (sy_now s) {} (sy_db s) db'" "wf_db db'"
    using claim_change [OF inv, of "sy_now s" env w lease 1] wf_claim [OF inv(1), of env w lease 1] assms(2) by simp_all
  from sys_inv_db [OF assms(1) this(2,1)] have old: "sys_inv (s\<lparr>sy_db := db'\<rparr>)" .
  show ?thesis
  proof (cases res)
    case (Inl e)
    with old show ?thesis by simp
  next
    case (Inr js)
    note C = assms(2) [unfolded Inr]
    have new: "claim_ok (sy_now s) db' (j, lease_end (j_id j) db') \<and> claim_key (j, lease_end (j_id j) db') \<notin> claim_key ` set (sy_flight s)"
      if j: "j \<in> set js" for j
    proof -
      from inv(1) C j obtain r iv where r: "lookup_job (j_id j) (sy_db s) = Some r"
        "lookup_job (j_id j) db' = Some (claim_row env w iv r)" "j = to_job (claim_row env w iv r)"
        by (rule claimed_row)
      have "j_attempts j = r_attempts r + 1" by (subst r(3)) (simp add: to_job_def claim_row_def)
      moreover have "j_attempts (fst f) \<le> r_attempts r" if "f \<in> set (sy_flight s)" "j_id (fst f) = j_id j" for f
        using assms(1) that r(1) by (auto simp: sys_inv_def claim_ok_def)
      ultimately have "claim_key (j, lease_end (j_id j) db') \<notin> claim_key ` set (sy_flight s)"
        by (force simp: claim_key_def)
      moreover have "claim_ok (sy_now s) db' (j, lease_end (j_id j) db')"
        using r(2) by (simp add: claim_ok_def lease_end_def) (simp add: r(3) to_job_def claim_row_def)
      ultimately show ?thesis by blast
    qed
    have "distinct (map j_id js)" using claimed_id_set(2) [OF inv(1) C] .
    then have "distinct (map (claim_key \<circ> (\<lambda>j. (j, lease_end (j_id j) db'))) js)"
      by (auto simp: claim_key_def distinct_map inj_on_def)
    moreover have "claim_key ` (\<lambda>j. (j, lease_end (j_id j) db')) ` set js \<inter> claim_key ` set (sy_flight s) = {}"
      using new by blast
    ultimately show ?thesis using old new by (auto simp: sys_inv_def Inr)
  qed
qed

lemma exec_report_inv:
  assumes "sys_inv s" "n < length (sy_flight s)" "sy_now s \<le> snd (sy_flight s ! n)" "pe_meanwhile pe = []"
    and "process w h pe (fst (sy_flight s ! n)) st = Some st'" "ws_db st = sy_db s"
  shows "sys_inv (s\<lparr>sy_db := ws_db st', sy_flight := remove_nth n (sy_flight s)\<rparr>)"
proof -
  let ?j = "fst (sy_flight s ! n)"
  have inv: "wf_db (sy_db s)" "jobs_inv (sy_db s)" "distinct (map claim_key (sy_flight s))"
    using assms(1) by (simp_all add: sys_inv_def)
  have "claim_ok (sy_now s) (sy_db s) (sy_flight s ! n)" using assms(1,2) by (simp add: sys_inv_def)
  then obtain r where r: "lookup_job (j_id ?j) (sy_db s) = Some r" "r_status r = StatusRunning"
    "r_attempts r = j_attempts ?j" "r_max_attempts r = j_max_attempts ?j"
    using assms(3) by (auto simp: claim_ok_def split: prod.splits)
  have "good_change (sy_now s) {j_id ?j} (sy_db s) (ws_db st')"
    by (rule report_change [OF inv(1,2) r assms(4,5,6)])
  moreover have "wf_db (ws_db st')" using inv(1) assms(5,6) by (metis wf_process)
  moreover have "snd f < sy_now s" if f: "f \<in> set (remove_nth n (sy_flight s))" "j_id (fst f) = j_id ?j" for f
  proof (rule ccontr)
    assume "\<not> snd f < sy_now s"
    moreover have "f \<in> set (sy_flight s)" using f(1) set_remove_nth by (metis subsetD)
    then have "claim_ok (sy_now s) (sy_db s) f" using assms(1) by (simp add: sys_inv_def)
    ultimately have "j_attempts (fst f) = r_attempts r"
      using r(1) f(2) by (auto simp: claim_ok_def split: prod.splits)
    then have "claim_key f = claim_key (sy_flight s ! n)" using r(3) f(2) by (simp add: claim_key_def)
    with remove_nth_other [OF inv(3) assms(2) f(1)] show False by simp
  qed
  ultimately show ?thesis
    using assms(1) inv(3) by (intro sys_inv_step [where X = "{j_id ?j}"]) (auto simp: good_change_def set_remove_nth distinct_remove_nth)
qed

lemma sys_exec_inv: "sys_exec True a s = Some s' \<Longrightarrow> sys_inv s \<Longrightarrow> sys_inv s'"
proof (induction a arbitrary: s')
  case (ASubmit env t p tc)
  then show ?case
    using sys_inv_db [OF _ wf_store_calls(5) submit_change] by (auto simp: sys_inv_def [of s])
next
  case (AClaim env w lease)
  then show ?case using exec_claim_inv [of s "env\<lparr>pg_now := sy_now s\<rparr>" w lease] by (auto split: prod.splits)
next
  case (AReport n w res pe)
  then show ?case
    by (auto split: if_splits intro!: exec_report_inv simp: worker_state_def)
next
  case (ACrash n)
  have "sys_inv (s\<lparr>sy_db := sy_db s, sy_flight := remove_nth n (sy_flight s)\<rparr>)"
    by (rule sys_inv_step [OF ACrash.prems(2), where X = "{}"])
       (use ACrash.prems(2) in \<open>auto simp: sys_inv_def set_remove_nth distinct_remove_nth\<close>)
  with ACrash show ?case by simp
next
  case (AReap env)
  then show ?case
    using sys_inv_db [OF _ wf_store_calls(4)] reap_keeps [of "sy_db s" "env\<lparr>pg_now := sy_now s\<rparr>"] by (auto simp: sys_inv_def [of s])
next
  case (AShip env ids)
  then show ?case
    using sys_inv_db [OF _ wf_mark_shipped ship_change] by (auto simp: sys_inv_def [of s])
next
  case (ATick d)
  then show ?case by (fastforce simp: sys_inv_def claim_ok_def)
qed

interpretation timely: step_invariant "sys_step True" sys_inv
  by unfold_locales (auto elim: sys_stepE intro: sys_exec_inv)

lemma sys_inv_init: "sys_inv sys_init"
  by (simp add: sys_inv_def sys_init_def wf_empty_db jobs_inv_def) (simp add: empty_db_def lookup_job_def)


lemma sys_exec_change:
  assumes "sys_exec True a s = Some s'" "sys_inv s"
  shows "\<exists>X. keeps_live (sy_now s) X (sy_db s) (sy_db s')"
proof -
  have inv: "wf_db (sy_db s)" "jobs_inv (sy_db s)" using assms(2) by (simp_all add: sys_inv_def)
  show ?thesis
  proof (cases a)
    case (ASubmit env t p tc)
    with assms(1) submit_change [OF inv, of "sy_now s" "env\<lparr>pg_now := sy_now s\<rparr>" t p tc] show ?thesis
      by (auto simp: good_change_def)
  next
    case (AClaim env w lease)
    with assms(1) claim_change [OF inv, of "sy_now s" "env\<lparr>pg_now := sy_now s\<rparr>" w lease 1] show ?thesis
      by (auto simp: good_change_def split: prod.splits)
  next
    case (AReport n w res pe)
    let ?f = "sy_flight s ! n"
    from AReport assms(1) have n: "n < length (sy_flight s)" "sy_now s \<le> snd ?f" by (auto split: if_splits)
    with AReport assms(1) obtain st' where P: "process w (\<lambda>_ _. (res, ()))
        (pe\<lparr>pe_meanwhile := [], pe_pg := (pe_pg pe)\<lparr>pg_now := sy_now s\<rparr>\<rparr>) (fst ?f) (worker_state (sy_db s)) = Some st'"
      and s': "sy_db s' = ws_db st'" by auto
    have "claim_ok (sy_now s) (sy_db s) ?f" using assms(2) n(1) by (simp add: sys_inv_def)
    then obtain r where r: "lookup_job (j_id (fst ?f)) (sy_db s) = Some r" "r_status r = StatusRunning"
      "r_attempts r = j_attempts (fst ?f)" "r_max_attempts r = j_max_attempts (fst ?f)"
      using n(2) by (auto simp: claim_ok_def split: prod.splits)
    have "good_change (sy_now s) {j_id (fst ?f)} (sy_db s) (ws_db st')"
      by (rule report_change [OF inv r _ P]) (simp_all add: worker_state_def)
    then show ?thesis by (auto simp: s' good_change_def)
  next
    case (AReap env)
    with assms(1) reap_keeps [OF inv, of "env\<lparr>pg_now := sy_now s\<rparr>"] show ?thesis by (auto simp: good_change_def)
  next
    case (AShip env ids)
    with assms(1) ship_change [OF inv(2), of "sy_now s" env ids] show ?thesis by (auto simp: good_change_def)
  qed (use assms(1) in auto)
qed

text \<open>No expired lease is on a job with a dead letter, so a pass of the reaper meets no conflict.\<close>

lemma reap_stmt_succeeds:
  assumes "wf_db db" "jobs_inv db"
  obtains c db' where "reap_stmt env db = Inr (c, db')"
    "jobs db' = sql_update (lease_expired env) (reap_row env) (jobs db)"
    "job_events db' = job_events db @ new_events env reap_event_type '''' reap_last_error
       (returning env (lease_expired env) (reap_row env) db) (next_event_id db)"
proof -
  have "r_id r \<notin> d_job_id ` set (dead_letters db)" if "r \<in> set (jobs db)" "lease_expired env r" for r
    using that assms(1) by (intro running_no_letter [OF assms(2) job_lookup]) (simp_all add: lease_expired_def wf_db_def)
  with that show thesis unfolding reap_stmt_eq [OF assms(1)] Let_def by auto
qed

section \<open>What timely workers guarantee\<close>

text \<open>
  C3. When every worker reports before its lease ends, in every reachable state of the queue no job
  has been executed more often than it is allowed to, every job that still waits has an attempt
  left, and the jobs with a dead letter are exactly the failed ones.
\<close>

theorem timely_queue_discipline:
  assumes "(sys_step True)\<^sup>*\<^sup>* sys_init s" "r \<in> set (jobs (sy_db s))"
  shows "r_attempts r \<le> r_max_attempts r \<and> (r_status r = StatusQueued \<longrightarrow> r_attempts r < r_max_attempts r) \<and>
     (r_status r = StatusFailed \<longleftrightarrow> r_id r \<in> d_job_id ` set (dead_letters (sy_db s)))"
proof -
  have inv: "sys_inv s" using timely.reachable_inv [OF assms(1) sys_inv_init] .
  then have "lookup_job (r_id r) (sy_db s) = Some r"
    using assms(2) by (simp add: sys_inv_def wf_db_def jobs_ok_def lookup_job_def find_key_Some_iff)
  with inv assms(2) show ?thesis
    unfolding sys_inv_def jobs_inv_def row_disc_def wf_db_def letters_ok_def by blast
qed

text \<open>
  C30. When every worker reports before its lease ends, a finished job is finished for good: no later
  step, by anyone, changes the row of a completed or failed job.
\<close>

theorem timely_final_states_are_final:
  assumes "(sys_step True)\<^sup>*\<^sup>* sys_init s" "sys_step True s s'"
    and "lookup_job i (sy_db s) = Some r" "r_status r = StatusCompleted \<or> r_status r = StatusFailed"
  shows "lookup_job i (sy_db s') = Some r"
proof -
  have inv: "sys_inv s" using timely.reachable_inv [OF assms(1) sys_inv_init] .
  from assms(2) obtain a where "sys_exec True a s = Some s'" by (rule sys_stepE)
  from sys_exec_change [OF this inv] assms(3,4) show ?thesis unfolding keeps_live_def by fastforce
qed

text \<open>
  When every worker reports before its lease ends, the reaper is never blocked: in every
  reachable state a pass that reaches the database succeeds and leaves no expired lease.
\<close>

theorem timely_reaper_succeeds:
  assumes "(sys_step True)\<^sup>*\<^sup>* sys_init s" "pg_fault env = NoFault" "pg_now env = sy_now s"
  shows "\<exists>c db'. ReapExpiredLeases env (sy_db s) = (Inr c, db') \<and> (\<forall>r \<in> set (jobs db'). \<not> lease_expired env r)"
proof -
  have inv: "wf_db (sy_db s)" "jobs_inv (sy_db s)"
    using timely.reachable_inv [OF assms(1) sys_inv_init] by (simp_all add: sys_inv_def)
  obtain c db' where S: "reap_stmt env (sy_db s) = Inr (c, db')"
    and rows: "jobs db' = sql_update (lease_expired env) (reap_row env) (jobs (sy_db s))"
    by (rule reap_stmt_succeeds [OF inv])
  have "ReapExpiredLeases env (sy_db s) = (Inr c, db')"
    using S assms(2) by (simp add: ReapExpiredLeases_def run_stmt_def)
  moreover have "\<forall>r \<in> set (jobs db'). \<not> lease_expired env r"
    unfolding rows by (auto simp: set_sql_update) (auto simp: lease_expired_def split: if_splits)
  ultimately show ?thesis by blast
qed

section \<open>What a late report breaks\<close>

fun sys_run :: "bool \<Rightarrow> sys_action list \<Rightarrow> sys \<Rightarrow> sys option" where
  "sys_run timely [] s = Some s"
| "sys_run timely (a # as) s = (case sys_exec timely a s of None \<Rightarrow> None | Some s' \<Rightarrow> sys_run timely as s')"

lemma sys_run_steps: "sys_run timely as s = Some s' \<Longrightarrow> (sys_step timely)\<^sup>*\<^sup>* s s'"
  by (induction as arbitrary: s) (auto intro: sys_act converse_rtranclp_into_rtranclp split: option.splits)


text \<open>
  A worker claims a job and stalls; its lease ends, the reaper hands the job to another worker,
  whose attempts use up the limit so that the job fails; then the stalled worker reports an error
  of the first attempt, and a third claim follows.
\<close>

definition zombie_trace :: "sys_action list" where
  "zombie_trace =
     (let env = sample_env 0; claim = AClaim env ''w'' sample_lease;
          err = AReport 0 sample_worker (HErr ''boom'') (sample_proc 0)
      in [ASubmit env ''a'' ''{}'' '''', claim, ATick 31000000, AReap env,
          claim, err, claim, err, claim, err, claim, err, err, claim, ATick 31000000])"

definition zombie_state :: sys where
  "zombie_state = (case sys_run False zombie_trace sys_init of None \<Rightarrow> sys_init | Some s \<Rightarrow> s)"


lemma zombie_evaluates:
  "map_option sy_now (sys_run False zombie_trace sys_init) = Some 62000000"
  "map (\<lambda>r. (r_id r, r_status r, r_attempts r, r_max_attempts r, r_lease_expires_at r)) (jobs (sy_db zombie_state)) =
     [(1, StatusRunning, 6, 5, Some 61000000)]"
  "map d_job_id (dead_letters (sy_db zombie_state)) = [1]" "sy_now zombie_state = 62000000"
  by code_simp+

lemma zombie_reachable: "(sys_step False)\<^sup>*\<^sup>* sys_init zombie_state"
proof -
  from zombie_evaluates(1) obtain s where "sys_run False zombie_trace sys_init = Some s" by auto
  then show ?thesis by (simp add: zombie_state_def sys_run_steps)
qed

lemma wf_sys_exec: "sys_exec timely a s = Some s' \<Longrightarrow> wf_db (sy_db s) \<Longrightarrow> wf_db (sy_db s')"
proof (induction a arbitrary: s')
  case (AClaim env w lease)
  then show ?case
    using wf_claim [of "sy_db s" "env\<lparr>pg_now := sy_now s\<rparr>" w lease 1] by (auto split: prod.splits)
next
  case (AReport n w res pe)
  then have "wf_db (ws_db (worker_state (sy_db s)))" by (simp add: worker_state_def)
  with AReport show ?case by (auto split: if_splits dest: wf_process)
qed (auto simp: wf_store_calls wf_mark_shipped)

interpretation any_time: step_invariant "sys_step timely" "\<lambda>s. wf_db (sy_db s)" for timely
  by unfold_locales (auto elim: sys_stepE intro: wf_sys_exec)


section \<open>The hypotheses at a concrete run\<close>

text \<open>One job fails all of its five attempts in time, another one is completed.\<close>

definition timely_trace :: "sys_action list" where
  "timely_trace =
     (let env = sample_env 0; claim = AClaim env ''w'' sample_lease;
          err = AReport 0 sample_worker (HErr ''boom'') (sample_proc 0)
      in [ASubmit env ''a'' ''{}'' '''', claim, err, claim, err, claim, err, claim, err, claim, err,
          ASubmit env ''b'' ''{}'' '''', claim, AReport 0 sample_worker HNil (sample_proc 0)])"

definition timely_state :: sys where
  "timely_state = (case sys_run True timely_trace sys_init of None \<Rightarrow> sys_init | Some s \<Rightarrow> s)"

lemma timely_evaluates:
  "sys_run True timely_trace sys_init \<noteq> None"
  "map (\<lambda>r. (r_id r, r_status r, r_attempts r)) (jobs (sy_db timely_state)) = [(1, StatusFailed, 5), (2, StatusCompleted, 1)]"
  by code_simp+

lemma timely_reachable: "(sys_step True)\<^sup>*\<^sup>* sys_init timely_state"
proof -
  from timely_evaluates(1) obtain s where "sys_run True timely_trace sys_init = Some s" by auto
  then show ?thesis by (simp add: timely_state_def sys_run_steps)
qed

lemma timely_rows:
  obtains r q where "jobs (sy_db timely_state) = [r, q]" "r_id r = 1" "r_status r = StatusFailed" "r_id q = 2" "r_status q = StatusCompleted"
  using timely_evaluates(2) by (auto simp: map_eq_Cons_conv)

theorem timely_queue_discipline_witness:
  "\<exists>r \<in> set (jobs (sy_db timely_state)). r_status r = StatusFailed \<and> r_id r \<in> d_job_id ` set (dead_letters (sy_db timely_state))"
proof -
  obtain r q where r: "jobs (sy_db timely_state) = [r, q]" "r_status r = StatusFailed"
    by (rule timely_rows) blast
  then have "r \<in> set (jobs (sy_db timely_state))" by simp
  with timely_queue_discipline [OF timely_reachable this] r(2) show ?thesis by blast
qed

theorem timely_final_states_are_final_witness:
  "map_option r_status (lookup_job 2 (snd (Enqueue ((sample_env 0)\<lparr>pg_now := sy_now timely_state\<rparr>) ''c'' ''{}'' '''' (sy_db timely_state)))) = Some StatusCompleted"
proof -
  obtain r q where r: "jobs (sy_db timely_state) = [r, q]" "r_id r = 1" "r_id q = 2" "r_status q = StatusCompleted"
    by (rule timely_rows) blast
  then have q: "lookup_job 2 (sy_db timely_state) = Some q" by (simp add: lookup_job_def)
  have "sys_step True timely_state (timely_state\<lparr>sy_db :=
      snd (Enqueue ((sample_env 0)\<lparr>pg_now := sy_now timely_state\<rparr>) ''c'' ''{}'' '''' (sy_db timely_state))\<rparr>)"
    by (rule sys_act [where a = "ASubmit (sample_env 0) ''c'' ''{}'' ''''"]) simp
  from timely_final_states_are_final [OF timely_reachable this q] r(4) show ?thesis by simp
qed

theorem timely_reaper_succeeds_witness:
  "\<exists>c db'. ReapExpiredLeases (sample_env (sy_now timely_state)) (sy_db timely_state) = (Inr c, db')"
proof -
  have "pg_now (sample_env (sy_now timely_state)) = sy_now timely_state" by (simp add: sample_env_def)
  from timely_reaper_succeeds [OF timely_reachable sample_env_NoFault this] show ?thesis by blast
qed

end
