(* ===== verification/Lifecycle.thy ===== *)
theory Lifecycle
  imports System
begin

text \<open>
  The life of a job as the log tells it, in a queue whose workers report in time: enqueued once,
  claimed only while it is queued, and left by a report or by the reaper only while it is running.
  It follows that the log says exactly how far each job has come, that it cannot grow without
  submissions, and that a queue whose reaper and workers keep polling finishes every job.
\<close>

section \<open>Logs that follow the life of a job\<close>

fun follows :: "event_type \<Rightarrow> status option \<Rightarrow> bool" where
  "follows EventEnqueued st = (st = None)"
| "follows EventClaimed st = (st = Some StatusQueued)"
| "follows _ st = (st = Some StatusRunning)"

fun life_from :: "(int \<Rightarrow> job_view option) \<Rightarrow> 'a event_scheme list \<Rightarrow> bool" where
  "life_from v [] = True"
| "life_from v (e # es) = (follows (e_event_type e) (map_option fst (v (e_job_id e))) \<and> life_from (apply_event e v) es)"

definition life_log :: "db \<Rightarrow> bool" where
  "life_log db \<longleftrightarrow> life_from Map.empty (job_events db)"

definition status_of :: "int \<Rightarrow> db \<Rightarrow> status option" where
  "status_of i db = map_option r_status (lookup_job i db)"

lemma life_from_append:
  "life_from v (es @ fs) \<longleftrightarrow> life_from v es \<and> life_from (fold apply_event es v) fs"
  by (induction es arbitrary: v) simp_all

lemma life_from_ship:
  "life_from v (sql_update p (\<lambda>e. e\<lparr>e_shipped_at := t\<rparr>) es) = life_from v es"
  by (induction es arbitrary: v) (simp_all add: apply_event_ship)

lemma life_new_events:
  assumes "distinct (map r_id rows)" "\<forall>r \<in> set rows. follows (ty r) (map_option fst (v (r_id r)))"
  shows "life_from v (new_events env ty w m rows k)"
  using assms
proof (induction rows arbitrary: v k)
  case (Cons r rows)
  let ?e = "mk_event (pg_now env) (k, r, ty r, w, m)"
  have "\<forall>q \<in> set rows. apply_event ?e v (r_id q) = v (r_id q)"
    using Cons.prems(1) by (auto simp: apply_event_def image_iff)
  then show ?case using Cons by simp
qed simp

lemma life_log_append:
  assumes "wf_db db" "life_log db" "distinct (map r_id rows)"
    and "job_events db' = job_events db @ new_events env ty w m rows k"
    and "\<And>r. r \<in> set rows \<Longrightarrow> follows (ty r) (status_of (r_id r) db)"
  shows "life_log db'"
proof -
  have "fold apply_event (job_events db) Map.empty = table_view db"
    using assms(1) by (simp add: wf_db_def log_ok_def replay_def)
  moreover have "map_option fst (table_view db i) = status_of i db" for i
    by (cases "lookup_job i db") (simp_all add: table_view_def status_of_def row_view_def)
  ultimately show ?thesis
    using assms(2-5) by (simp add: life_log_def life_from_append life_new_events)
qed

text \<open>A statement that logs the rows it updates keeps the log when its event may follow on each.\<close>

context logged_update
begin

lemma life_log_update:
  assumes "wf_db db" "life_log db"
    and "job_events db' = job_events db @ new_events env ty w m' (returning env p f db) k"
    and "\<And>r. r \<in> set (jobs db) \<Longrightarrow> p r \<Longrightarrow> follows (ty (f r)) (Some (r_status r))"
  shows "life_log db'"
proof (rule life_log_append [OF assms(1,2) _ assms(3)])
  have ok: "jobs_ok db" using assms(1) by (simp add: wf_db_def)
  then show "distinct (map r_id (returning env p f db))" by (rule distinct_returning_ids)
  fix r assume "r \<in> set (returning env p f db)"
  then obtain q where q: "q \<in> set (jobs db)" "p q" "r = f q" by (auto simp: returning_def)
  then have "lookup_job (r_id r) db = Some q"
    using ok by (simp add: key_upd lookup_job_def find_key_Some_iff jobs_ok_def)
  with q assms(4) show "follows (ty r) (status_of (r_id r) db)" by (simp add: status_of_def)
qed

lemma life_log_stmt:
  assumes "wf_db db" "life_log db" "\<And>r. r \<in> set (jobs db) \<Longrightarrow> p r \<Longrightarrow> follows (ty (f r)) (Some (r_status r))"
    and "\<And>a db'. stmt db = Inr (a, db') \<Longrightarrow> jobs db' = sql_update p f (jobs db) \<and>
      job_events db' = job_events db @ new_events env ty w m' (returning env p f db) (next_event_id db)"
  shows "life_log (snd (run_stmt env' what stmt db))"
  by (rule run_stmt_cases [where P = life_log, OF assms(2)]) (rule life_log_update [OF assms(1,2) conjunct2 [OF assms(4)] assms(3)])

end

section \<open>A timely queue keeps such a log\<close>

lemma life_enqueue:
  assumes "wf_db db" "life_log db"
  shows "life_log (snd (Enqueue env t p c db))"
  unfolding Enqueue_def
proof (rule run_stmt_cases [where P = life_log, OF assms(2)])
  fix i db' assume "enqueue_stmt env t p c db = Inr (i, db')"
  then obtain p' where "job_events db' = job_events db @
      new_events env (\<lambda>_. EventEnqueued) '''' '''' [new_job_row env (next_job_id db) t p' c] (next_event_id db)"
    by (auto simp: enqueue_stmt_def Let_def split: option.splits)
  then show "life_log db'"
    by (rule life_log_append [OF assms, rotated])
       (simp_all add: new_job_row_def status_of_def fresh_id_no_events [OF assms(1)])
qed

lemma life_claim:
  assumes "wf_db db" "life_log db"
  shows "life_log (snd (Claim env w lease limit db))"
proof (rule claim_by_interval [where P = life_log, OF assms(2)])
  fix iv assume iv: "pg_interval env (duration_String (sint lease)) = Some iv"
  have "follows EventClaimed (Some (r_status r))" if "r \<in> set (jobs db)" "r_id r \<in> r_id ` set (claim_select env limit db)" for r
    using claim_picked(2) [OF _ that] assms(1) by (simp add: claimable_def wf_db_def)
  then show "life_log (snd (Claim env w lease limit db))"
    unfolding Claim_def by (rule claim_upd.life_log_stmt [OF assms _ claim_logged [OF iv]])
qed

lemma life_reap:
  assumes "wf_db db" "life_log db"
  shows "life_log (snd (ReapExpiredLeases env db))"
  unfolding ReapExpiredLeases_def
  by (rule reap_upd.life_log_stmt [OF assms _ reap_logged]) (auto simp: lease_expired_def reap_event_type_def)

text \<open>The three reports write to one row, which must be running.\<close>

lemma life_reports:
  assumes "wf_db db" "life_log db" "lookup_job i db = Some r" "r_status r = StatusRunning"
  shows "life_log (snd (Complete env i db))" "life_log (snd (Retry env i at e db))" "life_log (snd (Fail env i e db))"
proof -
  have one: "r_status q = StatusRunning" if "q \<in> set (jobs db)" "r_id q = i" for q
    using that assms(3,4) job_lookup [OF _ that(1)] assms(1) by (simp add: wf_db_def)
  show "life_log (snd (Complete env i db))" unfolding Complete_def
    by (rule complete_upd.life_log_stmt [OF assms(1,2) _ complete_logged]) (auto intro: one)
  show "life_log (snd (Retry env i at e db))" unfolding Retry_def
    by (rule retry_upd.life_log_stmt [OF assms(1,2) _ retry_logged]) (auto intro: one)
  show "life_log (snd (Fail env i e db))" unfolding Fail_def
    by (rule fail_upd.life_log_stmt [OF assms(1,2) _ fail_logged]) (auto intro: one)
qed

lemma life_ship: "life_log db \<Longrightarrow> life_log (snd (MarkEventsShipped env ids db))"
  by (auto simp: MarkEventsShipped_def life_log_def life_from_ship intro: run_stmt_cases [where P = life_log, unfolded life_log_def])

text \<open>A report of \<open>process\<close> is one of the three.\<close>

lemma process_report:
  assumes "process w h pe j s = Some s'" "pe_meanwhile pe = []"
  obtains "ws_db s' = snd (Complete (pe_pg pe) (j_id j) (ws_db s))"
    | e where "j_max_attempts j \<le> j_attempts j" "ws_db s' = snd (Fail (pe_pg pe) (j_id j) e (ws_db s))"
    | e at where "j_attempts j < j_max_attempts j" "ws_db s' = snd (Retry (pe_pg pe) (j_id j) at e (ws_db s))"
proof -
  obtain err wd where E: "execute h j (ws_world s) = (err, wd)" by (cases "execute h j (ws_world s)")
  have db: "report_db pe s = ws_db s" using assms(2) by simp
  consider "err = None" | e where "err = Some e" "j_max_attempts j \<le> j_attempts j"
    | e where "err = Some e" "j_attempts j < j_max_attempts j" by (cases err) force+
  then show thesis
  proof cases
    case 1
    with process_success(1) [OF _ assms(1)] E that(1) show ?thesis by (simp add: db)
  next
    case (2 e)
    with process_exhausted(1) [OF _ assms(1)] E that(2) show ?thesis by (simp add: db)
  next
    case (3 e)
    with E that(3) show ?thesis by (auto elim!: process_retry [OF _ assms(1)] simp: db)
  qed
qed

lemma sys_exec_report:
  assumes "sys_exec True (AReport n w res pe) s = Some s'" "sys_inv s"
  obtains st' r where "n < length (sy_flight s)" "lookup_job (j_id (fst (sy_flight s ! n))) (sy_db s) = Some r"
    "r_status r = StatusRunning" "sy_db s' = ws_db st'" "sy_now s' = sy_now s"
    "process w (\<lambda>_ _. (res, ())) (pe\<lparr>pe_meanwhile := [], pe_pg := (pe_pg pe)\<lparr>pg_now := sy_now s\<rparr>\<rparr>)
       (fst (sy_flight s ! n)) (worker_state (sy_db s)) = Some st'"
proof -
  from assms(1) have n: "n < length (sy_flight s)" "sy_now s \<le> snd (sy_flight s ! n)" by (auto split: if_splits)
  have "claim_ok (sy_now s) (sy_db s) (sy_flight s ! n)" using assms(2) n(1) by (simp add: sys_inv_def)
  then obtain r where "lookup_job (j_id (fst (sy_flight s ! n))) (sy_db s) = Some r" "r_status r = StatusRunning"
    using n(2) by (auto simp: claim_ok_def split: prod.splits)
  with that [OF n(1) this] assms(1) n show thesis by auto
qed

lemma sys_exec_life:
  assumes "sys_exec True a s = Some s'" "sys_inv s" "life_log (sy_db s)"
  shows "life_log (sy_db s')"
proof -
  have wf: "wf_db (sy_db s)" using assms(2) by (simp add: sys_inv_def)
  show ?thesis
  proof (cases a)
    case (AReport n w res pe)
    from assms(1) [unfolded AReport] assms(2) show ?thesis
    proof (rule sys_exec_report)
      fix st' r assume r: "lookup_job (j_id (fst (sy_flight s ! n))) (sy_db s) = Some r" "r_status r = StatusRunning"
        and s': "sy_db s' = ws_db st'"
        and P: "process w (\<lambda>_ _. (res, ())) (pe\<lparr>pe_meanwhile := [], pe_pg := (pe_pg pe)\<lparr>pg_now := sy_now s\<rparr>\<rparr>)
          (fst (sy_flight s ! n)) (worker_state (sy_db s)) = Some st'"
      show ?thesis unfolding s' by (rule process_report [OF P]) (simp_all add: worker_state_def life_reports [OF wf assms(3) r])
    qed
  next
    case (AClaim env w lease)
    then have "sy_db s' = snd (Claim (env\<lparr>pg_now := sy_now s\<rparr>) w lease 1 (sy_db s))"
      using assms(1) by (auto split: prod.splits)
    then show ?thesis by (simp add: life_claim wf assms(3))
  qed (use assms(1,3) in \<open>auto simp: life_enqueue wf life_reap life_ship\<close>)
qed

interpretation timely_life: step_invariant "sys_step True" "\<lambda>s. sys_inv s \<and> life_log (sy_db s)"
  by unfold_locales (auto elim!: sys_stepE intro: sys_exec_inv sys_exec_life)

lemma life_reachable:
  assumes "(sys_step True)\<^sup>*\<^sup>* sys_init s"
  shows "sys_inv s" "wf_db (sy_db s)" "jobs_inv (sy_db s)" "life_log (sy_db s)"
proof -
  show "sys_inv s" "life_log (sy_db s)"
    using timely_life.reachable_inv [OF assms] sys_inv_init by (auto simp: sys_init_def life_log_def empty_db_def)
  then show "wf_db (sy_db s)" "jobs_inv (sy_db s)" by (simp_all add: sys_inv_def)
qed

section \<open>The log says how far each job has come\<close>

fun stage :: "job_view option \<Rightarrow> int" where
  "stage None = 0"
| "stage (Some (s, n, e)) = 2 * n + (if s = StatusRunning then 0 else 1)"

definition events_of :: "int \<Rightarrow> 'a event_scheme list \<Rightarrow> 'a event_scheme list" where
  "events_of i es = filter (\<lambda>e. e_job_id e = i) es"

lemma stage_step:
  assumes "legal_event v e" "follows (e_event_type e) (map_option fst (v (e_job_id e)))"
  shows "stage (apply_event e v i) = stage (v i) + (if e_job_id e = i then 1 else 0)"
  using assms
  by (cases "v (e_job_id e)"; cases "e_event_type e") (auto simp: legal_event_def apply_event_def)

lemma stage_counts:
  "legal_from v es \<Longrightarrow> life_from v es \<Longrightarrow>
     stage (fold apply_event es v i) = stage (v i) + int (length (events_of i es))"
  by (induction es arbitrary: v) (simp_all add: events_of_def stage_step)

lemma events_of_row:
  assumes "wf_db db" "life_log db" "r \<in> set (jobs db)"
  shows "int (length (events_of (r_id r) (job_events db))) = stage (Some (row_view r))"
proof -
  have log: "replay (job_events db) = table_view db" using assms(1) by (simp add: wf_db_def log_ok_def)
  have "replay (job_events db) (r_id r) = Some (row_view r)"
    unfolding log using assms(1,3) job_lookup [of db r] by (simp add: wf_db_def table_view_def)
  moreover have "stage (replay (job_events db) (r_id r)) = int (length (events_of (r_id r) (job_events db)))"
    using stage_counts [of Map.empty "job_events db" "r_id r"] assms(1,2)
    by (simp add: replay_def wf_db_def legal_ok_def life_log_def)
  ultimately show ?thesis by simp
qed

lemma int_sum_list: "int (sum_list (map f xs)) = sum_list (map (\<lambda>x. int (f x)) xs)"
  by (induction xs) simp_all

lemma length_by_key:
  assumes "distinct ks" "\<forall>x \<in> set xs. k x \<in> set ks"
  shows "length xs = sum_list (map (\<lambda>i. length (filter (\<lambda>x. k x = i) xs)) ks)"
  using assms(2)
proof (induction xs)
  case (Cons x xs)
  have "sum_list (map (\<lambda>i. length (filter (\<lambda>x. k x = i) (x # xs))) ks) =
      sum_list (map (\<lambda>i. length (filter (\<lambda>x. k x = i) xs) + (if k x = i then 1 else 0)) ks)"
    by (intro arg_cong [where f = sum_list] map_cong) auto
  also have "\<dots> = length xs + sum_list (map (\<lambda>i. if k x = i then 1 else 0) ks)"
    using Cons by (simp add: sum_list_addf)
  also have "sum_list (map (\<lambda>i. if k x = i then 1 else 0) ks) = (1 :: nat)"
    using assms(1) Cons.prems by (simp add: sum_list_distinct_conv_sum_set)
  finally show ?case by simp
qed simp

lemma events_total:
  assumes "wf_db db" "life_log db"
  shows "int (length (job_events db)) = sum_list (map (\<lambda>r. stage (Some (row_view r))) (jobs db))"
proof -
  have "length (job_events db) = sum_list (map (\<lambda>i. length (events_of i (job_events db))) (map r_id (jobs db)))"
    unfolding events_of_def by (rule length_by_key) (use assms(1) in \<open>auto simp: wf_db_def jobs_ok_def events_ok_def\<close>)
  then have "int (length (job_events db)) = sum_list (map (\<lambda>r. int (length (events_of (r_id r) (job_events db)))) (jobs db))"
    by (simp add: comp_def int_sum_list)
  also have "\<dots> = sum_list (map (\<lambda>r. stage (Some (row_view r))) (jobs db))"
    by (intro arg_cong [where f = sum_list] map_cong refl events_of_row assms)
  finally show ?thesis .
qed

definition unfinished :: "job_row \<Rightarrow> bool" where
  "unfinished r \<longleftrightarrow> r_status r = StatusQueued \<or> r_status r = StatusRunning"

text \<open>A row that keeps the attempt limit has at most two events for each allowed attempt and one more.\<close>

lemma stage_bounds:
  assumes "row_ok r" "row_disc r"
  shows "stage (Some (row_view r)) \<le> 2 * r_max_attempts r + (if unfinished r then 0 else 1)"
  using assms by (cases "r_status r") (simp_all add: row_view_def row_disc_def unfinished_def)

section \<open>Statements that log what they change\<close>

definition job_key :: "job_row \<Rightarrow> int \<times> int" where
  "job_key r = (r_id r, r_max_attempts r)"

text \<open>No job is added, the log only grows, and when it does not, no row has changed.\<close>

definition advances :: "db \<Rightarrow> db \<Rightarrow> bool" where
  "advances db db' \<longleftrightarrow> map job_key (jobs db') = map job_key (jobs db) \<and>
     length (job_events db) \<le> length (job_events db') \<and>
     (length (job_events db') = length (job_events db) \<longrightarrow> jobs db' = jobs db)"

lemma advances_refl [simp]: "advances db db"
  by (simp add: advances_def)

lemma job_key_ids: "map job_key rows = map job_key rows' \<Longrightarrow> map r_id rows = map r_id rows'"
proof -
  have "map r_id rows = map fst (map job_key rows)" for rows by (simp add: job_key_def)
  then show "map job_key rows = map job_key rows' \<Longrightarrow> map r_id rows = map r_id rows'" by metis
qed

lemma advances_ids: "advances db db' \<Longrightarrow> map r_id (jobs db') = map r_id (jobs db)"
  unfolding advances_def by (blast intro: job_key_ids)

lemma length_new_events [simp]: "length (new_events env ty w m rows k) = length rows"
  by (induction rows arbitrary: k) simp_all

lemma length_returning [simp]: "length (returning env p f db) = length (filter p (jobs db))"
  by (simp add: returning_def sql_returning_def scan_by_def)

context logged_update
begin

lemma advances_stmt:
  assumes "\<And>a db'. stmt db = Inr (a, db') \<Longrightarrow> jobs db' = sql_update p f (jobs db) \<and>
      job_events db' = job_events db @ new_events env ty w m' (returning env p f db) (next_event_id db)"
    and "\<And>r. r_max_attempts (f r) = r_max_attempts r"
  shows "advances db (snd (run_stmt env' what stmt db))"
proof (rule run_stmt_cases [where P = "advances db"])
  fix a db' assume "stmt db = Inr (a, db')"
  note db' = assms(1) [OF this]
  have "map job_key (sql_update p f (jobs db)) = map job_key (jobs db)"
    by (simp add: sql_update_def job_key_def assms(2) key_upd)
  moreover have "sql_update p f (jobs db) = jobs db" if "filter p (jobs db) = []"
    using that by (intro sql_update_none) (simp add: filter_empty_conv)
  ultimately show "advances db db'" using db' by (simp add: advances_def)
qed simp

end

lemma advances_calls:
  shows "advances db (snd (Complete env i db))" "advances db (snd (Retry env i at e db))"
    "advances db (snd (Fail env i e db))" "advances db (snd (ReapExpiredLeases env db))"
    "advances db (snd (MarkEventsShipped env ids db))"
proof -
  show "advances db (snd (Complete env i db))" unfolding Complete_def
    by (rule complete_upd.advances_stmt [OF complete_logged]) (simp_all add: row_defs)
  show "advances db (snd (Retry env i at e db))" unfolding Retry_def
    by (rule retry_upd.advances_stmt [OF retry_logged]) (simp_all add: row_defs)
  show "advances db (snd (Fail env i e db))" unfolding Fail_def
    by (rule fail_upd.advances_stmt [OF fail_logged]) (simp_all add: row_defs)
  show "advances db (snd (ReapExpiredLeases env db))" unfolding ReapExpiredLeases_def
    by (rule reap_upd.advances_stmt [OF reap_logged]) (simp_all add: row_defs)
  show "advances db (snd (MarkEventsShipped env ids db))"
    by (simp add: MarkEventsShipped_def run_stmt_def advances_def split: fault.splits)
qed

lemma advances_claim: "advances db (snd (Claim env w lease limit db))"
proof (rule claim_by_interval [where P = "advances db"])
  fix iv assume "pg_interval env (duration_String (sint lease)) = Some iv"
  then show "advances db (snd (Claim env w lease limit db))" unfolding Claim_def
    by (intro claim_upd.advances_stmt [OF claim_logged]) (simp_all add: row_defs)
qed simp

fun is_submit :: "sys_action \<Rightarrow> bool" where
  "is_submit (ASubmit _ _ _ _) = True"
| "is_submit _ = False"

lemma exec_advances:
  assumes "sys_exec timely a s = Some s'"
  shows "sy_now s \<le> sy_now s' \<and> (is_submit a \<or> advances (sy_db s) (sy_db s'))"
proof (cases a)
  case (AReport n w res pe)
  with assms obtain st' where s': "sy_db s' = ws_db st'" "sy_now s' = sy_now s"
    and P: "process w (\<lambda>_ _. (res, ())) (pe\<lparr>pe_meanwhile := [], pe_pg := (pe_pg pe)\<lparr>pg_now := sy_now s\<rparr>\<rparr>)
      (fst (sy_flight s ! n)) (worker_state (sy_db s)) = Some st'"
    by (auto split: if_splits)
  have "advances (sy_db s) (ws_db st')"
    by (rule process_report [OF P]) (simp_all add: worker_state_def advances_calls)
  with s' show ?thesis by simp
next
  case (AClaim env w lease)
  then have "sy_db s' = snd (Claim (env\<lparr>pg_now := sy_now s\<rparr>) w lease 1 (sy_db s))" "sy_now s' = sy_now s"
    using assms by (auto split: prod.splits)
  then show ?thesis by (simp add: advances_claim)
qed (use assms in \<open>auto simp: advances_calls\<close>)

text \<open>Every action is at most one call of the store.\<close>

lemma sys_exec_call:
  assumes "sys_exec timely a s = Some s'"
  shows "sy_db s' = sy_db s \<or> (\<exists>env c. sy_db s' = exec_call env c (sy_db s))"
proof (cases a)
  case (ASubmit env t p tc)
  then have "sy_db s' = exec_call (env\<lparr>pg_now := sy_now s\<rparr>) (CallEnqueue t p tc) (sy_db s)" using assms by auto
  then show ?thesis by blast
next
  case (AClaim env w lease)
  then have "sy_db s' = exec_call (env\<lparr>pg_now := sy_now s\<rparr>) (CallClaim w lease 1) (sy_db s)"
    using assms by (auto split: prod.splits)
  then show ?thesis by blast
next
  case (AReport n w res pe)
  with assms obtain st' where s': "sy_db s' = ws_db st'"
    and P: "process w (\<lambda>_ _. (res, ())) (pe\<lparr>pe_meanwhile := [], pe_pg := (pe_pg pe)\<lparr>pg_now := sy_now s\<rparr>\<rparr>)
      (fst (sy_flight s ! n)) (worker_state (sy_db s)) = Some st'"
    by (auto split: if_splits)
  have "\<exists>env c. ws_db st' = exec_call env c (sy_db s)"
    by (rule process_report [OF P]) (auto simp: worker_state_def simp flip: exec_call.simps)
  with s' show ?thesis by simp
next
  case (AReap env)
  then have "sy_db s' = exec_call (env\<lparr>pg_now := sy_now s\<rparr>) CallReap (sy_db s)" using assms by auto
  then show ?thesis by blast
next
  case (AShip env ids)
  then have "sy_db s' = exec_call env (CallMarkShipped ids) (sy_db s)" using assms by auto
  then show ?thesis by blast
qed (use assms in auto)

section \<open>Progress\<close>

fun delivered :: "fault \<Rightarrow> bool" where
  "delivered (FaultBefore _) = False"
| "delivered _ = True"

lemma run_stmt_delivered: "delivered (pg_fault env) \<Longrightarrow> stmt db = Inr (a, db') \<Longrightarrow> snd (run_stmt env what stmt db) = db'"
  by (cases "pg_fault env") (simp_all add: run_stmt_def)

text \<open>A pass of the reaper that reaches the database reclaims an expired lease.\<close>

lemma reap_progress:
  assumes "wf_db db" "jobs_inv db" "delivered (pg_fault env)" "r \<in> set (jobs db)" "lease_expired env r"
  shows "length (job_events db) < length (job_events (snd (ReapExpiredLeases env db)))"
proof -
  obtain c db' where S: "reap_stmt env db = Inr (c, db')"
    and ev: "job_events db' = job_events db @ new_events env reap_event_type '''' reap_last_error
      (returning env (lease_expired env) (reap_row env) db) (next_event_id db)"
    by (rule reap_stmt_succeeds [OF assms(1,2)])
  have "0 < length (filter (lease_expired env) (jobs db))" using assms(4,5) by (auto simp: filter_empty_conv)
  with run_stmt_delivered [where stmt = "reap_stmt env", OF assms(3) S] ev show ?thesis by (simp add: ReapExpiredLeases_def)
qed

text \<open>A poll that reaches the database claims a job when there is one to claim.\<close>

definition free_poll :: "pg_env \<Rightarrow> duration \<Rightarrow> bool" where
  "free_poll env lease \<longleftrightarrow> delivered (pg_fault env) \<and> pg_locked env = [] \<and>
     pg_interval env (duration_String (sint lease)) \<noteq> None"

lemma claim_progress:
  assumes "wf_db db" "jobs_inv db" "free_poll env lease" "r \<in> set (jobs db)" "claimable env r"
  shows "length (job_events db) < length (job_events (snd (Claim env w lease 1 db)))"
proof -
  let ?p = "\<lambda>r. r_id r \<in> r_id ` set (claim_select env 1 db)"
  from assms(3) obtain iv where env: "delivered (pg_fault env)" "pg_locked env = []"
    "pg_interval env (duration_String (sint lease)) = Some iv" by (auto simp: free_poll_def)
  have small: "r_attempts q < int4_max" if "q \<in> set (jobs db)" "?p q" for q
  proof -
    have "r_status q = StatusQueued" using claim_picked(2) [OF _ that] assms(1) by (simp add: wf_db_def claimable_def)
    moreover have "lookup_job (r_id q) db = Some q" using that(1) assms(1) by (simp add: job_lookup wf_db_def)
    ultimately have "r_attempts q < r_max_attempts q" using assms(2) by (auto simp: jobs_inv_def row_disc_def)
    then show ?thesis using that(1) assms(1) by (auto simp: wf_db_def jobs_ok_def row_ok_def)
  qed
  have "\<not> list_ex (\<lambda>r. int4_max < r_attempts r) (returning env ?p (claim_row env w iv) db)"
    by (auto simp: list_ex_iff returning_def claim_row_def dest: small)
  then obtain js db' where S: "claim_stmt env w (duration_String (sint lease)) 1 db = Inr (js, db')"
    and ev: "job_events db' = job_events db @ new_events env (\<lambda>_. EventClaimed) w ''''
      (returning env ?p (claim_row env w iv) db) (next_event_id db)"
    by (simp add: claim_stmt_def Let_def env)
  have "r \<in> set (filter (\<lambda>r. claimable env r \<and> r_id r \<notin> set (pg_locked env)) (jobs db))"
    using assms(4,5) env(2) by simp
  then have "0 < length (claim_select env 1 db)"
    unfolding claim_select_def scan_by_def by (auto simp: min_def filter_empty_conv)
  then obtain q where "q \<in> set (claim_select env 1 db)" by fastforce
  then have "q \<in> set (jobs db)" "?p q" using claim_select_subset by blast+
  then have "0 < length (filter ?p (jobs db))" by (auto simp: filter_empty_conv)
  with run_stmt_delivered [where stmt = "claim_stmt env w (duration_String (sint lease)) 1", OF env(1) S] ev show ?thesis by (simp add: Claim_def)
qed

text \<open>
  The clock has passed every lease and every retry time, and then, between any other actions, a
  pass of the reaper reaches the database and later a worker polls it.
\<close>

definition overdue :: "int \<Rightarrow> job_row \<Rightarrow> bool" where
  "overdue now r \<longleftrightarrow> (case r_status r of StatusQueued \<Rightarrow> r_run_after r \<le> now
     | StatusRunning \<Rightarrow> (case r_lease_expires_at r of None \<Rightarrow> False | Some t \<Rightarrow> t < now) | _ \<Rightarrow> True)"

fun polls :: "sys_action list \<Rightarrow> bool" where
  "polls [] = False"
| "polls (AClaim env w lease # as) = (free_poll env lease \<or> polls as)"
| "polls (a # as) = polls as"

fun serves :: "sys_action list \<Rightarrow> bool" where
  "serves [] = False"
| "serves (AReap env # as) = (delivered (pg_fault env) \<and> polls as \<or> serves as)"
| "serves (a # as) = serves as"

lemma overdue_later: "overdue now r \<Longrightarrow> now \<le> now' \<Longrightarrow> overdue now' r"
  by (auto simp: overdue_def split: status.splits option.splits)

lemma sys_run_inv:
  "sys_run True as s = Some s' \<Longrightarrow> sys_inv s \<Longrightarrow> sys_inv s'"
  by (induction as arbitrary: s) (auto split: option.splits intro: sys_exec_inv)

lemma run_advances:
  assumes "sys_run True as s = Some s'" "sys_inv s" "\<not> list_ex is_submit as"
  shows "map job_key (jobs (sy_db s')) = map job_key (jobs (sy_db s)) \<and>
     length (job_events (sy_db s)) \<le> length (job_events (sy_db s')) \<and> sy_now s \<le> sy_now s'"
  using assms
proof (induction as arbitrary: s)
  case (Cons a as)
  then obtain s1 where s1: "sys_exec True a s = Some s1" "sys_run True as s1 = Some s'" by (auto split: option.splits)
  from Cons.IH [OF s1(2) sys_exec_inv [OF s1(1) Cons.prems(2)]] exec_advances [OF s1(1)] Cons.prems(3)
  show ?case by (auto simp: advances_def)
qed simp

text \<open>A round cannot be idle: one step grows the log, or nothing changes up to the reaper's pass, then up to the poll.\<close>

lemma first_growth:
  assumes "sys_exec True a s = Some s1" "sys_run True as s1 = Some s'" "sys_inv s" "\<not> list_ex is_submit (a # as)"
  shows "length (job_events (sy_db s)) < length (job_events (sy_db s')) \<or>
     jobs (sy_db s1) = jobs (sy_db s) \<and> length (job_events (sy_db s1)) = length (job_events (sy_db s)) \<and> sy_now s \<le> sy_now s1"
  using exec_advances [OF assms(1)] run_advances [OF assms(2) sys_exec_inv [OF assms(1,3)]] assms(4)
  by (auto simp: advances_def)

lemma poll_grows:
  assumes "polls as" "sys_run True as s = Some s'" "sys_inv s" "\<not> list_ex is_submit as"
    and "r \<in> set (jobs (sy_db s))" "r_status r = StatusQueued" "r_run_after r \<le> sy_now s"
  shows "length (job_events (sy_db s)) < length (job_events (sy_db s'))"
  using assms
proof (induction as arbitrary: s)
  case (Cons a as)
  then obtain s1 where s1: "sys_exec True a s = Some s1" "sys_run True as s1 = Some s'" by (auto split: option.splits)
  note inv1 = sys_exec_inv [OF s1(1) Cons.prems(3)]
  consider "polls as" | env w lease where "a = AClaim env w lease" "free_poll env lease"
    using Cons.prems(1) by (cases a) auto
  then show ?case
  proof cases
    case 1
    from first_growth [OF s1 Cons.prems(3,4)] Cons.IH [OF 1 s1(2) inv1] Cons.prems(4-7) show ?thesis by auto
  next
    case (2 env w lease)
    have "sy_db s1 = snd (Claim (env\<lparr>pg_now := sy_now s\<rparr>) w lease 1 (sy_db s))"
      using s1(1) 2(1) by (auto split: prod.splits)
    moreover have "free_poll (env\<lparr>pg_now := sy_now s\<rparr>) lease" "claimable (env\<lparr>pg_now := sy_now s\<rparr>) r"
      using 2(2) Cons.prems(6,7) by (simp_all add: free_poll_def claimable_def)
    ultimately have "length (job_events (sy_db s)) < length (job_events (sy_db s1))"
      using claim_progress Cons.prems(3,5) by (simp add: sys_inv_def)
    with run_advances [OF s1(2) inv1] Cons.prems(4) show ?thesis by auto
  qed
qed simp

lemma round_grows:
  assumes "serves as" "sys_run True as s = Some s'" "sys_inv s" "\<not> list_ex is_submit as"
    and "r \<in> set (jobs (sy_db s))" "unfinished r" "overdue (sy_now s) r"
  shows "length (job_events (sy_db s)) < length (job_events (sy_db s'))"
  using assms
proof (induction as arbitrary: s)
  case (Cons a as)
  then obtain s1 where s1: "sys_exec True a s = Some s1" "sys_run True as s1 = Some s'" by (auto split: option.splits)
  note inv1 = sys_exec_inv [OF s1(1) Cons.prems(3)]
  note first = first_growth [OF s1 Cons.prems(3,4)]
  consider "serves as" | env where "a = AReap env" "delivered (pg_fault env)" "polls as"
    using Cons.prems(1) by (cases a) auto
  then show ?case
  proof cases
    case 1
    from first Cons.IH [OF 1 s1(2) inv1] Cons.prems(4-7) overdue_later show ?thesis by auto
  next
    case (2 env)
    let ?env = "env\<lparr>pg_now := sy_now s\<rparr>"
    show ?thesis
    proof (cases "r_status r = StatusQueued")
      case True
      then have "r_run_after r \<le> sy_now s" using Cons.prems(7) by (simp add: overdue_def)
      with first poll_grows [OF 2(3) s1(2) inv1, of r] Cons.prems(4,5) True show ?thesis by auto
    next
      case False
      then have "lease_expired ?env r"
        using Cons.prems(6,7) by (auto simp: unfinished_def overdue_def lease_expired_def split: option.splits)
      moreover have "sy_db s1 = snd (ReapExpiredLeases ?env (sy_db s))" using s1(1) 2(1) by auto
      ultimately have "length (job_events (sy_db s)) < length (job_events (sy_db s1))"
        using reap_progress [of "sy_db s" ?env r] Cons.prems(3,5) 2(2) by (simp add: sys_inv_def)
      with run_advances [OF s1(2) inv1] Cons.prems(4) show ?thesis by auto
    qed
  qed
qed simp

section \<open>The attempt limit of every job\<close>

definition limits_ok :: "db \<Rightarrow> bool" where
  "limits_ok db \<longleftrightarrow> (\<forall>r \<in> set (jobs db). r_max_attempts r = 5)"

lemma advances_limits: "advances db db' \<Longrightarrow> limits_ok db \<Longrightarrow> limits_ok db'"
proof -
  assume "advances db db'" "limits_ok db"
  then have "snd ` set (map job_key (jobs db')) = snd ` set (map job_key (jobs db))" by (simp add: advances_def)
  with \<open>limits_ok db\<close> show ?thesis by (force simp: limits_ok_def job_key_def image_image)
qed

lemma enqueue_limits: "limits_ok db \<Longrightarrow> limits_ok (snd (Enqueue env t p c db))"
  unfolding Enqueue_def
  by (rule run_stmt_cases [where P = limits_ok])
     (auto simp: enqueue_stmt_def Let_def limits_ok_def new_job_row_def split: option.splits)

interpretation timely_limits: step_invariant "sys_step True" "\<lambda>s. sys_inv s \<and> limits_ok (sy_db s)"
proof unfold_locales
  fix s s' assume "sys_step True s s'" and inv: "sys_inv s \<and> limits_ok (sy_db s)"
  then obtain a where a: "sys_exec True a s = Some s'" by (elim sys_stepE)
  have "limits_ok (sy_db s')"
  proof (cases "is_submit a")
    case True
    with a inv show ?thesis by (cases a) (auto simp: enqueue_limits)
  next
    case False
    with exec_advances [OF a] inv show ?thesis by (auto intro: advances_limits)
  qed
  with sys_exec_inv [OF a] inv show "sys_inv s' \<and> limits_ok (sy_db s')" by blast
qed

lemma limits_reachable: "(sys_step True)\<^sup>*\<^sup>* sys_init s \<Longrightarrow> limits_ok (sy_db s)"
  using timely_limits.reachable_inv [of sys_init s] sys_inv_init by (auto simp: sys_init_def limits_ok_def empty_db_def)

lemma row_stage_bound:
  assumes "(sys_step True)\<^sup>*\<^sup>* sys_init s" "r \<in> set (jobs (sy_db s))"
  shows "stage (Some (row_view r)) \<le> (if unfinished r then 10 else 11)"
proof -
  note inv = life_reachable [OF assms(1)]
  have "lookup_job (r_id r) (sy_db s) = Some r" using inv(2) assms(2) by (simp add: job_lookup wf_db_def)
  then have "row_disc r" using inv(3) by (auto simp: jobs_inv_def)
  moreover have "row_ok r" using inv(2) assms(2) by (auto simp: wf_db_def jobs_ok_def)
  moreover have "r_max_attempts r = 5" using limits_reachable [OF assms(1)] assms(2) by (simp add: limits_ok_def)
  ultimately show ?thesis using stage_bounds [of r] by (simp split: if_splits)
qed

text \<open>
  C21. The outbox tells exactly how far each job has come: when every worker reports before its lease
  ends, in every reachable state a running job has two events for each of its attempts and every
  other job one more. So no job ever has more than eleven events, nor one that is not finished
  more than ten.
\<close>

theorem outbox_counts_attempts:
  assumes "(sys_step True)\<^sup>*\<^sup>* sys_init s" "r \<in> set (jobs (sy_db s))"
  shows "int (length (events_of (r_id r) (job_events (sy_db s)))) =
       2 * r_attempts r + (if r_status r = StatusRunning then 0 else 1) \<and>
     length (events_of (r_id r) (job_events (sy_db s))) \<le> (if unfinished r then 10 else 11)"
  using events_of_row [OF life_reachable(2,4) [OF assms(1)] assms(2)] row_stage_bound [OF assms]
  by (simp add: row_view_def split: if_splits)

lemma sum_list_bound:
  assumes "\<And>x. x \<in> set xs \<Longrightarrow> f x \<le> (b :: int)"
  shows "sum_list (map f xs) \<le> b * int (length xs)"
  using assms by (induction xs) (force simp: algebra_simps)+

lemma outbox_bound:
  assumes "(sys_step True)\<^sup>*\<^sup>* sys_init s" "r \<in> set (jobs (sy_db s))" "unfinished r"
  shows "length (job_events (sy_db s)) < 11 * length (jobs (sy_db s))"
proof -
  let ?f = "\<lambda>r. stage (Some (row_view r))"
  obtain xs ys where jobs: "jobs (sy_db s) = xs @ r # ys" using assms(2) by (meson split_list)
  have "?f q \<le> 11" if "q \<in> set (jobs (sy_db s))" for q
    using row_stage_bound [OF assms(1) that] by (simp split: if_splits)
  then have "sum_list (map ?f xs) \<le> 11 * int (length xs)" "sum_list (map ?f ys) \<le> 11 * int (length ys)"
    by (simp_all add: jobs sum_list_bound)
  moreover have "?f r \<le> 10" using row_stage_bound [OF assms(1,2)] assms(3) by simp
  ultimately have "sum_list (map ?f (jobs (sy_db s))) < 11 * int (length (jobs (sy_db s)))" by (simp add: jobs)
  with events_total [OF life_reachable(2,4) [OF assms(1)]] show ?thesis by simp
qed

section \<open>The queue drains\<close>

text \<open>
  A round is a stretch of arbitrary actions after which every lease and retry time has passed, and
  then one with a pass of the reaper and a later poll.
\<close>

fun run_rounds :: "(sys_action list \<times> sys_action list) list \<Rightarrow> sys \<Rightarrow> sys option" where
  "run_rounds [] s = Some s"
| "run_rounds ((before, serving) # rs) s =
     (case sys_run True before s of None \<Rightarrow> None
      | Some s1 \<Rightarrow>
          if list_all (overdue (sy_now s1)) (jobs (sy_db s1)) \<and> serves serving
          then case sys_run True serving s1 of None \<Rightarrow> None | Some s2 \<Rightarrow> run_rounds rs s2
          else None)"

definition no_submits :: "(sys_action list \<times> sys_action list) list \<Rightarrow> bool" where
  "no_submits rs \<longleftrightarrow> list_all (\<lambda>(before, serving). \<not> list_ex is_submit (before @ serving)) rs"

text \<open>A job that is unfinished at the end was unfinished all along.\<close>

lemma unfinished_before:
  assumes "sys_run True as s = Some s'" "sys_inv s" "\<not> list_ex is_submit as"
    and "lookup_job i (sy_db s') = Some r'" "unfinished r'"
  shows "\<exists>r. lookup_job i (sy_db s) = Some r \<and> unfinished r"
  using assms
proof (induction as arbitrary: s)
  case (Cons a as)
  then obtain s1 where s1: "sys_exec True a s = Some s1" "sys_run True as s1 = Some s'" by (auto split: option.splits)
  from Cons.IH [OF s1(2) sys_exec_inv [OF s1(1) Cons.prems(2)]] Cons.prems(3-5)
  obtain r1 where r1: "lookup_job i (sy_db s1) = Some r1" "unfinished r1" by auto
  have "map r_id (jobs (sy_db s1)) = map r_id (jobs (sy_db s))"
    using exec_advances [OF s1(1)] Cons.prems(3) advances_ids by auto
  then have "i \<in> r_id ` set (jobs (sy_db s))" using lookup_job_id [OF r1(1)] by (metis image_eqI set_map)
  then obtain r where r: "lookup_job i (sy_db s) = Some r"
    using job_lookup Cons.prems(2) by (auto simp: sys_inv_def wf_db_def)
  have "unfinished r"
  proof (rule ccontr)
    assume "\<not> unfinished r"
    then have "r_status r = StatusCompleted \<or> r_status r = StatusFailed" by (cases "r_status r") (simp_all add: unfinished_def)
    with sys_exec_change [OF s1(1) Cons.prems(2)] r have "lookup_job i (sy_db s1) = Some r"
      unfolding keeps_live_def by fastforce
    with r1 \<open>\<not> unfinished r\<close> show False by simp
  qed
  with r show ?case by blast
qed simp

lemma rounds_grow:
  assumes "run_rounds rs s = Some s'" "sys_inv s" "no_submits rs"
    and "lookup_job i (sy_db s') = Some r'" "unfinished r'"
  shows "length (job_events (sy_db s)) + length rs \<le> length (job_events (sy_db s')) \<and>
     length (jobs (sy_db s')) = length (jobs (sy_db s)) \<and> (\<exists>r. lookup_job i (sy_db s) = Some r \<and> unfinished r)"
  using assms
proof (induction rs arbitrary: s)
  case (Cons round rs)
  obtain before serving where round: "round = (before, serving)" by (cases round)
  from Cons.prems(1) obtain s1 s2 where s1: "sys_run True before s = Some s1"
    and late: "list_all (overdue (sy_now s1)) (jobs (sy_db s1))" "serves serving"
    and s2: "sys_run True serving s1 = Some s2" "run_rounds rs s2 = Some s'"
    by (auto simp: round split: option.splits if_splits)
  have quiet: "\<not> list_ex is_submit before" "\<not> list_ex is_submit serving" "no_submits rs"
    using Cons.prems(3) by (simp_all add: round no_submits_def)
  have inv1: "sys_inv s1" and inv2: "sys_inv s2"
    using sys_run_inv s1 s2(1) Cons.prems(2) by blast+
  from Cons.IH [OF s2(2) inv2 quiet(3) Cons.prems(4,5)] obtain r2 where
    IH: "length (job_events (sy_db s2)) + length rs \<le> length (job_events (sy_db s'))"
      "length (jobs (sy_db s')) = length (jobs (sy_db s2))" "lookup_job i (sy_db s2) = Some r2" "unfinished r2" by blast
  from unfinished_before [OF s2(1) inv1 quiet(2) IH(3,4)] obtain r1 where r1: "lookup_job i (sy_db s1) = Some r1" "unfinished r1"
    by blast
  then have "r1 \<in> set (jobs (sy_db s1))" "overdue (sy_now s1) r1" using lookup_job_id late(1) by (auto simp: list_all_iff)
  from round_grows [OF late(2) s2(1) inv1 quiet(2) this(1) r1(2) this(2)]
  have "length (job_events (sy_db s1)) < length (job_events (sy_db s2))" .
  with IH(1,2) run_advances [OF s1 Cons.prems(2) quiet(1)] run_advances [OF s2(1) inv1 quiet(2)]
    unfinished_before [OF s1 Cons.prems(2) quiet(1) r1] show ?case
    by (auto dest!: map_eq_imp_length_eq)
qed auto

lemma rounds_keep_jobs:
  assumes "run_rounds rs s = Some s'" "sys_inv s" "no_submits rs"
  shows "map job_key (jobs (sy_db s')) = map job_key (jobs (sy_db s))"
  using assms
proof (induction rs arbitrary: s)
  case (Cons round rs)
  obtain before serving where round: "round = (before, serving)" by (cases round)
  from Cons.prems(1) obtain s1 s2 where s1: "sys_run True before s = Some s1"
    and s2: "sys_run True serving s1 = Some s2" "run_rounds rs s2 = Some s'"
    by (auto simp: round split: option.splits if_splits)
  have quiet: "\<not> list_ex is_submit before" "\<not> list_ex is_submit serving" "no_submits rs"
    using Cons.prems(3) by (simp_all add: round no_submits_def)
  note inv1 = sys_run_inv [OF s1 Cons.prems(2)]
  from Cons.IH [OF s2(2) sys_run_inv [OF s2(1) inv1] quiet(3)] run_advances [OF s1 Cons.prems(2) quiet(1)]
    run_advances [OF s2(1) inv1 quiet(2)] show ?case by simp
qed simp

lemma rounds_reachable:
  "run_rounds rs s = Some s' \<Longrightarrow> (sys_step True)\<^sup>*\<^sup>* s s'"
proof (induction rs arbitrary: s)
  case (Cons round rs)
  then show ?case
    by (cases round) (auto split: option.splits if_splits dest!: sys_run_steps intro: rtranclp_trans)
qed simp

lemma rounds_finish:
  assumes "(sys_step True)\<^sup>*\<^sup>* sys_init s" "no_submits rs" "run_rounds rs s = Some s'"
    and "11 * length (jobs (sy_db s)) \<le> length (job_events (sy_db s)) + length rs"
  shows "\<forall>r \<in> set (jobs (sy_db s')). r_status r = StatusCompleted \<or> r_status r = StatusFailed"
proof
  fix r assume r: "r \<in> set (jobs (sy_db s'))"
  have s': "(sys_step True)\<^sup>*\<^sup>* sys_init s'" using assms(1) rounds_reachable [OF assms(3)] by (rule rtranclp_trans)
  have "\<not> unfinished r"
  proof
    assume u: "unfinished r"
    have "lookup_job (r_id r) (sy_db s') = Some r"
      using life_reachable(2) [OF s'] r by (simp add: job_lookup wf_db_def)
    from rounds_grow [OF assms(3) life_reachable(1) [OF assms(1)] assms(2) this u]
    have "11 * length (jobs (sy_db s')) \<le> length (job_events (sy_db s'))" using assms(4) by simp
    with outbox_bound [OF s' r u] show False by simp
  qed
  then show "r_status r = StatusCompleted \<or> r_status r = StatusFailed"
    by (cases "r_status r") (simp_all add: unfinished_def)
qed

text \<open>
  C4. The queue drains: from every state a queue of timely workers reaches, after eleven rounds for
  each job, less one for each event already in the outbox, every job is completed or failed. In
  each round the clock passes the leases and the retry times, the reaper gets through to the
  database once and then some worker once; between these, workers may crash, report errors, lose
  their connection or do anything else but submit.
\<close>

theorem queue_drains:
  assumes "(sys_step True)\<^sup>*\<^sup>* sys_init s" "no_submits rs" "run_rounds rs s = Some s'"
    and "11 * length (jobs (sy_db s)) \<le> length (job_events (sy_db s)) + length rs"
  shows "\<forall>r \<in> set (jobs (sy_db s')). r_status r = StatusCompleted \<or> r_status r = StatusFailed"
  using assms by (rule rounds_finish)

text \<open>Such rounds are always possible: nothing has to come from the workers that hold the jobs.\<close>

definition due :: "job_row \<Rightarrow> int" where
  "due r = max (r_run_after r) (case r_lease_expires_at r of None \<Rightarrow> 0 | Some t \<Rightarrow> t)"

definition plain_round :: "sys \<Rightarrow> sys_action list \<times> sys_action list" where
  "plain_round s = ([ATick (1 + sum_list (map (\<lambda>r. max 0 (due r - sy_now s)) (jobs (sy_db s))))],
     [AReap (sample_env 0), AClaim (sample_env 0) ''w'' sample_lease])"

lemma max_le_sum: "x \<in> set xs \<Longrightarrow> f x \<le> sum_list (map (\<lambda>x. max 0 (f x)) xs)" for f :: "'a \<Rightarrow> int"
proof (induction xs)
  case (Cons a xs)
  have "0 \<le> sum_list (map (\<lambda>x. max 0 (f x)) xs)" by (rule sum_list_nonneg) auto
  with Cons show ?case by auto
qed simp

lemma plain_round_runs:
  assumes "sys_inv s"
  shows "\<exists>s'. run_rounds [plain_round s] s = Some s' \<and> sys_inv s'"
proof -
  let ?d = "1 + sum_list (map (\<lambda>r. max 0 (due r - sy_now s)) (jobs (sy_db s)))"
  let ?s1 = "s\<lparr>sy_now := sy_now s + max 0 ?d\<rparr>"
  have "overdue (sy_now ?s1) r" if r: "r \<in> set (jobs (sy_db s))" for r
  proof -
    have "due r < sy_now ?s1" using max_le_sum [OF r, of "\<lambda>r. due r - sy_now s"] by auto
    moreover have "r_status r = StatusRunning \<Longrightarrow> r_lease_expires_at r \<noteq> None"
      using assms r by (auto simp: sys_inv_def wf_db_def jobs_ok_def row_ok_def)
    ultimately show ?thesis by (auto simp: overdue_def due_def split: status.splits option.splits)
  qed
  then have late: "list_all (overdue (sy_now ?s1)) (jobs (sy_db s))" by (simp add: list_all_iff)
  have poll: "free_poll (sample_env 0) sample_lease" by code_simp
  have "\<exists>s'. run_rounds [plain_round s] s = Some s'"
    using late poll by (simp add: plain_round_def Let_def split: prod.split)
  then obtain s' where s': "run_rounds [plain_round s] s = Some s'" ..
  from timely.reachable_inv [OF rounds_reachable [OF s'] assms] s' show ?thesis by blast
qed

lemma run_rounds_Cons: "run_rounds [r] s = Some s1 \<Longrightarrow> run_rounds (r # rs) s = run_rounds rs s1"
  by (cases r) (auto split: option.splits if_splits)

lemma plain_rounds:
  "sys_inv s \<Longrightarrow> \<exists>rs s'. length rs = n \<and> no_submits rs \<and> run_rounds rs s = Some s'"
proof (induction n arbitrary: s)
  case (Suc n)
  from plain_round_runs [OF Suc.prems] obtain s1 where s1: "run_rounds [plain_round s] s = Some s1" "sys_inv s1" by blast
  from Suc.IH [OF s1(2)] obtain rs s' where "length rs = n" "no_submits rs" "run_rounds rs s1 = Some s'" by blast
  with run_rounds_Cons [OF s1(1)] show ?case
    by (intro exI [of _ "plain_round s # rs"]) (simp add: no_submits_def plain_round_def)
qed (simp add: no_submits_def)

section \<open>The hypotheses at a concrete run\<close>

text \<open>Two jobs, one of them held by a worker that has stopped.\<close>

definition stuck_trace :: "sys_action list" where
  "stuck_trace = [ASubmit (sample_env 0) ''a'' ''{}'' '''', ASubmit (sample_env 0) ''b'' ''{}'' '''',
     AClaim (sample_env 0) ''w'' sample_lease, ACrash 0]"

definition stuck_state :: sys where
  "stuck_state = (case sys_run True stuck_trace sys_init of None \<Rightarrow> sys_init | Some s \<Rightarrow> s)"

lemma stuck_evaluates:
  "sys_run True stuck_trace sys_init \<noteq> None"
  "map (\<lambda>r. (r_id r, r_status r, r_attempts r)) (jobs (sy_db stuck_state)) = [(1, StatusRunning, 1), (2, StatusQueued, 0)]"
  by code_simp+

lemma stuck_reachable: "(sys_step True)\<^sup>*\<^sup>* sys_init stuck_state"
proof -
  from stuck_evaluates(1) obtain s where "sys_run True stuck_trace sys_init = Some s" by auto
  then show ?thesis by (simp add: stuck_state_def sys_run_steps)
qed

theorem outbox_counts_attempts_witness:
  "length (events_of 1 (job_events (sy_db stuck_state))) = 2"
proof -
  from stuck_evaluates(2) obtain r q where "jobs (sy_db stuck_state) = [r, q]" "r_id r = 1" "r_status r = StatusRunning" "r_attempts r = 1"
    by (auto simp: map_eq_Cons_conv)
  with outbox_counts_attempts [OF stuck_reachable, of r] show ?thesis by simp
qed

theorem queue_drains_witness:
  "\<exists>rs s'. run_rounds rs stuck_state = Some s' \<and> length rs = 22 \<and>
     (\<forall>r \<in> set (jobs (sy_db s')). r_status r = StatusCompleted \<or> r_status r = StatusFailed)"
proof -
  obtain rs s' where rs: "length rs = 22" "no_submits rs" "run_rounds rs stuck_state = Some s'"
    using plain_rounds [OF life_reachable(1) [OF stuck_reachable], of 22] by blast
  have "length (jobs (sy_db stuck_state)) = 2" using arg_cong [OF stuck_evaluates(2), of length] by simp
  then have "11 * length (jobs (sy_db stuck_state)) \<le> length (job_events (sy_db stuck_state)) + length rs" using rs(1) by simp
  from queue_drains [OF stuck_reachable rs(2,3) this] rs show ?thesis by blast
qed

end
