(* ===== verification/GoLib.thy ===== *)
theory GoLib
  imports GoTime
begin

text \<open>
  What the program uses of Go's \<open>fmt\<close>, \<open>strings\<close> and \<open>path/filepath\<close> (on Unix), and of the
  file system calls behind \<open>os.MkdirAll\<close> and \<open>os.WriteFile\<close>. A path is read as its components;
  there are no symbolic links.
\<close>

section \<open>fmt and strings\<close>

definition fmt_d :: "int \<Rightarrow> string" where
  "fmt_d n = (if n < 0 then CHR ''-'' # fmt_int (- n) else fmt_int n)"

text \<open>
  \<open>%q\<close> on a byte: the escapes of \<open>strconv.Quote\<close> below 128; a byte of 128 or more is taken as part
  of a printable character and kept.
\<close>

definition hex_digit :: "int \<Rightarrow> char" where
  "hex_digit d = (if d < 10 then char_of (48 + d) else char_of (87 + d))"

definition quote_byte :: "char \<Rightarrow> string" where
  "quote_byte c =
     (let n = (of_char c :: int) in
      if n = 34 then [char_of (92::int), c]
      else if n = 92 then [c, c]
      else if n = 7 then [char_of (92::int), CHR ''a'']
      else if n = 8 then [char_of (92::int), CHR ''b'']
      else if n = 9 then [char_of (92::int), CHR ''t'']
      else if n = 10 then [char_of (92::int), CHR ''n'']
      else if n = 11 then [char_of (92::int), CHR ''v'']
      else if n = 12 then [char_of (92::int), CHR ''f'']
      else if n = 13 then [char_of (92::int), CHR ''r'']
      else if n < 32 \<or> n = 127 then
        [char_of (92::int), CHR ''x'', hex_digit (n div 16), hex_digit (n mod 16)]
      else [c])"

definition fmt_q :: "string \<Rightarrow> string" where
  "fmt_q s = [char_of (34::int)] @ concat (map quote_byte s) @ [char_of (34::int)]"

definition HasPrefix :: "string \<Rightarrow> string \<Rightarrow> bool" where
  "HasPrefix s p \<longleftrightarrow> take (length p) s = p"

definition to_lower :: "string \<Rightarrow> string" where
  "to_lower s = map (\<lambda>c. let n = (of_char c :: int) in if 65 \<le> n \<and> n \<le> 90 then char_of (n + 32) else c) s"

section \<open>path/filepath\<close>

fun split_slash :: "string \<Rightarrow> string list" where
  "split_slash [] = [[]]"
| "split_slash (c # cs) =
     (if c = CHR ''/'' then [] # split_slash cs
      else (case split_slash cs of [] \<Rightarrow> [[c]] | x # xs \<Rightarrow> (c # x) # xs))"

fun join_slash :: "string list \<Rightarrow> string" where
  "join_slash [] = []"
| "join_slash [c] = c"
| "join_slash (c # cs) = c @ ''/'' @ join_slash cs"

definition rooted :: "string \<Rightarrow> bool" where
  "rooted p = HasPrefix p ''/''"

text \<open>
  One element of the path against the elements kept so far (the last one first): empty elements
  and \<open>.\<close> vanish, \<open>..\<close> removes the element before it, stays when there is nothing to remove in a
  relative path, and vanishes at the root.
\<close>

fun clean_step :: "bool \<Rightarrow> string \<Rightarrow> string list \<Rightarrow> string list" where
  "clean_step rt c out =
     (if c = '''' \<or> c = ''.'' then out
      else if c = ''..'' then
        (case out of
           [] \<Rightarrow> if rt then [] else [''..'']
         | x # xs \<Rightarrow> if x = ''..'' then ''..'' # out else xs)
      else c # out)"

definition clean_comps :: "bool \<Rightarrow> string list \<Rightarrow> string list" where
  "clean_comps rt cs = rev (fold (clean_step rt) cs [])"

definition path_string :: "bool \<Rightarrow> string list \<Rightarrow> string" where
  "path_string rt cs = (if rt then ''/'' @ join_slash cs else if cs = [] then ''.'' else join_slash cs)"

definition Clean :: "string \<Rightarrow> string" where
  "Clean p = path_string (rooted p) (clean_comps (rooted p) (split_slash p))"

definition Join :: "string \<Rightarrow> string \<Rightarrow> string" where
  "Join a b = (if a \<noteq> '''' then Clean (a @ ''/'' @ b) else if b \<noteq> '''' then Clean b else '''')"

definition Dir :: "string \<Rightarrow> string" where
  "Dir p = Clean (rev (dropWhile (\<lambda>c. c \<noteq> CHR ''/'') (rev p)))"

section \<open>Files\<close>

datatype node = File string | Directory

type_synonym path = "bool \<times> string list"

type_synonym fs = "path \<Rightarrow> node option"

text \<open>The path a system call walks.\<close>

definition os_path :: "string \<Rightarrow> path" where
  "os_path p = (rooted p, filter (\<lambda>c. c \<noteq> '''' \<and> c \<noteq> ''.'') (split_slash p))"

text \<open>
  What the operating system decides: an error for a directory it is asked to create, and for a
  file an error on opening it or while its bytes are written, after the first few of them.
\<close>

datatype write_fault = NoWriteFault | OpenErr string | WriteErr nat string

record os_env =
  os_mkdir_err :: "path \<Rightarrow> string option"
  os_write_fault :: "path \<Rightarrow> write_fault"

fun mkdir_from :: "os_env \<Rightarrow> bool \<Rightarrow> string list \<Rightarrow> string list \<Rightarrow> fs \<Rightarrow> string option \<times> fs" where
  "mkdir_from env rt dir [] fs = (None, fs)"
| "mkdir_from env rt dir (c # cs) fs =
     (let p = (rt, dir @ [c])
      in case fs p of
           Some Directory \<Rightarrow> mkdir_from env rt (dir @ [c]) cs fs
         | Some (File _) \<Rightarrow> (Some (''mkdir '' @ path_string rt (dir @ [c]) @ '': not a directory''), fs)
         | None \<Rightarrow>
             (case os_mkdir_err env p of
                Some e \<Rightarrow> (Some e, fs)
              | None \<Rightarrow> mkdir_from env rt (dir @ [c]) cs (fs(p \<mapsto> Directory))))"

definition MkdirAll :: "os_env \<Rightarrow> string \<Rightarrow> fs \<Rightarrow> string option \<times> fs" where
  "MkdirAll env p fs = (case os_path p of (rt, cs) \<Rightarrow> mkdir_from env rt [] cs fs)"

definition is_dir :: "fs \<Rightarrow> path \<Rightarrow> bool" where
  "is_dir fs p \<longleftrightarrow> snd p = [] \<or> fs p = Some Directory"

definition WriteFile :: "os_env \<Rightarrow> string \<Rightarrow> string \<Rightarrow> fs \<Rightarrow> string option \<times> fs" where
  "WriteFile env p content fs =
     (let q = os_path p; parent = (fst q, butlast (snd q))
      in if is_dir fs q then (Some (''open '' @ p @ '': is a directory''), fs)
         else if \<not> is_dir fs parent then (Some (''open '' @ p @ '': no such file or directory''), fs)
         else
           (case os_write_fault env q of
              OpenErr e \<Rightarrow> (Some e, fs)
            | WriteErr n e \<Rightarrow> (Some e, fs(q \<mapsto> File (take n content)))
            | NoWriteFault \<Rightarrow> (None, fs(q \<mapsto> File content))))"

section \<open>Lemmas on paths\<close>

definition plain :: "string \<Rightarrow> bool" where
  "plain c \<longleftrightarrow> c \<noteq> '''' \<and> c \<noteq> ''.'' \<and> CHR ''/'' \<notin> set c"

lemma split_slash_not_Nil [simp]: "split_slash s \<noteq> []"
  by (induction s) (auto split: list.splits)

lemma split_slash_no_slash: "CHR ''/'' \<notin> set s \<Longrightarrow> split_slash s = [s]"
  by (induction s) auto

lemma split_slash_append: "split_slash (a @ ''/'' @ b) = split_slash a @ split_slash b"
  by (induction a) (auto split: list.splits)

lemma split_slash_parts: "c \<in> set (split_slash s) \<Longrightarrow> CHR ''/'' \<notin> set c"
  by (induction s arbitrary: c) (auto split: list.splits if_splits)

lemma split_join: "cs \<noteq> [] \<Longrightarrow> (\<forall>c \<in> set cs. CHR ''/'' \<notin> set c) \<Longrightarrow> split_slash (join_slash cs) = cs"
  by (induction cs rule: join_slash.induct) (auto simp: split_slash_no_slash split_slash_append simp del: append.simps)

lemma join_split: "join_slash (split_slash s) = s"
proof (induction s)
  case (Cons c s)
  obtain x xs where "split_slash s = x # xs" by (cases "split_slash s") auto
  with Cons show ?case by (cases xs) auto
qed simp

text \<open>The elements kept are plain; \<open>..\<close> is kept only below everything else, and never at the root.\<close>

definition stack_ok :: "bool \<Rightarrow> string list \<Rightarrow> bool" where
  "stack_ok rt out \<longleftrightarrow> (\<forall>c \<in> set out. plain c) \<and>
     (\<exists>ns k. out = ns @ replicate k ''..'' \<and> ''..'' \<notin> set ns \<and> (rt \<longrightarrow> k = 0))"

lemma stack_okI:
  "(\<forall>c \<in> set (ns @ replicate k ''..''). plain c) \<Longrightarrow> ''..'' \<notin> set ns \<Longrightarrow> (rt \<longrightarrow> k = 0) \<Longrightarrow>
   stack_ok rt (ns @ replicate k ''..'')"
  unfolding stack_ok_def by blast

lemma stack_ok_step:
  assumes "stack_ok rt out" "CHR ''/'' \<notin> set c"
  shows "stack_ok rt (clean_step rt c out)"
proof -
  from assms(1) obtain ns k where out: "out = ns @ replicate k ''..''" "''..'' \<notin> set ns" "rt \<longrightarrow> k = 0"
    and pl: "\<forall>c \<in> set out. plain c" by (auto simp: stack_ok_def)
  consider "c = '''' \<or> c = ''.''" | "c = ''..''" | "plain c" "c \<noteq> ''..''"
    using assms(2) by (auto simp: plain_def)
  then show ?thesis
  proof cases
    case 1
    with assms(1) show ?thesis by auto
  next
    case 2
    show ?thesis
    proof (cases ns)
      case Nil
      then have "clean_step rt c out = replicate (if rt then 0 else Suc k) ''..''"
        using 2 out by (cases k) auto
      moreover have "stack_ok rt ([] @ replicate (if rt then 0 else Suc k) ''..'')"
        by (rule stack_okI) (auto simp: plain_def)
      ultimately show ?thesis by simp
    next
      case (Cons n ns')
      then have "clean_step rt c out = ns' @ replicate k ''..''" using 2 out by auto
      moreover have "stack_ok rt (ns' @ replicate k ''..'')"
        by (rule stack_okI) (use Cons out pl in auto)
      ultimately show ?thesis by simp
    qed
  next
    case 3
    then have "clean_step rt c out = (c # ns) @ replicate k ''..''" using out by (auto simp: plain_def)
    moreover have "stack_ok rt ((c # ns) @ replicate k ''..'')"
      by (rule stack_okI) (use 3 out pl in auto)
    ultimately show ?thesis by simp
  qed
qed

lemma stack_ok_clean:
  assumes "\<forall>c \<in> set cs. CHR ''/'' \<notin> set c"
  shows "stack_ok rt (rev (clean_comps rt cs))"
proof -
  have "stack_ok rt (fold (clean_step rt) cs out)" if "stack_ok rt out" for out
    using assms that by (induction cs arbitrary: out) (simp_all add: stack_ok_step del: clean_step.simps)
  moreover have "stack_ok rt []" using stack_okI [of "[]" 0] by simp
  ultimately show ?thesis by (simp add: clean_comps_def)
qed

lemma clean_comps_plain: "\<forall>c \<in> set cs. CHR ''/'' \<notin> set c \<Longrightarrow> c \<in> set (clean_comps rt cs) \<Longrightarrow> plain c"
  using stack_ok_clean by (auto simp: stack_ok_def)

lemma clean_comps_no_dotdot:
  assumes "\<forall>c \<in> set cs. CHR ''/'' \<notin> set c" "rt \<or> hd (clean_comps rt cs) \<noteq> ''..''"
  shows "''..'' \<notin> set (clean_comps rt cs)"
proof -
  from stack_ok_clean [OF assms(1), of rt] obtain ns k where
    k: "rev (clean_comps rt cs) = ns @ replicate k ''..''" "''..'' \<notin> set ns" "rt \<longrightarrow> k = 0"
    by (auto simp: stack_ok_def)
  then have eq: "clean_comps rt cs = replicate k ''..'' @ rev ns"
    by (metis rev_append rev_replicate rev_rev_ident)
  with k assms(2) show ?thesis by (cases k) auto
qed

lemma clean_comps_id:
  assumes "\<forall>c \<in> set cs. plain c \<and> c \<noteq> ''..''"
  shows "clean_comps rt cs = cs"
proof -
  have "fold (clean_step rt) cs out = rev cs @ out" for out
    using assms by (induction cs arbitrary: out) (auto simp: plain_def)
  then show ?thesis by (simp add: clean_comps_def)
qed

lemma clean_comps_filter: "clean_comps rt cs = clean_comps rt (filter (\<lambda>c. c \<noteq> '''' \<and> c \<noteq> ''.'') cs)"
proof -
  have "fold (clean_step rt) cs out = fold (clean_step rt) (filter (\<lambda>c. c \<noteq> '''' \<and> c \<noteq> ''.'') cs) out" for out
    by (induction cs arbitrary: out) auto
  then show ?thesis by (simp add: clean_comps_def)
qed

lemma rooted_path_string:
  assumes "\<forall>c \<in> set cs. plain c"
  shows "rooted (path_string rt cs) = rt"
proof (cases cs rule: join_slash.cases)
  case 1
  then show ?thesis by (simp add: rooted_def HasPrefix_def path_string_def)
next
  case (2 c)
  with assms show ?thesis by (cases c) (auto simp: rooted_def HasPrefix_def path_string_def plain_def)
next
  case (3 c d ds)
  with assms show ?thesis by (cases c) (auto simp: rooted_def HasPrefix_def path_string_def plain_def)
qed

lemma rooted_append: "b \<noteq> '''' \<Longrightarrow> rooted (b @ s) = rooted b"
  by (cases b) (auto simp: rooted_def HasPrefix_def)

lemma path_string_not_Nil: "\<forall>c \<in> set cs. plain c \<Longrightarrow> path_string rt cs \<noteq> ''''"
  by (cases cs rule: join_slash.cases) (auto simp: path_string_def plain_def)

lemma split_path_string:
  assumes "\<forall>c \<in> set cs. plain c"
  shows "filter (\<lambda>c. c \<noteq> '''' \<and> c \<noteq> ''.'') (split_slash (path_string rt cs)) = cs"
proof (cases "cs = []")
  case False
  then have "split_slash (join_slash cs) = cs" using assms by (intro split_join) (auto simp: plain_def)
  moreover have "filter (\<lambda>c. c \<noteq> '''' \<and> c \<noteq> ''.'') cs = cs" using assms by (auto simp: filter_id_conv plain_def)
  ultimately show ?thesis using False by (simp add: path_string_def)
qed (simp add: path_string_def)

lemma os_path_string: "\<forall>c \<in> set cs. plain c \<Longrightarrow> os_path (path_string rt cs) = (rt, cs)"
  by (simp add: os_path_def rooted_path_string split_path_string)

lemma join_slash_snoc: "cs \<noteq> [] \<Longrightarrow> join_slash (cs @ [c]) = join_slash cs @ ''/'' @ c"
  by (induction cs rule: join_slash.induct) auto

lemma Dir_path_string:
  assumes "\<forall>c \<in> set cs. plain c \<and> c \<noteq> ''..''" "cs \<noteq> []"
  shows "Dir (path_string rt cs) = path_string rt (butlast cs)"
proof -
  obtain ds d where cs: "cs = ds @ [d]" using assms(2) by (metis append_butlast_last_id)
  have d: "CHR ''/'' \<notin> set d" using assms(1) by (simp add: cs plain_def)
  have drop: "rev (dropWhile (\<lambda>c. c \<noteq> CHR ''/'') (rev (s @ d))) = rev (dropWhile (\<lambda>c. c \<noteq> CHR ''/'') (rev s))" for s
    using d by (simp add: dropWhile_append2 in_set_conv_decomp dropWhile_append)
  have pl: "\<forall>c \<in> set ds. plain c \<and> c \<noteq> ''..''" "\<forall>c \<in> set ds. plain c" using assms(1) by (auto simp: cs)
  show ?thesis
  proof (cases "ds = []")
    case True
    then have "rev (dropWhile (\<lambda>c. c \<noteq> CHR ''/'') (rev (path_string rt cs))) = (if rt then ''/'' else '''')"
      using drop [of "''/''"] drop [of "''''"] by (auto simp: cs path_string_def)
    then show ?thesis using True by (auto simp: Dir_def cs Clean_def rooted_def HasPrefix_def clean_comps_def path_string_def)
  next
    case False
    then have "path_string rt cs = (path_string rt ds @ ''/'') @ d"
      by (simp add: cs path_string_def join_slash_snoc)
    then have "rev (dropWhile (\<lambda>c. c \<noteq> CHR ''/'') (rev (path_string rt cs))) = path_string rt ds @ ''/''"
      by (simp only: drop) simp
    moreover have "rooted (path_string rt ds @ ''/'') = rt"
      using rooted_path_string [OF pl(2), of rt] path_string_not_Nil [OF pl(2), of rt] by (simp add: rooted_append)
    moreover have "clean_comps rt (split_slash (path_string rt ds @ ''/'')) = ds"
    proof -
      have "filter (\<lambda>c. c \<noteq> '''' \<and> c \<noteq> ''.'') (split_slash (path_string rt ds @ ''/'')) = ds"
        using split_slash_append [of "path_string rt ds" "''''"] split_path_string [OF pl(2), of rt] by simp
      then show ?thesis using clean_comps_id [OF pl(1)] by (subst clean_comps_filter) simp
    qed
    ultimately show ?thesis by (simp add: Dir_def Clean_def cs)
  qed
qed


section \<open>Lemmas on files\<close>

text \<open>
  Writing a file at a path touches the file itself and may turn missing directories above it into
  directories; it changes nothing else.
\<close>

definition ancestor :: "path \<Rightarrow> path \<Rightarrow> bool" where
  "ancestor q p \<longleftrightarrow> fst q = fst p \<and> snd q \<noteq> [] \<and> (\<exists>rest. rest \<noteq> [] \<and> snd p = snd q @ rest)"

definition touches_only :: "path \<Rightarrow> fs \<Rightarrow> fs \<Rightarrow> bool" where
  "touches_only p fs fs' \<longleftrightarrow>
     (\<forall>q. q \<noteq> p \<longrightarrow> fs' q = fs q \<or> ancestor q p \<and> fs q = None \<and> fs' q = Some Directory)"

lemma touches_only_refl [simp]: "touches_only p fs fs"
  by (simp add: touches_only_def)

lemma touches_only_trans: "touches_only p fs fs' \<Longrightarrow> touches_only p fs' fs'' \<Longrightarrow> touches_only p fs fs''"
  unfolding touches_only_def by metis

lemma touches_onlyD:
  assumes "touches_only p fs fs'"
  shows "q = p \<or> fs' q = fs q \<or> ancestor q p \<and> fs q = None \<and> fs' q = Some Directory"
  using spec [OF assms [unfolded touches_only_def], of q] by blast

lemma ancestor_mid: "ancestor (rt, dir @ [c]) (rt, dir @ c # cs @ [d])"
  by (auto simp: ancestor_def)

lemma mkdir_from_touches:
  "mkdir_from env rt dir cs fs = (r, fs') \<Longrightarrow> touches_only (rt, dir @ cs @ [d]) fs fs'"
proof (induction cs arbitrary: dir fs)
  case (Cons c cs)
  let ?p = "(rt, dir @ [c])"
  have IH: "mkdir_from env rt (dir @ [c]) cs fs1 = (r, fs') \<Longrightarrow> touches_only (rt, dir @ c # cs @ [d]) fs1 fs'" for fs1
    using Cons.IH [of "dir @ [c]"] by simp
  have new: "fs ?p = None \<Longrightarrow> touches_only (rt, dir @ c # cs @ [d]) fs (fs(?p \<mapsto> Directory))"
    using ancestor_mid [of rt dir c cs d] by (auto simp: touches_only_def)
  show ?case
    using Cons.prems IH touches_only_trans [OF new IH]
    by (auto simp: Let_def split: option.splits node.splits)
qed simp

lemma touches_only_keeps: "touches_only p fs fs' \<Longrightarrow> q \<noteq> p \<Longrightarrow> fs q = Some n \<Longrightarrow> fs' q = Some n"
  unfolding touches_only_def by (metis option.distinct(1))

lemma mkdir_from_dirs:
  "mkdir_from env rt dir cs fs = (None, fs') \<Longrightarrow> 0 < k \<Longrightarrow> k \<le> length cs \<Longrightarrow>
   fs' (rt, dir @ take k cs) = Some Directory"
proof (induction cs arbitrary: dir fs k)
  case (Cons c cs)
  let ?p = "(rt, dir @ [c])"
  from Cons.prems(1) obtain fs1 where fs1: "fs1 ?p = Some Directory"
    and run: "mkdir_from env rt (dir @ [c]) cs fs1 = (None, fs')"
  proof (cases "fs ?p = None")
    case True
    with Cons.prems(1) that [of "fs(?p \<mapsto> Directory)"] show ?thesis
      by (auto simp: Let_def split: option.splits)
  next
    case False
    with Cons.prems(1) that [of fs] show ?thesis by (auto simp: Let_def split: option.splits node.splits)
  qed
  show ?case
  proof (cases "k = 1")
    case True
    have "fs' ?p = Some Directory"
      by (rule touches_only_keeps [OF mkdir_from_touches [OF run, of "''x''"] _ fs1]) simp
    with True show ?thesis by simp
  next
    case False
    then obtain k' where k: "k = Suc k'" "0 < k'" using Cons.prems(2) by (cases k) auto
    with Cons.IH [OF run, of k'] Cons.prems(3) show ?thesis by simp
  qed
qed simp

lemma WriteFile_touches:
  assumes "WriteFile env p c fs = (r, fs')"
  shows "touches_only (os_path p) fs fs'" "r = None \<Longrightarrow> fs' (os_path p) = Some (File c)"
  using assms by (auto simp: WriteFile_def Let_def touches_only_def split: if_splits write_fault.splits)

lemma write_below:
  assumes "\<forall>c \<in> set cs. plain c \<and> c \<noteq> ''..''" "cs \<noteq> []"
    and "MkdirAll env (Dir (path_string rt cs)) fs = (r, fs')"
  shows "touches_only (rt, cs) fs fs'" "r = None \<Longrightarrow> ancestor q (rt, cs) \<Longrightarrow> fs' q = Some Directory"
proof -
  have pl: "\<forall>c \<in> set (butlast cs). plain c" using assms(1) by (auto dest: in_set_butlastD)
  have run: "mkdir_from env rt [] (butlast cs) fs = (r, fs')"
    using assms(3) by (simp add: MkdirAll_def Dir_path_string [OF assms(1,2)] os_path_string [OF pl])
  from mkdir_from_touches [OF this, of "last cs"] assms(2) show "touches_only (rt, cs) fs fs'" by simp
  assume "r = None" "ancestor q (rt, cs)"
  then obtain rest where q: "fst q = rt" "snd q \<noteq> []" "cs = snd q @ rest" "rest \<noteq> []"
    by (auto simp: ancestor_def)
  then have "take (length (snd q)) (butlast cs) = snd q" by (simp add: butlast_append)
  moreover have "length (snd q) \<le> length (butlast cs)" using q(4) by (cases rest rule: rev_cases) (simp_all add: q(3) butlast_append)
  ultimately have "fs' (rt, snd q) = Some Directory"
    using mkdir_from_dirs [of env rt "[]" "butlast cs" fs fs' "length (snd q)"] run \<open>r = None\<close> q(2) by simp
  then show "fs' q = Some Directory" unfolding q(1) [symmetric] by simp
qed

end
