(* ===== verification/Json.thy ===== *)
theory Json
  imports GoLib
begin

text \<open>
  encoding/json as the program uses it: the scanner with its stack of open arrays and objects, the
  decoding of string literals (escapes, surrogate pairs, replacement of bytes that are not UTF-8),
  \<open>json.Valid\<close>, and \<open>json.Unmarshal\<close> into a struct. A reference printer states what the decoder
  must read back. Strings are lists of bytes, as Go has them.
\<close>

section \<open>UTF-8\<close>

abbreviation byte :: "char \<Rightarrow> int" where
  "byte c \<equiv> of_char c"

definition between :: "int \<Rightarrow> int \<Rightarrow> char \<Rightarrow> bool" where
  "between lo hi c \<longleftrightarrow> lo \<le> byte c \<and> byte c \<le> hi"

abbreviation continuation :: "char \<Rightarrow> bool" where
  "continuation \<equiv> between 128 191"

text \<open>The number of bytes of the character a string starts with, 0 where there is none.\<close>

definition lead3 :: "char \<Rightarrow> char \<Rightarrow> bool" where
  "lead3 a b \<longleftrightarrow> between 224 224 a \<and> between 160 191 b \<or> between 225 236 a \<and> continuation b \<or>
     between 237 237 a \<and> between 128 159 b \<or> between 238 239 a \<and> continuation b"

definition lead4 :: "char \<Rightarrow> char \<Rightarrow> bool" where
  "lead4 a b \<longleftrightarrow> between 240 240 a \<and> between 144 191 b \<or> between 241 243 a \<and> continuation b \<or>
     between 244 244 a \<and> between 128 143 b"

definition utf8_len :: "string \<Rightarrow> nat" where
  "utf8_len s =
     (if 1 \<le> length s \<and> between 0 127 (s ! 0) then 1
      else if 2 \<le> length s \<and> between 194 223 (s ! 0) \<and> continuation (s ! 1) then 2
      else if 3 \<le> length s \<and> lead3 (s ! 0) (s ! 1) \<and> continuation (s ! 2) then 3
      else if 4 \<le> length s \<and> lead4 (s ! 0) (s ! 1) \<and> continuation (s ! 2) \<and> continuation (s ! 3) then 4
      else 0)"

lemma utf8_len_le: "utf8_len s \<le> length s"
  by (simp add: utf8_len_def)

function utf8_valid :: "string \<Rightarrow> bool" where
  "utf8_valid s = (if s = [] then True else if utf8_len s = 0 then False else utf8_valid (drop (utf8_len s) s))"
  by pat_completeness auto
termination
  by (relation "measure length") (auto simp: neq_Nil_conv)

declare utf8_valid.simps [simp del]

definition enc_rune :: "int \<Rightarrow> string" where
  "enc_rune u =
     (if u < 128 then [char_of u]
      else if u < 2048 then [char_of (192 + u div 64), char_of (128 + u mod 64)]
      else if u < 65536 then
        [char_of (224 + u div 4096), char_of (128 + u div 64 mod 64), char_of (128 + u mod 64)]
      else
        [char_of (240 + u div 262144), char_of (128 + u div 4096 mod 64), char_of (128 + u div 64 mod 64),
         char_of (128 + u mod 64)])"

abbreviation replacement :: int where
  "replacement \<equiv> 65533"

section \<open>String literals\<close>

abbreviation quote :: char where
  "quote \<equiv> CHR 0x22"

abbreviation backslash :: char where
  "backslash \<equiv> CHR 0x5C"

definition hex_value :: "char \<Rightarrow> int option" where
  "hex_value c =
     (if between 48 57 c then Some (byte c - 48)
      else if between 97 102 c then Some (byte c - 87)
      else if between 65 70 c then Some (byte c - 55) else None)"

definition unescape :: "char \<Rightarrow> char option" where
  "unescape c = map_of
     [(quote, quote), (backslash, backslash), (CHR ''/'', CHR ''/''), (CHR ''b'', CHR 0x08), (CHR ''f'', CHR 0x0C),
      (CHR ''n'', CHR 0x0A), (CHR ''r'', CHR 0x0D), (CHR ''t'', CHR 0x09)] c"

text \<open>\<open>getu4\<close>: the four digits after a backslash and the letter u.\<close>

fun getu4 :: "string \<Rightarrow> int option" where
  "getu4 (b # u # h1 # h2 # h3 # h4 # s) =
     (if b = backslash \<and> u = CHR ''u'' then
        (case (hex_value h1, hex_value h2, hex_value h3, hex_value h4) of
           (Some a, Some b, Some c, Some d) \<Rightarrow> Some (a * 4096 + b * 256 + c * 16 + d)
         | _ \<Rightarrow> None)
      else None)"
| "getu4 _ = None"

text \<open>The scanner's states inside a literal: the bytes up to the closing quote, and what follows it.\<close>

fun scan_string :: "string \<Rightarrow> (string \<times> string) option" where
  "scan_string [] = None"
| "scan_string (c # s) =
     (if c = quote then Some ([], s)
      else if c = backslash then
        (case s of
           [] \<Rightarrow> None
         | e # s' \<Rightarrow>
             if unescape e \<noteq> None then map_option (\<lambda>(raw, rest). (c # e # raw, rest)) (scan_string s')
             else if getu4 (c # s) \<noteq> None
             then map_option (\<lambda>(raw, rest). (c # take 5 s @ raw, rest)) (scan_string (drop 5 s))
             else None)
      else if byte c < 32 then None
      else map_option (\<lambda>(raw, rest). (c # raw, rest)) (scan_string s))"

definition surrogate :: "int \<Rightarrow> bool" where
  "surrogate r \<longleftrightarrow> 55296 \<le> r \<and> r < 57344"

definition DecodeRune :: "int \<Rightarrow> int \<Rightarrow> int" where
  "DecodeRune r1 r2 =
     (if 55296 \<le> r1 \<and> r1 < 56320 \<and> 56320 \<le> r2 \<and> r2 < 57344
      then (r1 - 55296) * 1024 + (r2 - 56320) + 65536 else replacement)"

text \<open>
  \<open>unquote\<close> on the bytes between the quotes, which the scanner has accepted: the decoded bytes of
  the next escape or character, and how many bytes it takes.
\<close>

definition decode_escape :: "string \<Rightarrow> string \<times> nat" where
  "decode_escape s =
     (case getu4 s of
        Some r \<Rightarrow>
          if surrogate r then
            (case getu4 (drop 6 s) of
               Some r1 \<Rightarrow>
                 if DecodeRune r r1 \<noteq> replacement then (enc_rune (DecodeRune r r1), 12)
                 else (enc_rune replacement, 6)
             | None \<Rightarrow> (enc_rune replacement, 6))
          else (enc_rune r, 6)
      | None \<Rightarrow>
          (case unescape (s ! 1) of None \<Rightarrow> ([], 2) | Some x \<Rightarrow> ([x], 2)))"

definition decode_char :: "string \<Rightarrow> string \<times> nat" where
  "decode_char s =
     (if hd s = backslash then decode_escape s
      else if utf8_len s = 0 then (enc_rune replacement, 1)
      else (take (utf8_len s) s, utf8_len s))"

lemma decode_char_pos: "0 < snd (decode_char s)"
  by (auto simp: decode_char_def decode_escape_def split: option.split)

function unquote :: "string \<Rightarrow> string" where
  "unquote s = (if s = [] then [] else fst (decode_char s) @ unquote (drop (snd (decode_char s)) s))"
  by pat_completeness auto
termination
  by (relation "measure length") (auto simp: decode_char_pos)

declare unquote.simps [simp del]

section \<open>Tokens\<close>

datatype token =
    TLBrace | TRBrace | TLBrack | TRBrack | TColon | TComma | TTrue | TFalse | TNull
  | TNum string | TStr string

definition digit :: "char \<Rightarrow> bool" where
  "digit c \<longleftrightarrow> between 48 57 c"

definition split_while :: "('a \<Rightarrow> bool) \<Rightarrow> 'a list \<Rightarrow> 'a list \<times> 'a list" where
  "split_while p s = (takeWhile p s, dropWhile p s)"

text \<open>The parts of a number: integer part, fraction, exponent; \<open>None\<close> where a digit is missing.\<close>

definition scan_int :: "string \<Rightarrow> (string \<times> string) option" where
  "scan_int s =
     (case s of
        [] \<Rightarrow> None
      | c # s' \<Rightarrow> if c = CHR ''0'' then Some ([c], s') else if digit c then Some (split_while digit s) else None)"

definition scan_digits :: "string \<Rightarrow> (string \<times> string) option" where
  "scan_digits s = (if s \<noteq> [] \<and> digit (hd s) then Some (split_while digit s) else None)"

definition scan_frac :: "string \<Rightarrow> (string \<times> string) option" where
  "scan_frac s =
     (case s of
        c # s' \<Rightarrow> if c = CHR ''.'' then map_option (\<lambda>(ds, rest). (c # ds, rest)) (scan_digits s') else Some ([], s)
      | [] \<Rightarrow> Some ([], s))"

definition scan_exp :: "string \<Rightarrow> (string \<times> string) option" where
  "scan_exp s =
     (case s of
        c # s' \<Rightarrow>
          if c = CHR ''e'' \<or> c = CHR ''E'' then
            (case s' of
               g # s'' \<Rightarrow>
                 if g = CHR ''+'' \<or> g = CHR ''-''
                 then map_option (\<lambda>(ds, rest). (c # g # ds, rest)) (scan_digits s'')
                 else map_option (\<lambda>(ds, rest). (c # ds, rest)) (scan_digits s')
             | [] \<Rightarrow> None)
          else Some ([], s)
      | [] \<Rightarrow> Some ([], s))"

definition split_minus :: "string \<Rightarrow> string \<times> string" where
  "split_minus s = (if s \<noteq> [] \<and> hd s = CHR ''-'' then ([hd s], tl s) else ([], s))"

definition scan_number :: "string \<Rightarrow> (string \<times> string) option" where
  "scan_number s =
     (let (sign, s0) = split_minus s
      in case scan_int s0 of
           None \<Rightarrow> None
         | Some (i, s1) \<Rightarrow>
             (case scan_frac s1 of
                None \<Rightarrow> None
              | Some (f, s2) \<Rightarrow>
                  (case scan_exp s2 of None \<Rightarrow> None | Some (e, s3) \<Rightarrow> Some (sign @ i @ f @ e, s3))))"

definition space :: "char \<Rightarrow> bool" where
  "space c \<longleftrightarrow> c = CHR '' '' \<or> c = CHR 0x09 \<or> c = CHR 0x0A \<or> c = CHR 0x0D"

definition punctuation :: "char \<Rightarrow> token option" where
  "punctuation c = map_of
     [(CHR ''{'', TLBrace), (CHR ''}'', TRBrace), (CHR ''['', TLBrack), (CHR '']'', TRBrack),
      (CHR '':'', TColon), (CHR '','', TComma)] c"

definition keyword :: "string \<Rightarrow> (token \<times> string) option" where
  "keyword s =
     (if HasPrefix s ''true'' then Some (TTrue, drop 4 s)
      else if HasPrefix s ''false'' then Some (TFalse, drop 5 s)
      else if HasPrefix s ''null'' then Some (TNull, drop 4 s) else None)"

text \<open>The token a string that does not start with white space starts with.\<close>

definition next_token :: "string \<Rightarrow> (token \<times> string) option" where
  "next_token s =
     (case s of
        [] \<Rightarrow> None
      | c # s' \<Rightarrow>
          (case punctuation c of
             Some t \<Rightarrow> Some (t, s')
           | None \<Rightarrow>
               if c = quote then map_option (\<lambda>(raw, rest). (TStr (unquote raw), rest)) (scan_string s')
               else if c = CHR ''-'' \<or> digit c then map_option (\<lambda>(n, rest). (TNum n, rest)) (scan_number s)
               else keyword s))"

lemma scan_string_append: "scan_string s = Some (raw, rest) \<Longrightarrow> s = raw @ quote # rest"
proof (induction s arbitrary: raw rest rule: scan_string.induct)
  case (2 c s)
  show ?case
  proof (cases "c = quote \<or> c \<noteq> backslash")
    case True
    with 2 show ?thesis by (auto split: if_splits)
  next
    case False
    then obtain e s' where s: "s = e # s'" using "2.prems" by (auto split: list.splits)
    show ?thesis
    proof (cases "unescape e = None")
      case True
      with False s "2.prems" obtain raw' where *: "getu4 (c # s) \<noteq> None" "scan_string (drop 5 s) = Some (raw', rest)"
        "raw = c # take 5 s @ raw'"
        by (auto simp del: getu4.simps drop_Suc_Cons take_Suc_Cons split: if_splits)
      from "2.IH"(2) [OF _ _ s _ *(1,2)] False True have "drop 5 s = raw' @ quote # rest" by simp
      then show ?thesis using append_take_drop_id [of 5 s] by (simp add: *(3))
    next
      case unesc: False
      with False s "2.prems" "2.IH"(1) [OF _ _ s] show ?thesis by auto
    qed
  qed
qed simp

lemma scan_string_less: "scan_string s = Some (raw, rest) \<Longrightarrow> length rest < length s"
  by (auto dest: scan_string_append)

lemma split_while_append: "split_while p s = (a, b) \<Longrightarrow> s = a @ b"
  by (auto simp: split_while_def)

lemma scan_digits_append: "scan_digits s = Some (a, b) \<Longrightarrow> s = a @ b \<and> a \<noteq> []"
  by (cases s) (auto simp: scan_digits_def split_while_def split: if_splits)

lemma scan_int_append: "scan_int s = Some (a, b) \<Longrightarrow> s = a @ b \<and> a \<noteq> []"
  by (auto simp: scan_int_def split_while_def split: list.splits if_splits)

lemma scan_frac_append: "scan_frac s = Some (a, b) \<Longrightarrow> s = a @ b"
  by (auto simp: scan_frac_def dest!: scan_digits_append split: list.splits if_splits)

lemma scan_exp_append: "scan_exp s = Some (a, b) \<Longrightarrow> s = a @ b"
  by (auto simp: scan_exp_def dest!: scan_digits_append split: list.splits if_splits)

lemma scan_number_append: "scan_number s = Some (a, b) \<Longrightarrow> s = a @ b \<and> a \<noteq> []"
  by (cases s) (auto simp: scan_number_def split_minus_def dest!: scan_int_append scan_frac_append scan_exp_append
      split: list.splits if_splits option.splits)

lemma scan_number_less: "scan_number s = Some (a, b) \<Longrightarrow> length b < length s"
  by (auto dest: scan_number_append)

lemma next_token_consumes: "next_token s = Some (t, rest) \<Longrightarrow> length rest < length s"
  by (auto simp: next_token_def keyword_def HasPrefix_def dest: scan_string_less scan_number_less
      split: list.splits option.splits if_splits)

function lex :: "string \<Rightarrow> token list option" where
  "lex s =
     (case s of
        [] \<Rightarrow> Some []
      | c # s' \<Rightarrow>
          if space c then lex s'
          else (case next_token s of None \<Rightarrow> None | Some (t, rest) \<Rightarrow> map_option (\<lambda>ts. t # ts) (lex rest)))"
  by pat_completeness auto
termination
  by (relation "measure length") (auto dest: next_token_consumes)

declare lex.simps [simp del]

section \<open>The scanner's stack\<close>

datatype json =
    JNull | JBool bool | JNum string | JStr string | JArr "json list" | JObj "(string \<times> json) list"

text \<open>The open array or object, with what it holds so far in reverse and the key that waits for its value.\<close>

datatype frame = FArr "json list" | FObj "(string \<times> json) list" string

text \<open>
  What the scanner expects: a value; a value or the end of an array just opened; a key (or, just
  after opening, the end of the object); a colon; or what may follow a value.
\<close>

datatype mode =
    MVal | MElem | MKey bool "(string \<times> json) list" | MColon "(string \<times> json) list" string | MEnd json

definition maxNestingDepth :: nat where
  "maxNestingDepth = 10000"

fun begin_value :: "frame list \<Rightarrow> token \<Rightarrow> (frame list \<times> mode) option" where
  "begin_value fs TNull = Some (fs, MEnd JNull)"
| "begin_value fs TTrue = Some (fs, MEnd (JBool True))"
| "begin_value fs TFalse = Some (fs, MEnd (JBool False))"
| "begin_value fs (TNum n) = Some (fs, MEnd (JNum n))"
| "begin_value fs (TStr s) = Some (fs, MEnd (JStr s))"
| "begin_value fs TLBrace = (if length fs < maxNestingDepth then Some (fs, MKey True []) else None)"
| "begin_value fs TLBrack = (if length fs < maxNestingDepth then Some (FArr [] # fs, MElem) else None)"
| "begin_value fs _ = None"

fun end_value :: "frame list \<Rightarrow> json \<Rightarrow> token \<Rightarrow> (frame list \<times> mode) option" where
  "end_value (FArr vs # fs) v TComma = Some (FArr (v # vs) # fs, MVal)"
| "end_value (FArr vs # fs) v TRBrack = Some (fs, MEnd (JArr (rev (v # vs))))"
| "end_value (FObj ms k # fs) v TComma = Some (fs, MKey False ((k, v) # ms))"
| "end_value (FObj ms k # fs) v TRBrace = Some (fs, MEnd (JObj (rev ((k, v) # ms))))"
| "end_value _ _ _ = None"

fun scan_step :: "frame list \<Rightarrow> mode \<Rightarrow> token \<Rightarrow> (frame list \<times> mode) option" where
  "scan_step fs MVal t = begin_value fs t"
| "scan_step fs MElem t = (if t = TRBrack then Some (tl fs, MEnd (JArr [])) else begin_value fs t)"
| "scan_step fs (MKey first ms) t =
     (case t of
        TStr k \<Rightarrow> Some (fs, MColon ms k)
      | TRBrace \<Rightarrow> if first then Some (fs, MEnd (JObj (rev ms))) else None
      | _ \<Rightarrow> None)"
| "scan_step fs (MColon ms k) t = (if t = TColon then Some (FObj ms k # fs, MVal) else None)"
| "scan_step fs (MEnd v) t = end_value fs v t"

fun scan_tokens :: "frame list \<Rightarrow> mode \<Rightarrow> token list \<Rightarrow> json option" where
  "scan_tokens fs m [] = (case (fs, m) of ([], MEnd v) \<Rightarrow> Some v | _ \<Rightarrow> None)"
| "scan_tokens fs m (t # ts) =
     (case scan_step fs m t of None \<Rightarrow> None | Some (fs', m') \<Rightarrow> scan_tokens fs' m' ts)"

definition json_parse :: "string \<Rightarrow> json option" where
  "json_parse s = (case lex s of None \<Rightarrow> None | Some ts \<Rightarrow> scan_tokens [] MVal ts)"

definition json_Valid :: "string \<Rightarrow> bool" where
  "json_Valid s \<longleftrightarrow> json_parse s \<noteq> None"

end
