(* ===== verification/JsonSpec.thy ===== *)
theory JsonSpec
  imports Json
begin

text \<open>
  What the decoder of Json guarantees: it reads back every value the reference printer writes, and
  every string it returns is valid UTF-8, whatever bytes it was given.
\<close>

section \<open>A reference printer\<close>

definition escape_char :: "char \<Rightarrow> string" where
  "escape_char c =
     (if c = quote \<or> c = backslash then [backslash, c]
      else if byte c < 32 then [backslash, CHR ''u'', CHR ''0'', CHR ''0'', hex_digit (byte c div 16), hex_digit (byte c mod 16)]
      else [c])"

definition escape :: "string \<Rightarrow> string" where
  "escape s = concat (map escape_char s)"

fun show_token :: "token \<Rightarrow> string" where
  "show_token TLBrace = ''{''"
| "show_token TRBrace = ''}''"
| "show_token TLBrack = ''[''"
| "show_token TRBrack = '']''"
| "show_token TColon = '':''"
| "show_token TComma = '',''"
| "show_token TTrue = ''true''"
| "show_token TFalse = ''false''"
| "show_token TNull = ''null''"
| "show_token (TNum n) = n"
| "show_token (TStr s) = quote # escape s @ [quote]"

fun commas :: "token list list \<Rightarrow> token list" where
  "commas [] = []"
| "commas [x] = x"
| "commas (x # y # zs) = x @ TComma # commas (y # zs)"

fun json_tokens :: "json \<Rightarrow> token list" where
  "json_tokens JNull = [TNull]"
| "json_tokens (JBool b) = [if b then TTrue else TFalse]"
| "json_tokens (JNum n) = [TNum n]"
| "json_tokens (JStr s) = [TStr s]"
| "json_tokens (JArr vs) = TLBrack # commas (map json_tokens vs) @ [TRBrack]"
| "json_tokens (JObj ms) = TLBrace # commas (map (\<lambda>(k, v). TStr k # TColon # json_tokens v) ms) @ [TRBrace]"

definition json_print :: "json \<Rightarrow> string" where
  "json_print v = concat (map show_token (json_tokens v))"

fun json_depth :: "json \<Rightarrow> nat" where
  "json_depth (JArr vs) = Suc (fold max (map json_depth vs) 0)"
| "json_depth (JObj ms) = Suc (fold max (map (\<lambda>(k, v). json_depth v) ms) 0)"
| "json_depth _ = 0"

definition num_ok :: "string \<Rightarrow> bool" where
  "num_ok n \<longleftrightarrow> scan_number n = Some (n, [])"

fun json_ok :: "json \<Rightarrow> bool" where
  "json_ok (JNum n) = num_ok n"
| "json_ok (JStr s) = utf8_valid s"
| "json_ok (JArr vs) = list_all json_ok vs"
| "json_ok (JObj ms) = list_all (\<lambda>(k, v). utf8_valid k \<and> json_ok v) ms"
| "json_ok _ = True"

section \<open>The stack machine reads the printed tokens\<close>

lemma fold_max_le: "x \<in> set xs \<Longrightarrow> x \<le> fold max xs (a::nat)"
proof (induction xs arbitrary: a)
  case (Cons y xs)
  have "b \<le> fold max xs b" for b :: nat
    by (induction xs arbitrary: b) (simp, metis fold_simps(2) max.bounded_iff)
  then have "y \<le> fold max xs (max y a)" by (meson max.bounded_iff)
  with Cons show ?case by auto
qed simp

definition reads :: "json \<Rightarrow> bool" where
  "reads v \<longleftrightarrow> (\<forall>fs m ts. json_depth v + length fs \<le> maxNestingDepth \<longrightarrow> m \<in> {MVal, MElem} \<longrightarrow>
     scan_tokens fs m (json_tokens v @ ts) = scan_tokens fs (MEnd v) ts)"

lemma scan_elements:
  assumes "vs \<noteq> []" "\<forall>v \<in> set vs. reads v \<and> json_depth v + Suc (length fs) \<le> maxNestingDepth" "m \<in> {MVal, MElem}"
  shows "scan_tokens (FArr acc # fs) m (commas (map json_tokens vs) @ TRBrack # ts) =
    scan_tokens fs (MEnd (JArr (rev acc @ vs))) ts"
  using assms
proof (induction "map json_tokens vs" arbitrary: vs acc m rule: commas.induct)
  case (2 x)
  then obtain v where "vs = [v]" by auto
  with 2 show ?case by (auto simp: reads_def)
next
  case (3 x y zs)
  then obtain v w us where vs: "vs = v # w # us" by (auto simp: Cons_eq_map_conv)
  have "scan_tokens (FArr acc # fs) m (json_tokens v @ TComma # commas (map json_tokens (w # us)) @ TRBrack # ts) =
      scan_tokens (FArr acc # fs) (MEnd v) (TComma # commas (map json_tokens (w # us)) @ TRBrack # ts)"
    using 3(4,5) by (auto simp: reads_def vs)
  also have "\<dots> = scan_tokens (FArr (v # acc) # fs) MVal (commas (map json_tokens (w # us)) @ TRBrack # ts)" by simp
  also have "\<dots> = scan_tokens fs (MEnd (JArr (rev (v # acc) @ w # us))) ts"
    using 3(1) [of "w # us" MVal "v # acc"] 3(2,4) by (auto simp: vs)
  finally show ?case by (simp add: vs)
qed simp

abbreviation member_tokens :: "string \<times> json \<Rightarrow> token list" where
  "member_tokens \<equiv> \<lambda>(k, v). TStr k # TColon # json_tokens v"

lemma scan_members:
  assumes "ms \<noteq> []" "\<forall>(k, v) \<in> set ms. reads v \<and> json_depth v + Suc (length fs) \<le> maxNestingDepth"
  shows "scan_tokens fs (MKey first acc) (commas (map member_tokens ms) @ TRBrace # ts) =
    scan_tokens fs (MEnd (JObj (rev acc @ ms))) ts"
  using assms
proof (induction "map member_tokens ms" arbitrary: ms acc first rule: commas.induct)
  case (2 x)
  then obtain k v where "ms = [(k, v)]" by auto
  with 2 show ?case by (auto simp: reads_def)
next
  case (3 x y zs)
  then obtain k v w us where ms: "ms = (k, v) # w # us" by (auto simp: Cons_eq_map_conv)
  have "scan_tokens fs (MKey first acc) (member_tokens (k, v) @ TComma # commas (map member_tokens (w # us)) @ TRBrace # ts) =
      scan_tokens (FObj acc k # fs) (MEnd v) (TComma # commas (map member_tokens (w # us)) @ TRBrace # ts)"
    using 3(4) by (auto simp: reads_def ms)
  also have "\<dots> = scan_tokens fs (MKey False ((k, v) # acc)) (commas (map member_tokens (w # us)) @ TRBrace # ts)" by simp
  also have "\<dots> = scan_tokens fs (MEnd (JObj (rev ((k, v) # acc) @ w # us))) ts"
    using 3(1) [of "w # us" False "(k, v) # acc"] 3(2,4) by (auto simp: ms)
  finally show ?case by (simp add: ms)
qed simp

lemma reads_all: "reads v"
proof (induction v)
  case (JArr vs)
  have "scan_tokens fs m (json_tokens (JArr vs) @ ts) = scan_tokens fs (MEnd (JArr vs)) ts"
    if "json_depth (JArr vs) + length fs \<le> maxNestingDepth" "m \<in> {MVal, MElem}" for fs m ts
  proof -
    have "\<forall>v \<in> set vs. reads v \<and> json_depth v + Suc (length fs) \<le> maxNestingDepth"
      using that(1) JArr fold_max_le [of _ "map json_depth vs" 0] by fastforce
    then show ?thesis using that scan_elements [of vs fs MElem "[]"] by (cases "vs = []") auto
  qed
  then show ?case by (simp add: reads_def)
next
  case (JObj ms)
  have "scan_tokens fs m (json_tokens (JObj ms) @ ts) = scan_tokens fs (MEnd (JObj ms)) ts"
    if "json_depth (JObj ms) + length fs \<le> maxNestingDepth" "m \<in> {MVal, MElem}" for fs m ts
  proof -
    have "\<forall>(k, v) \<in> set ms. reads v \<and> json_depth v + Suc (length fs) \<le> maxNestingDepth"
      using that(1) JObj fold_max_le [of _ "map (\<lambda>(k, v). json_depth v) ms" 0] by (fastforce simp: snds.simps)
    then show ?thesis using that scan_members [of ms fs True "[]"] by (cases "ms = []") auto
  qed
  then show ?case by (simp add: reads_def)
qed (auto simp: reads_def)

section \<open>The lexer reads the printed text\<close>

text \<open>What may follow a printed number.\<close>

definition stops :: "string \<Rightarrow> bool" where
  "stops s \<longleftrightarrow> s = [] \<or> hd s \<in> {CHR '','', CHR '']'', CHR ''}''}"

definition no_digit :: "string \<Rightarrow> bool" where
  "no_digit s \<longleftrightarrow> s = [] \<or> \<not> digit (hd s)"

lemma stops_heads:
  assumes "stops s"
  shows "no_digit s" "s = [] \<or> hd s \<noteq> CHR ''.''" "s = [] \<or> hd s \<noteq> CHR ''e'' \<and> hd s \<noteq> CHR ''E''"
  using assms by (auto simp: stops_def digit_def between_def no_digit_def)

lemma not_digits [simp]: "\<not> digit (CHR ''.'')" "\<not> digit (CHR ''e'')" "\<not> digit (CHR ''E'')" "\<not> digit (CHR ''+'')" "\<not> digit (CHR ''-'')"
  by (simp_all add: digit_def between_def)

lemma split_while_again:
  assumes "no_digit c"
  shows "split_while digit (takeWhile digit s @ c) = (takeWhile digit s, c)"
proof -
  have "takeWhile digit c = []" "dropWhile digit c = c" using assms by (cases c; simp add: no_digit_def)+
  then show ?thesis by (induction s) (auto simp: split_while_def)
qed

text \<open>Scanning again what was scanned, before anything that does not continue it.\<close>

lemma scan_digits_again: "scan_digits s = Some (a, b) \<Longrightarrow> no_digit c \<Longrightarrow> scan_digits (a @ c) = Some (a, c)"
  using split_while_again [of c s] by (cases s) (auto simp: scan_digits_def split_while_def split: if_splits)

lemma scan_int_again: "scan_int s = Some (a, b) \<Longrightarrow> no_digit c \<Longrightarrow> scan_int (a @ c) = Some (a, c)"
  using split_while_again [of c s] by (cases s) (auto simp: scan_int_def split_while_def split: if_splits)

lemma scan_frac_again:
  assumes "scan_frac s = Some (a, b)" "no_digit c" "c = [] \<or> hd c \<noteq> CHR ''.''"
  shows "scan_frac (a @ c) = Some (a, c)"
proof (cases a)
  case Nil
  with assms(3) show ?thesis by (cases c) (auto simp: scan_frac_def)
next
  case (Cons x xs)
  with assms(1) scan_digits_again [OF _ assms(2)] show ?thesis
    by (auto simp: scan_frac_def split: list.splits if_splits)
qed

lemma scan_exp_again:
  assumes "scan_exp s = Some (a, b)" "no_digit c" "c = [] \<or> hd c \<noteq> CHR ''e'' \<and> hd c \<noteq> CHR ''E''"
  shows "scan_exp (a @ c) = Some (a, c)"
proof (cases a)
  case Nil
  with assms(3) show ?thesis by (cases c) (auto simp: scan_exp_def)
next
  case (Cons x xs)
  with assms(1) obtain g ys where a: "a = x # ys \<and> scan_digits g = Some (ys, b) \<or>
      (\<exists>h zs. a = x # h # zs \<and> (h = CHR ''+'' \<or> h = CHR ''-'') \<and> scan_digits g = Some (zs, b))"
    and x: "x = CHR ''e'' \<or> x = CHR ''E''"
    by (auto simp: scan_exp_def split: list.splits if_splits)
  from a show ?thesis
  proof
    assume "a = x # ys \<and> scan_digits g = Some (ys, b)"
    then have *: "a = x # ys" "scan_digits g = Some (ys, b)" by simp_all
    then have "ys \<noteq> [] \<and> digit (hd ys)" by (cases g) (auto simp: scan_digits_def split_while_def split: if_splits)
    with * x scan_digits_again [OF *(2) assms(2)] show ?thesis by (cases ys) (auto simp: scan_exp_def)
  next
    assume "\<exists>h zs. a = x # h # zs \<and> (h = CHR ''+'' \<or> h = CHR ''-'') \<and> scan_digits g = Some (zs, b)"
    then obtain h zs where *: "a = x # h # zs" "scan_digits g = Some (zs, b)" "h = CHR ''+'' \<or> h = CHR ''-''" by blast
    with x scan_digits_again [OF *(2) assms(2)] show ?thesis by (auto simp: scan_exp_def)
  qed
qed

lemma scan_number_again:
  assumes "scan_number s = Some (n, b)" "stops c"
  shows "scan_number (n @ c) = Some (n, c)"
proof -
  from assms(1) obtain sign s0 i s1 f s2 e where n: "split_minus s = (sign, s0)" "scan_int s0 = Some (i, s1)"
    "scan_frac s1 = Some (f, s2)" "scan_exp s2 = Some (e, b)" "n = sign @ i @ f @ e"
    by (auto simp: scan_number_def split: option.splits prod.splits)
  have e: "e = [] \<or> hd e = CHR ''e'' \<or> hd e = CHR ''E''" using n(4) by (auto simp: scan_exp_def split: list.splits if_splits)
  have f: "f = [] \<or> hd f = CHR ''.''" using n(3) by (auto simp: scan_frac_def split: list.splits if_splits)
  have 3: "scan_exp (e @ c) = Some (e, c)" using scan_exp_again [OF n(4)] stops_heads [OF assms(2)] by blast
  have 2: "scan_frac (f @ e @ c) = Some (f, e @ c)"
    by (rule scan_frac_again [OF n(3)]) (use e stops_heads [OF assms(2)] in \<open>auto simp: no_digit_def hd_append\<close>)
  have 1: "scan_int (i @ f @ e @ c) = Some (i, f @ e @ c)"
    by (rule scan_int_again [OF n(2)]) (use e f stops_heads [OF assms(2)] in \<open>auto simp: no_digit_def hd_append\<close>)
  have "i \<noteq> []" "hd i \<noteq> CHR ''-''"
    using n(2) by (auto simp: scan_int_def split_while_def split: list.splits if_splits)
  with n(1) have "split_minus (sign @ i @ r) = (sign, i @ r)" for r by (auto simp: split_minus_def split: if_splits)
  with 1 2 3 show ?thesis by (simp add: scan_number_def n(5))
qed

lemma num_ok_scanned: "scan_number s = Some (n, b) \<Longrightarrow> num_ok n"
  using scan_number_again [of s n b "[]"] by (simp add: num_ok_def stops_def)

lemma scan_number_stops: "num_ok n \<Longrightarrow> stops r \<Longrightarrow> scan_number (n @ r) = Some (n, r)"
  by (rule scan_number_again) (auto simp: num_ok_def)

lemma hex_round_trip: "0 \<le> d \<Longrightarrow> d < 16 \<Longrightarrow> hex_value (hex_digit d) = Some d"
  by (auto simp: hex_value_def hex_digit_def between_def of_char_of take_bit_int_eq_self)

lemma byte_bounds: "0 \<le> byte c" "byte c < 256"
  using of_nat_of_char [of c, where 'a = int] nat_of_char_less_256 [of c] by linarith+

lemma getu4_control:
  assumes "byte c < 32"
  shows "getu4 ([backslash, CHR ''u'', CHR ''0'', CHR ''0'', hex_digit (byte c div 16), hex_digit (byte c mod 16)] @ s) = Some (byte c)"
proof -
  have "hex_value (hex_digit (byte c div 16)) = Some (byte c div 16)" "hex_value (hex_digit (byte c mod 16)) = Some (byte c mod 16)"
    using assms byte_bounds(1) [of c] by (auto intro!: hex_round_trip)
  moreover have "hex_value (CHR ''0'') = Some 0" by (simp add: hex_value_def between_def)
  ultimately show ?thesis by (simp add: mult.commute [of _ 16])
qed

lemma unescape_simps: "unescape quote = Some quote" "unescape backslash = Some backslash" "unescape (CHR ''u'') = None"
  by (simp_all add: unescape_def)

lemma scan_escape_char:
  "scan_string (escape_char c @ s) = map_option (\<lambda>(raw, rest). (escape_char c @ raw, rest)) (scan_string s)"
proof (cases "c \<noteq> quote \<and> c \<noteq> backslash \<and> byte c < 32")
  case True
  then show ?thesis using getu4_control [of c s]
    by (simp add: escape_char_def unescape_simps numeral_eq_Suc del: getu4.simps)
next
  case False
  then show ?thesis by (auto simp: escape_char_def unescape_simps)
qed

lemma scan_escape: "scan_string (escape s @ quote # rest) = Some (escape s, rest)"
  by (induction s) (auto simp: escape_def scan_escape_char)

text \<open>Decoding an escaped string character by character.\<close>

lemma utf8_len_ascii: "byte c < 128 \<Longrightarrow> utf8_len (c # s) = 1"
  using byte_bounds(1) [of c] by (simp add: utf8_len_def between_def)

lemma unquote_copy:
  assumes "s \<noteq> []" "hd s \<noteq> backslash" "utf8_len s \<noteq> 0"
  shows "unquote s = take (utf8_len s) s @ unquote (drop (utf8_len s) s)"
  using assms by (subst unquote.simps) (simp add: decode_char_def)

lemma getu4_None: "c \<noteq> CHR ''u'' \<Longrightarrow> getu4 (b # c # s) = None"
  by (cases "b # c # s" rule: getu4.cases) auto

lemma unquote_escape_char:
  assumes "byte c < 128"
  shows "unquote (escape_char c @ s) = c # unquote s"
proof -
  consider "c = quote \<or> c = backslash" | "c \<noteq> quote" "c \<noteq> backslash" "byte c < 32" | "c \<noteq> quote" "c \<noteq> backslash" "\<not> byte c < 32"
    by blast
  then show ?thesis
  proof cases
    case 1
    moreover have "getu4 (backslash # c # s) = None" using 1 by (auto intro: getu4_None)
    ultimately show ?thesis by (subst unquote.simps) (auto simp: escape_char_def unescape_simps decode_char_def decode_escape_def)
  next
    case 2
    have "enc_rune (byte c) = [c]" using assms byte_bounds(1) [of c] by (simp add: enc_rune_def)
    then show ?thesis using 2 getu4_control [OF 2(3), of s]
      by (subst unquote.simps)
         (simp add: escape_char_def surrogate_def decode_char_def decode_escape_def numeral_eq_Suc del: getu4.simps)
  next
    case 3
    then show ?thesis using unquote_copy [of "c # s"] utf8_len_ascii [OF assms, of s] by (simp add: escape_char_def)
  qed
qed

lemma utf8_len_cases:
  assumes "utf8_len s \<noteq> 0"
  obtains "utf8_len s = 1" "1 \<le> length s" "between 0 127 (s ! 0)"
  | "utf8_len s = 2" "2 \<le> length s" "\<not> between 0 127 (s ! 0)" "between 194 223 (s ! 0)" "continuation (s ! 1)"
  | "utf8_len s = 3" "3 \<le> length s" "\<not> between 0 127 (s ! 0)" "\<not> (between 194 223 (s ! 0) \<and> continuation (s ! 1))"
    "lead3 (s ! 0) (s ! 1)" "continuation (s ! 2)"
  | "utf8_len s = 4" "4 \<le> length s" "\<not> between 0 127 (s ! 0)" "\<not> (between 194 223 (s ! 0) \<and> continuation (s ! 1))"
    "\<not> (lead3 (s ! 0) (s ! 1) \<and> continuation (s ! 2))" "lead4 (s ! 0) (s ! 1)" "continuation (s ! 2)" "continuation (s ! 3)"
proof (cases "1 \<le> length s \<and> between 0 127 (s ! 0)")
  case False
  have len: "utf8_len s \<le> length s" by (rule utf8_len_le)
  show ?thesis
  proof (cases "2 \<le> length s \<and> between 194 223 (s ! 0) \<and> continuation (s ! 1)")
    case two: False
    then show ?thesis
    proof (cases "3 \<le> length s \<and> lead3 (s ! 0) (s ! 1) \<and> continuation (s ! 2)")
      case three: False
      with False two assms have *: "4 \<le> length s" "lead4 (s ! 0) (s ! 1)" "continuation (s ! 2)" "continuation (s ! 3)"
        by (simp_all add: utf8_len_def split: if_splits)
      with False two three show ?thesis by (intro that(4)) (auto simp: utf8_len_def)
    qed (use False two that(3) in \<open>auto simp: utf8_len_def\<close>)
  qed (use False that(2) in \<open>auto simp: utf8_len_def\<close>)
qed (use that(1) in \<open>simp add: utf8_len_def\<close>)

lemma utf8_len_local:
  assumes "utf8_len a \<noteq> 0" "utf8_len a \<le> length b" "take (utf8_len a) b = take (utf8_len a) a"
  shows "utf8_len b = utf8_len a"
proof -
  have nth: "b ! i = a ! i" if "i < utf8_len a" for i
    using that assms(3) by (metis nth_take)
  from assms(1) show ?thesis
  proof (cases rule: utf8_len_cases)
    case 1 then show ?thesis using nth [of 0] assms(2) by (simp add: utf8_len_def [of b])
  next
    case 2 then show ?thesis using nth [of 0] nth [of 1] assms(2) by (simp add: utf8_len_def [of b])
  next
    case 3 then show ?thesis using nth [of 0] nth [of 1] nth [of 2] assms(2) by (simp add: utf8_len_def [of b])
  next
    case 4 then show ?thesis using nth [of 0] nth [of 1] nth [of 2] nth [of 3] assms(2) by (simp add: utf8_len_def [of b])
  qed
qed

lemma utf8_len_append: "utf8_len a \<noteq> 0 \<Longrightarrow> utf8_len (a @ b) = utf8_len a"
  using utf8_len_le [of a] by (intro utf8_len_local) simp_all

lemma utf8_len_take: "utf8_len s \<noteq> 0 \<Longrightarrow> utf8_len (take (utf8_len s) s) = utf8_len s"
  using utf8_len_le [of s] by (intro utf8_len_local) simp_all

lemma utf8_multi_byte:
  assumes "1 < utf8_len s" "c \<in> set (take (utf8_len s) s)"
  shows "128 \<le> byte c"
proof -
  from assms(2) obtain i where i: "c = s ! i" "i < utf8_len s" by (auto simp: in_set_conv_nth)
  from assms(1) have "utf8_len s \<noteq> 0" by simp
  then show ?thesis
  proof (cases rule: utf8_len_cases)
    case 2
    then have "i = 0 \<or> i = 1" using i(2) by linarith
    with 2 i(1) show ?thesis by (auto simp: between_def)
  next
    case 3
    then have "i = 0 \<or> i = 1 \<or> i = 2" using i(2) by linarith
    with 3 i(1) show ?thesis by (auto simp: between_def lead3_def)
  next
    case 4
    then have "i = 0 \<or> i = 1 \<or> i = 2 \<or> i = 3" using i(2) by linarith
    with 4 i(1) show ?thesis by (auto simp: between_def lead4_def)
  qed (use assms(1) in simp)
qed

lemma utf8_single_byte: "utf8_len (c # s) = Suc 0 \<Longrightarrow> byte c < 128"
  by (auto simp: utf8_len_def between_def split: if_splits)

lemma escape_copy: "\<forall>c \<in> set s. 128 \<le> byte c \<Longrightarrow> escape s = s"
  by (induction s) (auto simp: escape_def escape_char_def)

lemma escape_append: "escape (s @ t) = escape s @ escape t"
  by (simp add: escape_def)

lemma unquote_escape: "utf8_valid s \<Longrightarrow> unquote (escape s) = s"
proof (induction s rule: utf8_valid.induct)
  case (1 s)
  show ?case
  proof (cases "s = []")
    case True
    then show ?thesis by (simp add: escape_def unquote.simps [of "[]"])
  next
    case False
    let ?n = "utf8_len s"
    have n: "?n \<noteq> 0" "utf8_valid (drop ?n s)" using 1(2) False by (subst (asm) utf8_valid.simps, simp split: if_splits)+
    then have IH: "unquote (escape (drop ?n s)) = drop ?n s" using 1(1) False by blast
    show ?thesis
    proof (cases "?n = 1")
      case True
      with False obtain c t where "s = c # t" "byte c < 128" by (cases s) (auto dest: utf8_single_byte)
      with IH True unquote_escape_char [of c "escape t"] show ?thesis by (simp add: escape_def)
    next
      case multi: False
      let ?p = "take ?n s"
      have p: "\<forall>c \<in> set ?p. 128 \<le> byte c" using utf8_multi_byte [of s] n(1) multi by auto
      have esc: "escape s = ?p @ escape (drop ?n s)"
        using escape_append [of ?p "drop ?n s"] escape_copy [OF p] by simp
      have ne: "?p \<noteq> []" using False n(1) by simp
      have len: "utf8_len (escape s) = ?n" "length ?p = ?n"
        using utf8_len_append [of ?p] utf8_len_take [of s] n(1) utf8_len_le [of s] by (simp_all add: esc)
      have "hd (escape s) = hd ?p" "hd ?p \<in> set ?p" using ne hd_in_set [OF ne] by (simp_all only: esc hd_append if_False)
      with p have "128 \<le> byte (hd (escape s))" by simp
      then have "hd (escape s) \<noteq> backslash" by auto
      with unquote_copy [of "escape s"] ne len n(1) IH show ?thesis by (simp add: esc)
    qed
  qed
qed

fun token_ok :: "token \<Rightarrow> bool" where
  "token_ok (TNum n) = num_ok n"
| "token_ok (TStr s) = utf8_valid s"
| "token_ok _ = True"

fun is_num :: "token \<Rightarrow> bool" where
  "is_num (TNum n) = True"
| "is_num _ = False"

lemma num_ok_head: "num_ok n \<Longrightarrow> \<exists>c s. n = c # s \<and> (c = CHR ''-'' \<or> digit c)"
  by (cases n) (auto simp: num_ok_def scan_number_def split_minus_def scan_int_def digit_def between_def split: if_splits)

lemma digit_punctuation: "digit c \<Longrightarrow> punctuation c = None \<and> c \<noteq> quote \<and> \<not> space c"
proof -
  assume d: "digit c"
  have *: "c \<noteq> CHR ''{''" "c \<noteq> CHR ''}''" "c \<noteq> CHR ''[''" "c \<noteq> CHR '']''" "c \<noteq> CHR '':''" "c \<noteq> CHR '',''"
    "c \<noteq> quote" "c \<noteq> CHR '' ''" "c \<noteq> CHR 0x09" "c \<noteq> CHR 0x0A" "c \<noteq> CHR 0x0D"
    using d by (rule contrapos_pn, simp add: digit_def between_def)+
  then show ?thesis by (simp add: punctuation_def space_def)
qed

lemma next_token_show:
  assumes "token_ok t" "is_num t \<longrightarrow> stops r"
  shows "\<exists>c s. show_token t = c # s \<and> \<not> space c \<and> next_token (show_token t @ r) = Some (t, r)"
proof (cases t)
  case (TNum n)
  with assms obtain c s where "n = c # s" "c = CHR ''-'' \<or> digit c" using num_ok_head [of n] by auto
  moreover have "scan_number (n @ r) = Some (n, r)" using scan_number_stops assms TNum by simp
  moreover have "punctuation (CHR ''-'') = None" "\<not> space (CHR ''-'')" by (simp_all add: punctuation_def space_def)
  ultimately show ?thesis using digit_punctuation [of c] TNum by (auto simp: next_token_def)
next
  case (TStr s)
  moreover have "punctuation quote = None" "\<not> space quote" by (simp_all add: punctuation_def space_def)
  ultimately show ?thesis using assms scan_escape [of s r] unquote_escape [of s] by (simp add: next_token_def)
qed (simp_all add: next_token_def punctuation_def space_def keyword_def HasPrefix_def digit_def between_def)

fun sep_ok :: "token list \<Rightarrow> bool" where
  "sep_ok (t # u # ts) = ((is_num t \<longrightarrow> u \<in> {TComma, TRBrack, TRBrace}) \<and> sep_ok (u # ts))"
| "sep_ok [] = True"
| "sep_ok [t] = True"

lemma lex_show: "list_all token_ok ts \<Longrightarrow> sep_ok ts \<Longrightarrow> lex (concat (map show_token ts)) = Some ts"
proof (induction ts rule: sep_ok.induct)
  case (1 t u ts)
  let ?r = "concat (map show_token (u # ts))"
  have "is_num t \<longrightarrow> stops ?r" using 1(3) by (auto simp: stops_def)
  with next_token_show [of t ?r] 1(2) obtain c s where
    "show_token t = c # s" "\<not> space c" "next_token (show_token t @ ?r) = Some (t, ?r)" by auto
  moreover have "lex ?r = Some (u # ts)" using 1 by simp
  ultimately show ?case by (subst lex.simps) simp
next
  case 2
  then show ?case by (simp add: lex.simps)
next
  case (3 t)
  with next_token_show [of t "[]"] obtain c s where
    "show_token t = c # s" "\<not> space c" "next_token (show_token t) = Some (t, [])" by (auto simp: stops_def)
  then show ?case by (subst lex.simps) (simp add: lex.simps [of "[]"])
qed

text \<open>The printed tokens of a value end before a separator.\<close>

abbreviation separator :: "token \<Rightarrow> bool" where
  "separator u \<equiv> u \<in> {TComma, TRBrack, TRBrace}"

definition closes :: "token list \<Rightarrow> bool" where
  "closes xs \<longleftrightarrow> (\<forall>u ts. separator u \<longrightarrow> sep_ok (u # ts) \<longrightarrow> sep_ok (xs @ u # ts))"

lemma sep_ok_Cons: "\<not> is_num t \<Longrightarrow> sep_ok (t # ts) = sep_ok ts"
  by (cases ts) auto

lemma closes_commas: "\<forall>x \<in> set xs. closes x \<Longrightarrow> closes (commas xs)"
proof (induction xs rule: commas.induct)
  case (3 x y zs)
  then show ?case by (auto simp: closes_def sep_ok_Cons)
qed (auto simp: closes_def)

lemma closes_bracket: "closes xs \<Longrightarrow> \<not> is_num a \<Longrightarrow> separator b \<Longrightarrow> closes (a # xs @ [b])"
  by (auto simp: closes_def sep_ok_Cons)

lemma closes_tokens: "closes (json_tokens v)"
proof (induction v)
  case (JArr vs)
  then show ?case using closes_bracket [OF closes_commas [of "map json_tokens vs"], of TLBrack TRBrack] by simp
next
  case (JObj ms)
  have "closes (member_tokens m)" if "m \<in> set ms" for m
    using JObj [OF that, of "snd m"] by (cases m) (auto simp: closes_def sep_ok_Cons snds.simps)
  then have "\<forall>x \<in> set (map member_tokens ms). closes x" by auto
  then show ?case using closes_bracket [OF closes_commas, of "map member_tokens ms" TLBrace TRBrace] by simp
qed (auto simp: closes_def sep_ok_Cons split: if_splits)

lemma sep_ok_prefix: "sep_ok (xs @ ys) \<Longrightarrow> sep_ok xs"
  by (induction xs rule: sep_ok.induct) auto

lemma sep_ok_tokens: "sep_ok (json_tokens v)"
  using closes_tokens [of v] sep_ok_prefix [of "json_tokens v" "[TComma]"] by (auto simp: closes_def)

lemma set_commas: "set (commas xs) \<subseteq> insert TComma (\<Union> (set ` set xs))"
  by (induction xs rule: commas.induct) auto

lemma list_all_commas: "P TComma \<Longrightarrow> \<forall>x \<in> set xs. list_all P x \<Longrightarrow> list_all P (commas xs)"
  using set_commas [of xs] by (fastforce simp: list_all_iff)

lemma tokens_ok: "json_ok v \<Longrightarrow> list_all token_ok (json_tokens v)"
proof (induction v)
  case (JArr vs)
  then have "list_all token_ok (commas (map json_tokens vs))" by (intro list_all_commas) (auto simp: list_all_iff)
  then show ?case by simp
next
  case (JObj ms)
  have "list_all token_ok (member_tokens m)" if "m \<in> set ms" for m
    using JObj(1) [OF that, of "snd m"] JObj(2) that by (auto simp: list_all_iff snds.simps)
  then have "list_all token_ok (commas (map member_tokens ms))" by (intro list_all_commas) auto
  then show ?case by simp
qed auto

lemma reads_back:
  assumes "json_ok v" "json_depth v \<le> maxNestingDepth"
  shows "json_parse (json_print v) = Some v"
proof -
  have "lex (json_print v) = Some (json_tokens v)"
    unfolding json_print_def using assms(1) by (intro lex_show tokens_ok sep_ok_tokens)
  moreover have "scan_tokens [] MVal (json_tokens v @ []) = scan_tokens [] (MEnd v) []"
    using reads_all [of v, unfolded reads_def, rule_format, of "[]" MVal "[]"] assms(2) by simp
  ultimately show ?thesis by (simp add: json_parse_def)
qed

text \<open>
  \<open>encoding/json\<close> reads back what is written: for every value whose numbers are JSON numbers,
  whose strings and keys are valid UTF-8 and whose nesting stays within the decoder's limit, the
  text the reference printer gives for it decodes to that value again.
\<close>

theorem json_round_trip:
  assumes "json_ok v" "json_depth v \<le> maxNestingDepth"
  shows "json_parse (json_print v) = Some v"
  by (rule reads_back [OF assms])

section \<open>What the decoder returns is well-formed\<close>

lemma utf8_valid_Nil [simp]: "utf8_valid []"
  by (simp add: utf8_valid.simps)

lemma utf8_valid_append: "utf8_valid a \<Longrightarrow> utf8_valid b \<Longrightarrow> utf8_valid (a @ b)"
proof (induction a rule: utf8_valid.induct)
  case (1 a)
  show ?case
  proof (cases "a = []")
    case False
    then have n: "utf8_len a \<noteq> 0" "utf8_valid (drop (utf8_len a) a)"
      using 1(2) by (subst (asm) utf8_valid.simps, simp split: if_splits)+
    then have "utf8_valid (drop (utf8_len a) (a @ b))" using 1 False utf8_len_le [of a] by simp
    then show ?thesis using False n(1) by (subst utf8_valid.simps) (simp add: utf8_len_append)
  qed (use 1 in simp)
qed

lemma utf8_valid_char: "utf8_len s \<noteq> 0 \<Longrightarrow> utf8_valid (take (utf8_len s) s)"
  by (subst utf8_valid.simps) (simp add: utf8_len_take)

lemma utf8_valid_whole: "utf8_len s = length s \<Longrightarrow> utf8_valid s"
  using utf8_valid_char [of s] by (cases s) auto

lemma byte_char_of: "0 \<le> n \<Longrightarrow> n < 256 \<Longrightarrow> byte (char_of n) = n"
  by (simp add: of_char_of take_bit_int_eq_self)

lemma lead3_char_of:
  fixes a b :: int
  assumes "0 \<le> a" "a < 16" "0 \<le> b" "b < 64" "a = 0 \<longrightarrow> 32 \<le> b" "a = 13 \<longrightarrow> b < 32"
  shows "lead3 (char_of (224 + a)) (char_of (128 + b))"
proof -
  have "byte (char_of (224 + a)) = 224 + a" "byte (char_of (128 + b)) = 128 + b" using assms by (simp_all add: byte_char_of)
  then show ?thesis unfolding lead3_def between_def using assms by presburger
qed

lemma lead4_char_of:
  fixes a b :: int
  assumes "0 \<le> a" "a < 5" "0 \<le> b" "b < 64" "a = 0 \<longrightarrow> 16 \<le> b" "a = 4 \<longrightarrow> b < 16"
  shows "lead4 (char_of (240 + a)) (char_of (128 + b))"
proof -
  have "byte (char_of (240 + a)) = 240 + a" "byte (char_of (128 + b)) = 128 + b" using assms by (simp_all add: byte_char_of)
  then show ?thesis unfolding lead4_def between_def using assms by presburger
qed

lemma enc_rune_valid:
  assumes "0 \<le> u" "u < 1114112" "\<not> surrogate u"
  shows "utf8_valid (enc_rune u)"
proof (rule utf8_valid_whole)
  have cont: "continuation (char_of (128 + x mod 64))" for x :: int
    by (simp add: between_def byte_char_of)
  consider "u < 128" | "128 \<le> u" "u < 2048" | "2048 \<le> u" "u < 65536" | "65536 \<le> u" by linarith
  then show "utf8_len (enc_rune u) = length (enc_rune u)"
  proof cases
    case 1
    then show ?thesis using assms by (simp add: enc_rune_def utf8_len_def between_def byte_char_of)
  next
    case 2
    then have "2 \<le> u div 64" "u div 64 < 32" by auto
    with 2 show ?thesis by (simp add: enc_rune_def utf8_len_def cont) (simp add: between_def byte_char_of)
  next
    case 3
    then have q: "0 \<le> u div 4096" "u div 4096 < 16" "0 \<le> u div 64 mod 64" "u div 64 mod 64 < 64" by auto
    have u: "u div 64 = 64 * (u div 4096) + u div 64 mod 64" using zdiv_zmult2_eq [of 64 u 64] by simp
    have "u div 4096 = 0 \<longrightarrow> 32 \<le> u div 64 mod 64" using 3(1) u by linarith
    moreover have "u div 4096 = 13 \<longrightarrow> u div 64 mod 64 < 32" using assms(3) u by (auto simp: surrogate_def)
    ultimately have "lead3 (char_of (224 + u div 4096)) (char_of (128 + u div 64 mod 64))"
      using q by (intro lead3_char_of) auto
    moreover have "\<not> between 0 127 (char_of (224 + u div 4096))" "\<not> between 194 223 (char_of (224 + u div 4096))"
      using q by (auto simp: between_def byte_char_of)
    ultimately show ?thesis using 3 by (simp add: enc_rune_def utf8_len_def cont)
  next
    case 4
    then have q: "0 \<le> u div 262144" "u div 262144 < 5" "0 \<le> u div 4096 mod 64" "u div 4096 mod 64 < 64" using assms(2) by auto
    have u: "u div 4096 = 64 * (u div 262144) + u div 4096 mod 64" using zdiv_zmult2_eq [of 64 u 4096] by simp
    have "u div 262144 = 0 \<longrightarrow> 16 \<le> u div 4096 mod 64" using 4 u by linarith
    moreover have "u div 262144 = 4 \<longrightarrow> u div 4096 mod 64 < 16" using assms(2) u by linarith
    ultimately have "lead4 (char_of (240 + u div 262144)) (char_of (128 + u div 4096 mod 64))"
      using q by (intro lead4_char_of) auto
    moreover have "\<not> between 0 127 (char_of (240 + u div 262144))" "\<not> between 194 223 (char_of (240 + u div 262144))"
      "\<not> lead3 (char_of (240 + u div 262144)) (char_of (128 + u div 4096 mod 64))"
      using q by (auto simp: between_def lead3_def byte_char_of)
    ultimately show ?thesis using 4 by (simp add: enc_rune_def utf8_len_def cont)
  qed
qed

lemma hex_value_range: "hex_value c = Some d \<Longrightarrow> 0 \<le> d \<and> d < 16"
  by (auto simp: hex_value_def between_def split: if_splits)

lemma getu4_range: "getu4 s = Some r \<Longrightarrow> 0 \<le> r \<and> r < 65536"
  by (cases s rule: getu4.cases) (auto split: if_splits option.splits dest!: hex_value_range)

lemma unescape_ascii: "unescape e = Some x \<Longrightarrow> utf8_valid [x]"
proof -
  assume "unescape e = Some x"
  then have "byte x < 128" by (auto simp: unescape_def split: if_splits)
  then show ?thesis using utf8_len_ascii [of x "[]"] by (intro utf8_valid_whole) simp
qed

lemma DecodeRune_valid: "DecodeRune r1 r2 \<noteq> replacement \<Longrightarrow> utf8_valid (enc_rune (DecodeRune r1 r2))"
  by (rule enc_rune_valid) (auto simp: DecodeRune_def surrogate_def split: if_splits)

lemma replacement_valid: "utf8_valid (enc_rune replacement)"
  by (rule enc_rune_valid) (auto simp: surrogate_def)

lemma utf8_valid_Cons: "utf8_valid [x] \<Longrightarrow> utf8_valid s \<Longrightarrow> utf8_valid (x # s)"
  using utf8_valid_append [of "[x]" s] by simp

lemma decode_escape_valid: "utf8_valid (fst (decode_escape s))"
proof (cases "getu4 s")
  case (Some r)
  have "\<not> surrogate r \<Longrightarrow> utf8_valid (enc_rune r)"
    using getu4_range [OF Some] by (intro enc_rune_valid) auto
  with Some show ?thesis using DecodeRune_valid replacement_valid
    by (simp add: decode_escape_def split: option.split)
next
  case None
  then show ?thesis by (auto simp: decode_escape_def dest: unescape_ascii split: option.split)
qed

lemma unquote_valid: "utf8_valid (unquote s)"
proof (induction s rule: unquote.induct)
  case (1 s)
  show ?case
  proof (cases "s = []")
    case False
    have "utf8_valid (fst (decode_char s))"
      by (simp add: decode_char_def decode_escape_valid replacement_valid utf8_valid_char)
    with 1 False show ?thesis by (subst unquote.simps) (simp add: utf8_valid_append)
  qed (simp add: unquote.simps)
qed

lemma punctuation_ok: "punctuation c = Some t \<Longrightarrow> token_ok t"
  unfolding punctuation_def by (drule map_of_SomeD) auto

lemma keyword_ok: "keyword s = Some (t, r) \<Longrightarrow> token_ok t"
  by (auto simp: keyword_def split: if_splits)

lemma next_token_ok: "next_token s = Some (t, r) \<Longrightarrow> token_ok t"
  by (auto simp: next_token_def unquote_valid dest: num_ok_scanned punctuation_ok keyword_ok
      split: list.splits option.splits if_splits)

lemma lex_ok: "lex s = Some ts \<Longrightarrow> list_all token_ok ts"
proof (induction s arbitrary: ts rule: lex.induct)
  case (1 s)
  then show ?case
    by (subst (asm) lex.simps) (auto split: list.splits if_splits option.splits dest: next_token_ok)
qed

text \<open>The invariant of the scanner's stack: what it holds is well-formed and not too deep.\<close>

lemma fold_max_less: "fold max xs a + d < (n::nat) \<longleftrightarrow> a + d < n \<and> (\<forall>x \<in> set xs. x + d < n)"
  by (induction xs arbitrary: a) auto

definition value_ok :: "nat \<Rightarrow> json \<Rightarrow> bool" where
  "value_ok d v \<longleftrightarrow> json_ok v \<and> json_depth v + d \<le> maxNestingDepth"

definition members_ok :: "nat \<Rightarrow> (string \<times> json) list \<Rightarrow> bool" where
  "members_ok d ms \<longleftrightarrow> d < maxNestingDepth \<and> (\<forall>(k, v) \<in> set ms. utf8_valid k \<and> value_ok (Suc d) v)"

definition elements_ok :: "nat \<Rightarrow> json list \<Rightarrow> bool" where
  "elements_ok d vs \<longleftrightarrow> d < maxNestingDepth \<and> (\<forall>v \<in> set vs. value_ok (Suc d) v)"

lemma value_ok_JArr: "value_ok d (JArr vs) \<longleftrightarrow> elements_ok d vs"
  using fold_max_less [of "map json_depth vs" 0 d maxNestingDepth]
  by (auto simp: value_ok_def elements_ok_def list_all_iff Suc_le_eq)

lemma value_ok_JObj: "value_ok d (JObj ms) \<longleftrightarrow> members_ok d ms"
  using fold_max_less [of "map (\<lambda>(k, v). json_depth v) ms" 0 d maxNestingDepth]
  by (auto simp: value_ok_def members_ok_def list_all_iff Suc_le_eq)

fun frames_ok :: "frame list \<Rightarrow> bool" where
  "frames_ok [] = True"
| "frames_ok (FArr vs # fs) = (elements_ok (length fs) vs \<and> frames_ok fs)"
| "frames_ok (FObj ms k # fs) = (members_ok (length fs) ms \<and> utf8_valid k \<and> frames_ok fs)"

fun mode_ok :: "frame list \<Rightarrow> mode \<Rightarrow> bool" where
  "mode_ok fs MVal = (length fs \<le> maxNestingDepth)"
| "mode_ok fs MElem = (\<exists>fs'. fs = FArr [] # fs')"
| "mode_ok fs (MKey first ms) = members_ok (length fs) ms"
| "mode_ok fs (MColon ms k) = (members_ok (length fs) ms \<and> utf8_valid k)"
| "mode_ok fs (MEnd v) = value_ok (length fs) v"

lemma begin_value_ok:
  assumes "begin_value fs t = Some (fs', m')" "frames_ok fs" "token_ok t" "length fs \<le> maxNestingDepth"
  shows "frames_ok fs' \<and> mode_ok fs' m'"
  using assms
  by (cases t) (auto simp: value_ok_def members_ok_def elements_ok_def split: if_splits)

lemma end_value_ok:
  assumes "end_value fs v t = Some (fs', m')" "frames_ok fs" "value_ok (length fs) v"
  shows "frames_ok fs' \<and> mode_ok fs' m'"
  using assms
  by (cases "(fs, v, t)" rule: end_value.cases)
     (auto simp: value_ok_JArr value_ok_JObj members_ok_def elements_ok_def)

lemma scan_step_ok:
  assumes "scan_step fs m t = Some (fs', m')" "frames_ok fs" "mode_ok fs m" "token_ok t"
  shows "frames_ok fs' \<and> mode_ok fs' m'"
proof (cases m)
  case MVal
  with assms show ?thesis using begin_value_ok by simp
next
  case MElem
  with assms begin_value_ok [of fs t fs' m'] show ?thesis
    by (auto simp: value_ok_JArr elements_ok_def split: if_splits)
next
  case (MKey first ms)
  with assms show ?thesis by (auto simp: value_ok_JObj members_ok_def split: token.splits if_splits)
next
  case (MColon ms k)
  with assms show ?thesis by (auto simp: members_ok_def split: if_splits)
next
  case (MEnd v)
  with assms end_value_ok show ?thesis by simp
qed

lemma scan_tokens_ok:
  assumes "scan_tokens fs m ts = Some v" "frames_ok fs" "mode_ok fs m" "list_all token_ok ts"
  shows "value_ok 0 v"
  using assms
proof (induction fs m ts rule: scan_tokens.induct)
  case (1 fs m)
  then show ?case by (auto split: list.splits mode.splits)
next
  case (2 fs m t ts)
  then show ?case using scan_step_ok [of fs m t] by (auto split: option.splits)
qed

text \<open>
  Every value \<open>encoding/json\<close> returns is well-formed, whatever bytes it was given: its strings
  and keys are valid UTF-8 (broken bytes and lone surrogates are replaced), its numbers are JSON
  numbers, and its nesting stays within the decoder's limit.
\<close>

theorem json_parse_well_formed:
  assumes "json_parse s = Some v"
  shows "json_ok v \<and> json_depth v \<le> maxNestingDepth"
proof -
  from assms obtain ts where "lex s = Some ts" "scan_tokens [] MVal ts = Some v"
    by (auto simp: json_parse_def split: option.splits)
  then have "value_ok 0 v" using lex_ok by (intro scan_tokens_ok [of "[]" MVal ts]) simp_all
  then show ?thesis by (simp add: value_ok_def)
qed

section \<open>The hypotheses at concrete documents\<close>

definition sample_json :: json where
  "sample_json = JObj [(''a'', JArr [JNum ''-1.5e3'', JNull]), ([CHR 0xC3, CHR 0xA9, CHR 0x0A, quote], JObj [])]"

theorem json_round_trip_witness: "json_parse (json_print sample_json) = Some sample_json"
  by (rule json_round_trip) code_simp+

theorem json_parse_well_formed_witness:
  "\<exists>v. json_parse (quote # backslash # ''ud83d'' @ [CHR 0xFF, quote]) = Some v \<and> json_ok v"
proof -
  have "json_parse (quote # backslash # ''ud83d'' @ [CHR 0xFF, quote]) = Some (JStr (enc_rune replacement @ enc_rune replacement))"
    by code_simp
  from json_parse_well_formed [OF this] this show ?thesis by blast
qed

end
