(* ===== verification/Handlers.thy ===== *)
theory Handlers
  imports WorkerSpec GoLib
begin

text \<open>
  internal/handlers: the registry and its \<open>Dispatch\<close>, and the three job types. The world they act
  on is the file system, the network and the log. \<open>json.Unmarshal\<close> into each payload struct, the
  network's answers and the operations on \<open>float64\<close> are arguments: the theorems hold for every
  decoder, every network and every arithmetic.
\<close>

section \<open>Registry\<close>

type_synonym 'w registry = "string \<Rightarrow> 'w handler option"

definition NewRegistry :: "'w registry" where
  "NewRegistry = Map.empty"

definition Register :: "string \<Rightarrow> 'w handler \<Rightarrow> 'w registry \<Rightarrow> 'w registry" where
  "Register jobType h r = r(jobType \<mapsto> h)"

definition Dispatch :: "'w registry \<Rightarrow> 'w handler" where
  "Dispatch r j wd =
     (case r (j_type j) of
        None \<Rightarrow> (HErr (''no handler registered for job type '' @ fmt_q (j_type j)), wd)
      | Some h \<Rightarrow> h j wd)"

section \<open>The world of the handlers\<close>

text \<open>What an HTTP request comes to: an error of the client, or a response's status code.\<close>

datatype http_reply = RequestFailed string | StatusCode int

record 'f world =
  wd_fs :: fs
  wd_os :: os_env
  wd_url_err :: "string \<Rightarrow> string option"
  wd_http :: "string \<Rightarrow> duration \<Rightarrow> http_reply"
  wd_requests :: "(string \<times> duration) list"
  wd_sums :: "(int \<times> 'f \<times> nat) list"

section \<open>write_file\<close>

record writeFilePayload =
  wf_Name :: string
  wf_Content :: string

text \<open>The path a name is written to, or \<open>None\<close> when it is refused.\<close>

definition write_target :: "string \<Rightarrow> string \<Rightarrow> string option" where
  "write_target baseDir name =
     (let cleaned = Join baseDir name
      in if HasPrefix cleaned (Clean baseDir @ ''/'') then Some cleaned else None)"

definition WriteFileHandler ::
  "(string \<Rightarrow> string + writeFilePayload) \<Rightarrow> string \<Rightarrow> 'f world handler" where
  "WriteFileHandler unmarshal baseDir j wd =
     (case unmarshal (j_payload j) of
        Inl e \<Rightarrow> (HErr (''write_file: invalid payload: '' @ e), wd)
      | Inr p \<Rightarrow>
          if wf_Name p = '''' then (HErr ''write_file: payload.name is required'', wd)
          else
            (case write_target baseDir (wf_Name p) of
               None \<Rightarrow> (HErr (''write_file: '' @ fmt_q (wf_Name p) @ '' escapes the allowed directory''), wd)
             | Some cleaned \<Rightarrow>
                 (case MkdirAll (wd_os wd) (Dir cleaned) (wd_fs wd) of
                    (Some e, fs') \<Rightarrow> (HErr (''write_file: creating directory: '' @ e), wd\<lparr>wd_fs := fs'\<rparr>)
                  | (None, fs') \<Rightarrow>
                      (case WriteFile (wd_os wd) cleaned (wf_Content p) fs' of
                         (Some e, fs'') \<Rightarrow> (HErr (''write_file: '' @ e), wd\<lparr>wd_fs := fs''\<rparr>)
                       | (None, fs'') \<Rightarrow> (HNil, wd\<lparr>wd_fs := fs''\<rparr>)))))"

section \<open>http_check\<close>

record httpCheckPayload =
  hc_URL :: string
  hc_TimeoutSeconds :: "64 word"

definition check_timeout :: "64 word \<Rightarrow> duration" where
  "check_timeout secs = (if 0 <s secs then secs * word_of_int Second else 5 * word_of_int Second)"

definition HTTPCheck :: "(string \<Rightarrow> string + httpCheckPayload) \<Rightarrow> 'f world handler" where
  "HTTPCheck unmarshal j wd =
     (case unmarshal (j_payload j) of
        Inl e \<Rightarrow> (HErr (''http_check: invalid payload: '' @ e), wd)
      | Inr p \<Rightarrow>
          if hc_URL p = '''' then (HErr ''http_check: payload.url is required'', wd)
          else
            (let timeout = check_timeout (hc_TimeoutSeconds p)
             in case wd_url_err wd (hc_URL p) of
                  Some e \<Rightarrow> (HErr (''http_check: building request: '' @ e), wd)
                | None \<Rightarrow>
                    (let wd' = wd\<lparr>wd_requests := wd_requests wd @ [(hc_URL p, timeout)]\<rparr>
                     in case wd_http wd (hc_URL p) timeout of
                          RequestFailed e \<Rightarrow> (HErr (''http_check: request failed: '' @ e), wd')
                        | StatusCode code \<Rightarrow>
                            if code < 200 \<or> 300 \<le> code
                            then (HErr (''http_check: '' @ hc_URL p @ '' returned status '' @ fmt_d code), wd')
                            else (HNil, wd'))))"

section \<open>sum_numbers\<close>

text \<open>\<open>zero\<close> and \<open>add\<close> are those of \<open>float64\<close>; the result is only logged.\<close>

definition SumNumbersHandler ::
  "'f \<Rightarrow> ('f \<Rightarrow> 'f \<Rightarrow> 'f) \<Rightarrow> (string \<Rightarrow> string + 'f list) \<Rightarrow> 'f world handler" where
  "SumNumbersHandler zero add unmarshal j wd =
     (case unmarshal (j_payload j) of
        Inl e \<Rightarrow> (HErr (''sum_numbers: invalid payload: '' @ e), wd)
      | Inr numbers \<Rightarrow>
          if numbers = [] then (HErr ''sum_numbers: payload.numbers must be non-empty'', wd)
          else (HNil, wd\<lparr>wd_sums := wd_sums wd @ [(j_id j, foldl add zero numbers, length numbers)]\<rparr>))"

section \<open>write_file stays below its directory\<close>

text \<open>
  The base directories for which the prefix check is a sandbox: the cleaned path is neither the
  root nor the current directory and does not climb above the current directory.
\<close>

definition base_comps :: "string \<Rightarrow> string list" where
  "base_comps b = clean_comps (rooted b) (split_slash b)"

definition base_ok :: "string \<Rightarrow> bool" where
  "base_ok b \<longleftrightarrow> base_comps b \<noteq> [] \<and> ''..'' \<notin> set (base_comps b)"

lemma split_parts: "\<forall>c \<in> set (split_slash s). CHR ''/'' \<notin> set c"
  by (blast dest: split_slash_parts)

lemma HasPrefix_iff: "HasPrefix s p \<longleftrightarrow> (\<exists>q. s = p @ q)"
  by (auto simp: HasPrefix_def) (metis append_take_drop_id)

lemma prefix_comps:
  assumes "\<forall>c \<in> set bs. plain c" "\<forall>c \<in> set ts. plain c" "bs \<noteq> []"
    and "HasPrefix (path_string rt ts) (path_string rt bs @ ''/'')"
  shows "\<exists>rest. ts = bs @ rest \<and> rest \<noteq> []"
proof -
  from assms(4) obtain q where "path_string rt ts = path_string rt bs @ ''/'' @ q"
    by (auto simp: HasPrefix_iff)
  then have "filter (\<lambda>c. c \<noteq> '''' \<and> c \<noteq> ''.'') (split_slash (path_string rt ts)) =
      filter (\<lambda>c. c \<noteq> '''' \<and> c \<noteq> ''.'') (split_slash (path_string rt bs) @ split_slash q)"
    by (simp only: split_slash_append)
  then have ts: "ts = bs @ filter (\<lambda>c. c \<noteq> '''' \<and> c \<noteq> ''.'') (split_slash q)"
    by (simp add: split_path_string assms(1,2))
  moreover have "ts \<noteq> bs"
  proof
    assume "ts = bs"
    then have "length (path_string rt ts) = length (path_string rt bs)" by simp
    with \<open>path_string rt ts = path_string rt bs @ ''/'' @ q\<close> show False by simp
  qed
  ultimately show ?thesis by auto
qed

lemma write_target_comps:
  assumes "base_ok b" "write_target b name = Some p"
  obtains rest where "p = path_string (rooted b) (base_comps b @ rest)" "rest \<noteq> []"
    "\<forall>c \<in> set (base_comps b @ rest). plain c \<and> c \<noteq> ''..''"
proof -
  have "b \<noteq> ''''" using assms(1) by (auto simp: base_ok_def base_comps_def clean_comps_def)
  let ?ts = "clean_comps (rooted b) (split_slash (b @ ''/'' @ name))"
  have p: "p = path_string (rooted b) ?ts" and pre: "HasPrefix p (Clean b @ ''/'')"
    using assms(2) \<open>b \<noteq> ''''\<close> by (auto simp: write_target_def Let_def Join_def Clean_def rooted_append split: if_splits)
  have bs: "\<forall>c \<in> set (base_comps b). plain c" and ts: "\<forall>c \<in> set ?ts. plain c"
    using clean_comps_plain [OF split_parts] by (auto simp: base_comps_def)
  have "base_comps b \<noteq> []" using assms(1) by (simp add: base_ok_def)
  with prefix_comps [OF bs ts] pre obtain rest where rest: "?ts = base_comps b @ rest" "rest \<noteq> []"
    by (auto simp: p Clean_def base_comps_def)
  have "hd ?ts \<noteq> ''..''"
    using assms(1) unfolding rest(1) base_ok_def by (cases "base_comps b") auto
  then have "''..'' \<notin> set ?ts" by (intro clean_comps_no_dotdot split_parts) simp
  with that [of rest] rest ts p show ?thesis by auto
qed


text \<open>One run of the handler on an accepted name.\<close>

lemma write_file_run:
  assumes "base_ok b" "unmarshal (j_payload j) = Inr p" "write_target b (wf_Name p) = Some target"
    and "WriteFileHandler unmarshal b j wd = (res, wd')"
  shows "touches_only (os_path target) (wd_fs wd) (wd_fs wd')"
    and "res = HNil \<Longrightarrow> wd_fs wd' (os_path target) = Some (File (wf_Content p)) \<and>
       (\<forall>q. ancestor q (os_path target) \<longrightarrow> wd_fs wd' q = Some Directory)"
proof -
  from assms(1,3) obtain rest where t: "target = path_string (rooted b) (base_comps b @ rest)"
    and pl: "\<forall>c \<in> set (base_comps b @ rest). plain c \<and> c \<noteq> ''..''" and ne: "rest \<noteq> []"
    by (rule write_target_comps)
  let ?cs = "base_comps b @ rest"
  have os: "os_path target = (rooted b, ?cs)" unfolding t using pl by (intro os_path_string) blast
  obtain r1 fs1 where M: "MkdirAll (wd_os wd) (Dir target) (wd_fs wd) = (r1, fs1)" by fastforce
  obtain r2 fs2 where W: "WriteFile (wd_os wd) target (wf_Content p) fs1 = (r2, fs2)" by fastforce
  have cs: "?cs \<noteq> []" using ne by simp
  note mk = write_below [OF pl cs M [unfolded t], folded os]
  note wr = WriteFile_touches [OF W]
  note both = touches_only_trans [OF mk(1) wr(1)]
  show "touches_only (os_path target) (wd_fs wd) (wd_fs wd')"
    using assms(2-4) M W mk(1) both
    by (auto simp: WriteFileHandler_def split: if_splits option.splits)
  have anc: "ancestor q (os_path target) \<Longrightarrow> q \<noteq> os_path target" for q
    by (auto simp: ancestor_def)
  assume "res = HNil"
  then have "r1 = None" "r2 = None" "wd_fs wd' = fs2"
    using assms(2-4) M W by (auto simp: WriteFileHandler_def split: if_splits option.splits)
  then show "wd_fs wd' (os_path target) = Some (File (wf_Content p)) \<and>
       (\<forall>q. ancestor q (os_path target) \<longrightarrow> wd_fs wd' q = Some Directory)"
    using wr(2) mk(2) touches_only_keeps [OF wr(1)] anc by blast
qed

lemma write_file_rejected:
  assumes "WriteFileHandler unmarshal b j wd = (res, wd')"
    and "\<And>p target. unmarshal (j_payload j) = Inr p \<Longrightarrow> wf_Name p \<noteq> '''' \<Longrightarrow> write_target b (wf_Name p) \<noteq> Some target"
  shows "wd' = wd \<and> res \<noteq> HNil"
  using assms by (auto simp: WriteFileHandler_def split: sum.splits if_splits option.splits)

text \<open>
  C18. The sandbox of write_file: when the cleaned base directory is a proper directory that does
  not climb with \<open>..\<close>, whatever name a payload asks for, every path whose content a run changes
  lies strictly below the base directory and contains no \<open>..\<close>, except that missing directories
  on the way to the base directory, and the base itself, may be created.
\<close>

theorem write_file_contained:
  assumes "base_ok b" "WriteFileHandler unmarshal b j wd = (res, wd')" "wd_fs wd' q \<noteq> wd_fs wd q"
  shows "fst q = rooted b \<and>
     ((\<exists>rest. snd q = base_comps b @ rest \<and> rest \<noteq> [] \<and> ''..'' \<notin> set rest) \<or>
      (\<exists>rest. base_comps b = snd q @ rest) \<and> wd_fs wd q = None \<and> wd_fs wd' q = Some Directory)"
proof -
  obtain p target where run: "unmarshal (j_payload j) = Inr p" "write_target b (wf_Name p) = Some target"
    using write_file_rejected [OF assms(2)] assms(3) by blast
  from assms(1) run(2) obtain rest where t: "target = path_string (rooted b) (base_comps b @ rest)" "rest \<noteq> []"
    and pl: "\<forall>c \<in> set (base_comps b @ rest). plain c \<and> c \<noteq> ''..''"
    by (rule write_target_comps)
  then have os: "os_path target = (rooted b, base_comps b @ rest)" by (simp add: os_path_string)
  consider "q = os_path target"
    | "ancestor q (os_path target)" "wd_fs wd q = None" "wd_fs wd' q = Some Directory"
    using touches_onlyD [OF write_file_run(1) [OF assms(1) run assms(2)], of q] assms(3) by metis
  then show ?thesis
  proof cases
    case 1
    with pl t(2) show ?thesis by (auto simp: os)
  next
    case 2
    then obtain more where "fst q = rooted b" "snd q @ more = base_comps b @ rest" "more \<noteq> []"
      by (auto simp: ancestor_def os)
    then obtain us where "base_comps b = snd q @ us \<or> snd q = base_comps b @ us \<and> us @ more = rest"
      by (metis append_eq_append_conv2)
    then show ?thesis
    proof
      assume "snd q = base_comps b @ us \<and> us @ more = rest"
      with 2 pl \<open>fst q = rooted b\<close> show ?thesis by (cases "us = []") (use pl in auto)
    qed (use 2 \<open>fst q = rooted b\<close> in blast)
  qed
qed

text \<open>Any number of earlier runs of the same job, each under its own operating system faults.\<close>

definition run_again :: "'f world handler \<Rightarrow> job \<Rightarrow> os_env list \<Rightarrow> 'f world \<Rightarrow> 'f world" where
  "run_again h j envs = fold (\<lambda>env wd. snd (h j (wd\<lparr>wd_os := env\<rparr>))) envs"

lemma run_again_touches:
  assumes "base_ok b" "unmarshal (j_payload j) = Inr p" "write_target b (wf_Name p) = Some target"
  shows "touches_only (os_path target) (wd_fs wd) (wd_fs (run_again (WriteFileHandler unmarshal b) j envs wd))"
proof (induction envs arbitrary: wd)
  case (Cons env envs)
  obtain res wd' where R: "WriteFileHandler unmarshal b j (wd\<lparr>wd_os := env\<rparr>) = (res, wd')" by fastforce
  from write_file_run(1) [OF assms R] Cons [of wd'] show ?case
    by (auto simp: run_again_def R intro: touches_only_trans)
qed (simp add: run_again_def)

text \<open>
  C33. At-least-once execution of write_file: after any number of earlier runs of the same job, each
  cut short by any directory or write error at any byte, one run that returns nil leaves exactly
  the file system of a single clean run: the file holds the payload's content, the directories
  above it exist, and nothing else differs from the start.
\<close>

theorem write_file_replay_safe:
  assumes "base_ok b" "unmarshal (j_payload j) = Inr p" "write_target b (wf_Name p) = Some target"
    and "WriteFileHandler unmarshal b j ((run_again (WriteFileHandler unmarshal b) j envs wd)\<lparr>wd_os := env\<rparr>) = (HNil, wd')"
  shows "wd_fs wd' = (\<lambda>q. if q = os_path target then Some (File (wf_Content p))
     else if ancestor q (os_path target) then Some Directory else wd_fs wd q)"
proof
  fix q
  have T: "touches_only (os_path target) (wd_fs wd) (wd_fs wd')"
    using run_again_touches [where unmarshal = unmarshal and j = j, OF assms(1-3), of wd envs] write_file_run(1) [OF assms]
    by (auto intro: touches_only_trans)
  show "wd_fs wd' q = (if q = os_path target then Some (File (wf_Content p))
     else if ancestor q (os_path target) then Some Directory else wd_fs wd q)"
    using write_file_run(2) [OF assms refl] touches_onlyD [OF T, of q] by metis
qed


text \<open>
  http_check succeeds exactly when the payload decodes, names a URL the client accepts, and the
  response within the timeout has a 2xx status; every other case is an error for the retry path.
\<close>

theorem http_check_outcome:
  "fst (HTTPCheck unmarshal j wd) = HNil \<longleftrightarrow>
     (\<exists>p code. unmarshal (j_payload j) = Inr p \<and> hc_URL p \<noteq> '''' \<and> wd_url_err wd (hc_URL p) = None \<and>
        wd_http wd (hc_URL p) (check_timeout (hc_TimeoutSeconds p)) = StatusCode code \<and> 200 \<le> code \<and> code < 300)"
  by (auto simp: HTTPCheck_def Let_def split: sum.splits option.splits http_reply.splits)


section \<open>Dispatch\<close>

lemma Dispatch_Register: "Dispatch (Register t h r) j wd = (if j_type j = t then h j wd else Dispatch r j wd)"
  by (simp add: Dispatch_def Register_def)

lemma Dispatch_unknown: "r (j_type j) = None \<Longrightarrow> fst (Dispatch r j wd) \<noteq> HNil \<and> snd (Dispatch r j wd) = wd"
  by (simp add: Dispatch_def)


section \<open>The hypotheses at a concrete job\<close>

definition sample_world :: "unit world" where
  "sample_world = \<lparr>wd_fs = Map.empty, wd_os = \<lparr>os_mkdir_err = (\<lambda>p. None), os_write_fault = (\<lambda>p. NoWriteFault)\<rparr>,
     wd_url_err = (\<lambda>u. None), wd_http = (\<lambda>u t. StatusCode 204), wd_requests = [], wd_sums = []\<rparr>"

definition sample_unmarshal :: "string \<Rightarrow> string + writeFilePayload" where
  "sample_unmarshal s = Inr \<lparr>wf_Name = ''d/out.txt'', wf_Content = s\<rparr>"

definition sample_write_job :: job where
  "sample_write_job = \<lparr>j_id = 1, j_type = ''write_file'', j_payload = ''hello'', j_attempts = 1, j_max_attempts = 5,
     j_trace_context = ''''\<rparr>"

text \<open>A first run that dies after two bytes.\<close>

definition sample_crash :: os_env where
  "sample_crash = \<lparr>os_mkdir_err = (\<lambda>p. None), os_write_fault = (\<lambda>p. WriteErr 2 ''disk full'')\<rparr>"

theorem write_file_contained_witness:
  "\<exists>res wd'. WriteFileHandler sample_unmarshal ''./data'' sample_write_job sample_world = (res, wd') \<and>
     wd_fs wd' (False, [''data'', ''d'', ''out.txt'']) = Some (File ''hello'') \<and>
     fst (False, [''data'', ''d'', ''out.txt'']) = rooted ''./data''"
proof -
  obtain res wd' where R: "WriteFileHandler sample_unmarshal ''./data'' sample_write_job sample_world = (res, wd')"
    by fastforce
  have ok: "base_ok ''./data''" by code_simp
  have "wd_fs (snd (WriteFileHandler sample_unmarshal ''./data'' sample_write_job sample_world)) (False, [''data'', ''d'', ''out.txt'']) = Some (File ''hello'')"
    by code_simp
  then have new: "wd_fs wd' (False, [''data'', ''d'', ''out.txt'']) = Some (File ''hello'')" by (simp add: R)
  then have "wd_fs wd' (False, [''data'', ''d'', ''out.txt'']) \<noteq> wd_fs sample_world (False, [''data'', ''d'', ''out.txt''])"
    by (simp add: sample_world_def)
  from conjunct1 [OF write_file_contained [OF ok R this]] R new show ?thesis
    by (intro exI [of _ res] exI [of _ wd']) blast
qed


theorem write_file_replay_safe_witness:
  "\<exists>wd'. WriteFileHandler sample_unmarshal ''./data'' sample_write_job
       ((run_again (WriteFileHandler sample_unmarshal ''./data'') sample_write_job [sample_crash] sample_world)\<lparr>wd_os := wd_os sample_world\<rparr>) = (HNil, wd') \<and>
     wd_fs wd' (os_path ''data/d/out.txt'') = Some (File ''hello'')"
proof -
  let ?wd = "(run_again (WriteFileHandler sample_unmarshal ''./data'') sample_write_job [sample_crash] sample_world)\<lparr>wd_os := wd_os sample_world\<rparr>"
  obtain res wd' where R: "WriteFileHandler sample_unmarshal ''./data'' sample_write_job ?wd = (res, wd')"
    by fastforce
  have "fst (WriteFileHandler sample_unmarshal ''./data'' sample_write_job ?wd) = HNil" by code_simp
  with R have run: "WriteFileHandler sample_unmarshal ''./data'' sample_write_job ?wd = (HNil, wd')" by simp
  have ok: "base_ok ''./data''" by code_simp
  let ?p = "\<lparr>wf_Name = ''d/out.txt'', wf_Content = ''hello''\<rparr>"
  have p: "sample_unmarshal (j_payload sample_write_job) = Inr ?p"
    by (simp add: sample_unmarshal_def sample_write_job_def)
  have t: "write_target ''./data'' (wf_Name ?p) = Some ''data/d/out.txt''" by code_simp
  from write_file_replay_safe [OF ok p t run] run show ?thesis
    by (intro exI [of _ wd']) simp
qed


end
