(* ===== verification/Payload.thy ===== *)
theory Payload
  imports JsonSpec Handlers Config
begin

text \<open>
  \<open>json.Unmarshal\<close> into the payload structs of internal/handlers, with the rules of encoding/json:
  a member sets the field of its name, or else the first field whose name agrees up to case; other
  members are skipped, \<open>null\<close> changes nothing, the last of several members wins, and a value of
  the wrong type leaves its field and makes the whole call fail once the rest has been decoded.
\<close>

section \<open>Unmarshal into a struct\<close>

text \<open>The error of the scanner, or of the first member that has the wrong type; its wording is an argument.\<close>

datatype json_err = SyntaxErr string | TypeErr string json

text \<open>A decoder stores a value into a struct and says whether its type fits.\<close>

type_synonym 'p decoder = "json \<Rightarrow> 'p \<Rightarrow> bool \<times> 'p"

text \<open>\<open>foldName\<close>: upper case, also for the two letters outside ASCII that fold to an ASCII one.\<close>

fun foldName :: "string \<Rightarrow> string" where
  "foldName [] = []"
| "foldName (c # s) =
     (if between 97 122 c then char_of (byte c - 32) # foldName s
      else if HasPrefix (c # s) [CHR 0xC5, CHR 0xBF] then CHR ''S'' # foldName (drop 1 s)
      else if HasPrefix (c # s) [CHR 0xE2, CHR 0x84, CHR 0xAA] then CHR ''K'' # foldName (drop 2 s)
      else c # foldName s)"

definition find_field :: "(string \<times> 'p decoder) list \<Rightarrow> string \<Rightarrow> 'p decoder option" where
  "find_field fds k =
     (case map_of fds k of
        Some d \<Rightarrow> Some d
      | None \<Rightarrow> map_option snd (find (\<lambda>(name, d). foldName name = foldName k) fds))"

fun decode_members ::
  "(string \<times> 'p decoder) list \<Rightarrow> (string \<times> json) list \<Rightarrow> json_err option \<Rightarrow> 'p \<Rightarrow> json_err option \<times> 'p" where
  "decode_members fds [] err p = (err, p)"
| "decode_members fds ((k, v) # ms) err p =
     (case find_field fds k of
        None \<Rightarrow> decode_members fds ms err p
      | Some d \<Rightarrow>
          (let (ok, p') = d v p
           in decode_members fds ms (if ok \<or> err \<noteq> None then err else Some (TypeErr k v)) p'))"

definition Unmarshal :: "(string \<times> 'p decoder) list \<Rightarrow> 'p \<Rightarrow> string \<Rightarrow> json_err + 'p" where
  "Unmarshal fds p data =
     (case json_parse data of
        None \<Rightarrow> Inl (SyntaxErr data)
      | Some JNull \<Rightarrow> Inr p
      | Some (JObj ms) \<Rightarrow>
          (case decode_members fds ms None p of (None, p') \<Rightarrow> Inr p' | (Some e, p') \<Rightarrow> Inl e)
      | Some v \<Rightarrow> Inl (TypeErr '''' v))"

definition string_field :: "(string \<Rightarrow> 'p \<Rightarrow> 'p) \<Rightarrow> 'p decoder" where
  "string_field upd v p = (case v of JStr s \<Rightarrow> (True, upd s p) | JNull \<Rightarrow> (True, p) | _ \<Rightarrow> (False, p))"

definition int_field :: "(int \<Rightarrow> 'p \<Rightarrow> 'p) \<Rightarrow> 'p decoder" where
  "int_field upd v p =
     (case v of
        JNum n \<Rightarrow> (case Atoi n of Inl e \<Rightarrow> (False, p) | Inr i \<Rightarrow> (True, upd i p))
      | JNull \<Rightarrow> (True, p)
      | _ \<Rightarrow> (False, p))"

section \<open>The three payloads\<close>

definition writeFile_fields :: "(string \<times> writeFilePayload decoder) list" where
  "writeFile_fields =
     [(''name'', string_field (\<lambda>s p. p\<lparr>wf_Name := s\<rparr>)), (''content'', string_field (\<lambda>s p. p\<lparr>wf_Content := s\<rparr>))]"

definition Unmarshal_writeFile :: "(json_err \<Rightarrow> string) \<Rightarrow> string \<Rightarrow> string + writeFilePayload" where
  "Unmarshal_writeFile text data =
     map_sum text id (Unmarshal writeFile_fields \<lparr>wf_Name = '''', wf_Content = ''''\<rparr> data)"

definition httpCheck_fields :: "(string \<times> httpCheckPayload decoder) list" where
  "httpCheck_fields =
     [(''url'', string_field (\<lambda>s p. p\<lparr>hc_URL := s\<rparr>)),
      (''timeout_seconds'', int_field (\<lambda>i p. p\<lparr>hc_TimeoutSeconds := word_of_int i\<rparr>))]"

definition Unmarshal_httpCheck :: "(json_err \<Rightarrow> string) \<Rightarrow> string \<Rightarrow> string + httpCheckPayload" where
  "Unmarshal_httpCheck text data =
     map_sum text id (Unmarshal httpCheck_fields \<lparr>hc_URL = '''', hc_TimeoutSeconds = 0\<rparr> data)"

text \<open>
  A slice of numbers: the elements of its backing array and its length. Decoding an array writes
  the elements one after another over what the array holds; \<open>parse_float\<close> is \<open>strconv.ParseFloat\<close>.
\<close>

record 'f sumNumbersPayload =
  sn_backing :: "'f list"
  sn_len :: nat

definition float_element :: "(string \<Rightarrow> 'f option) \<Rightarrow> json \<Rightarrow> 'f \<Rightarrow> bool \<times> 'f" where
  "float_element parse_float v x =
     (case v of
        JNum n \<Rightarrow> (case parse_float n of None \<Rightarrow> (False, x) | Some y \<Rightarrow> (True, y))
      | JNull \<Rightarrow> (True, x)
      | _ \<Rightarrow> (False, x))"

fun fill_array :: "(string \<Rightarrow> 'f option) \<Rightarrow> 'f \<Rightarrow> json list \<Rightarrow> 'f list \<Rightarrow> bool \<times> 'f list" where
  "fill_array parse_float zero [] b = (True, b)"
| "fill_array parse_float zero (v # vs) b =
     (let (ok, x) = float_element parse_float v (case b of [] \<Rightarrow> zero | y # _ \<Rightarrow> y);
          (oks, xs) = fill_array parse_float zero vs (tl b)
      in (ok \<and> oks, x # xs))"

definition floats_field :: "(string \<Rightarrow> 'f option) \<Rightarrow> 'f \<Rightarrow> 'f sumNumbersPayload decoder" where
  "floats_field parse_float zero v p =
     (case v of
        JArr [] \<Rightarrow> (True, \<lparr>sn_backing = [], sn_len = 0\<rparr>)
      | JArr vs \<Rightarrow>
          (let (ok, b) = fill_array parse_float zero vs (sn_backing p) in (ok, \<lparr>sn_backing = b, sn_len = length vs\<rparr>))
      | JNull \<Rightarrow> (True, \<lparr>sn_backing = [], sn_len = 0\<rparr>)
      | _ \<Rightarrow> (False, p))"

definition Unmarshal_sumNumbers :: "(string \<Rightarrow> 'f option) \<Rightarrow> 'f \<Rightarrow> (json_err \<Rightarrow> string) \<Rightarrow> string \<Rightarrow> string + 'f list" where
  "Unmarshal_sumNumbers parse_float zero text data =
     map_sum text (\<lambda>p. take (sn_len p) (sn_backing p))
       (Unmarshal [(''numbers'', floats_field parse_float zero)] \<lparr>sn_backing = [], sn_len = 0\<rparr> data)"

section \<open>Numbers as text\<close>

lemma digit_char_value: "0 \<le> d \<Longrightarrow> d < 10 \<Longrightarrow> of_char (digit_char d) = 48 + d"
  by (simp add: digit_char_def take_bit_int_eq_self of_char_of)

lemma digits_value_snoc: "digits_value (ds @ [c]) = digits_value ds * 10 + (of_char c - 48)"
  by (simp add: digits_value_def)

lemma digits_value_fmt_int: "0 \<le> n \<Longrightarrow> digits_value (fmt_int n) = n"
proof (induction n rule: fmt_int.induct)
  case (1 n)
  show ?case
  proof (cases "n < 10")
    case True
    with 1(2) show ?thesis by (simp add: fmt_int.simps [of n] digits_value_def digit_char_value)
  next
    case False
    with 1 show ?thesis by (simp add: fmt_int.simps [of n] digits_value_snoc digit_char_value)
  qed
qed

lemma fmt_d_inject: "0 \<le> m \<Longrightarrow> 0 \<le> n \<Longrightarrow> fmt_d m = fmt_d n \<longleftrightarrow> m = n"
  by (auto simp: fmt_d_def) (metis digits_value_fmt_int)

section \<open>Payloads read back\<close>

lemma Unmarshal_print:
  assumes "json_ok (JObj ms)" "json_depth (JObj ms) \<le> maxNestingDepth"
  shows "Unmarshal fds p (json_print (JObj ms)) =
     (case decode_members fds ms None p of (None, p') \<Rightarrow> Inr p' | (Some e, p') \<Rightarrow> Inl e)"
  using reads_back [OF assms] by (simp add: Unmarshal_def)

text \<open>The document \<open>{"name": n, "content": c}\<close>.\<close>

definition write_file_doc :: "string \<Rightarrow> string \<Rightarrow> string" where
  "write_file_doc n c = json_print (JObj [(''name'', JStr n), (''content'', JStr c)])"

lemma unmarshal_write_file_doc:
  assumes "utf8_valid n" "utf8_valid c"
  shows "Unmarshal_writeFile text (write_file_doc n c) = Inr \<lparr>wf_Name = n, wf_Content = c\<rparr>"
proof -
  have "utf8_valid ''name''" "utf8_valid ''content''" by code_simp+
  with assms show ?thesis
    by (simp add: Unmarshal_writeFile_def write_file_doc_def Unmarshal_print writeFile_fields_def find_field_def
        string_field_def maxNestingDepth_def)
qed

lemma fill_array_numbers:
  assumes "list_all (\<lambda>n. parse_float n \<noteq> None) ns"
  shows "fill_array parse_float zero (map JNum ns) b = (True, map (the \<circ> parse_float) ns @ drop (length ns) b)"
  using assms
proof (induction ns arbitrary: b)
  case (Cons n ns)
  then show ?case by (auto simp: float_element_def drop_Suc split: option.splits)
qed simp

lemma floats_field_numbers:
  assumes "list_all (\<lambda>n. parse_float n \<noteq> None) ns"
  shows "floats_field parse_float zero (JArr (map JNum ns)) \<lparr>sn_backing = [], sn_len = 0\<rparr> =
     (True, \<lparr>sn_backing = map (the \<circ> parse_float) ns, sn_len = length ns\<rparr>)"
  using fill_array_numbers [OF assms, of zero "[]"] by (cases ns) (simp_all add: floats_field_def del: fill_array.simps)

lemma fold_max_zero: "fold max (map (\<lambda>x. 0) xs) (0::nat) = 0"
  by (induction xs) simp_all

text \<open>
  The payload of \<open>sum_numbers\<close> read back: for every list of number literals in the range of
  \<open>float64\<close>, the array of them decodes to their values in order.
\<close>

theorem sum_numbers_payload_reads_back:
  assumes "list_all num_ok ns" "list_all (\<lambda>n. parse_float n \<noteq> None) ns"
  shows "Unmarshal_sumNumbers parse_float zero text (json_print (JObj [(''numbers'', JArr (map JNum ns))])) =
     Inr (map (the \<circ> parse_float) ns)"
proof -
  have "utf8_valid ''numbers''" by code_simp
  with assms show ?thesis
    by (simp add: Unmarshal_sumNumbers_def Unmarshal_print find_field_def floats_field_numbers maxNestingDepth_def
        list_all_iff fold_max_zero comp_def)
qed

end
