(* ===== verification/Grpc.thy ===== *)
theory Grpc
  imports JobLife
begin

text \<open>
  internal/tracing (\<open>Setup\<close>, and \<open>Inject\<close> and \<open>Extract\<close>, which carry a trace through the jobs row) and
  internal/grpcserver (\<open>Submit\<close>, \<open>GetStatus\<close>, \<open>WatchStatus\<close>). OpenTelemetry's tracer and W3C
  propagator are arguments, on an abstract type of contexts. A watched stream is a sequence of
  turns of its polling loop, each with what the clients, the workers and the network do in it.
\<close>

section \<open>Tracing\<close>

text \<open>
  \<open>Setup\<close>: an exporter to the endpoint, whose construction may fail, a provider that batches spans
  to it under the service's name, and the process-wide provider and propagator, which stay as they
  were on failure. The function it returns shuts the provider down.
\<close>

record tracer_provider =
  tp_endpoint :: string
  tp_service :: string

datatype propagator = NoPropagator | TraceContext

record otel_globals =
  og_provider :: "tracer_provider option"
  og_propagator :: propagator

definition otel_start :: otel_globals where
  "otel_start = \<lparr>og_provider = None, og_propagator = NoPropagator\<rparr>"

definition Setup ::
  "(string \<Rightarrow> string option) \<Rightarrow> string \<Rightarrow> string \<Rightarrow> otel_globals \<Rightarrow> (string + tracer_provider) \<times> otel_globals" where
  "Setup exporter_err serviceName otlpEndpoint g =
     (case exporter_err otlpEndpoint of
        Some e \<Rightarrow> (Inl (''tracing: creating exporter: '' @ e), g)
      | None \<Rightarrow>
          (let tp = \<lparr>tp_endpoint = otlpEndpoint, tp_service = serviceName\<rparr>
           in (Inr tp, g\<lparr>og_provider := Some tp, og_propagator := TraceContext\<rparr>)))"

type_synonym carrier = "string \<Rightarrow> string option"

record 'ctx otel =
  ot_start :: "'ctx \<Rightarrow> string \<Rightarrow> 'ctx"
  ot_inject :: "'ctx \<Rightarrow> carrier \<Rightarrow> carrier"
  ot_extract :: "'ctx \<Rightarrow> carrier \<Rightarrow> 'ctx"

definition carrier_Get :: "carrier \<Rightarrow> string \<Rightarrow> string" where
  "carrier_Get c k = (case c k of None \<Rightarrow> '''' | Some v \<Rightarrow> v)"

definition Inject :: "'ctx otel \<Rightarrow> 'ctx \<Rightarrow> string" where
  "Inject ot ctx = carrier_Get (ot_inject ot ctx Map.empty) ''traceparent''"

definition Extract :: "'ctx otel \<Rightarrow> 'ctx \<Rightarrow> string \<Rightarrow> 'ctx" where
  "Extract ot ctx traceContext =
     (if traceContext = '''' then ctx else ot_extract ot ctx [''traceparent'' \<mapsto> traceContext])"

section \<open>Messages and errors\<close>

record status_update =
  u_id :: int
  u_status :: string
  u_attempts :: int
  u_max_attempts :: int
  u_last_error :: string

datatype grpc_code = NotFound | Internal

datatype rpc_err = RpcStatus grpc_code string | CtxErr string | SendErr string

definition to_update :: "snapshot \<Rightarrow> status_update" where
  "to_update snap = \<lparr>u_id = s_id snap, u_status = status_string (s_status snap),
     u_attempts = go_int32 (s_attempts snap), u_max_attempts = go_int32 (s_max_attempts snap),
     u_last_error = s_last_error snap\<rparr>"

definition status_err :: "go_err \<Rightarrow> rpc_err" where
  "status_err e = (if errors_Is e NoRows then RpcStatus NotFound ''job not found'' else RpcStatus Internal (err_Error e))"

section \<open>The service\<close>

definition Server_Submit ::
  "'ctx otel \<Rightarrow> pg_env \<Rightarrow> 'ctx \<Rightarrow> string \<Rightarrow> string \<Rightarrow> db \<Rightarrow> (rpc_err + int) \<times> db" where
  "Server_Submit ot env ctx jobType payload db =
     (let ctx' = ot_start ot ctx ''submit''
      in case Enqueue env jobType payload (Inject ot ctx') db of
           (Inl e, db') \<Rightarrow> (Inl (RpcStatus Internal (err_Error e)), db')
         | (Inr i, db') \<Rightarrow> (Inr i, db'))"

definition Server_GetStatus :: "pg_env \<Rightarrow> int \<Rightarrow> db \<Rightarrow> rpc_err + status_update" where
  "Server_GetStatus env i db =
     (case GetStatus env i db of Inl e \<Rightarrow> Inl (status_err e) | Inr snap \<Rightarrow> Inr (to_update snap))"

record watch_turn =
  wt_ctx_err :: "string option"
  wt_before :: "(pg_env \<times> store_call) list"
  wt_pg :: pg_env
  wt_send_err :: "string option"
  wt_done :: "string option"

datatype watch_result = Watching | WatchEnd "rpc_err option"

definition terminal :: "status \<Rightarrow> bool" where
  "terminal s \<longleftrightarrow> s = StatusCompleted \<or> s = StatusFailed"

text \<open>The result of the stream so far, the updates sent, and the database.\<close>

fun Server_WatchStatus :: "int \<Rightarrow> watch_turn list \<Rightarrow> db \<Rightarrow> watch_result \<times> status_update list \<times> db" where
  "Server_WatchStatus i [] db = (Watching, [], db)"
| "Server_WatchStatus i (t # ts) db =
     (case wt_ctx_err t of
        Some e \<Rightarrow> (WatchEnd (Some (CtxErr e)), [], db)
      | None \<Rightarrow>
          (let db1 = run_calls (wt_before t) db
           in case GetStatus (wt_pg t) i db1 of
                Inl e \<Rightarrow> (WatchEnd (Some (status_err e)), [], db1)
              | Inr snap \<Rightarrow>
                  (case wt_send_err t of
                     Some e \<Rightarrow> (WatchEnd (Some (SendErr e)), [], db1)
                   | None \<Rightarrow>
                       if terminal (s_status snap) then (WatchEnd None, [to_update snap], db1)
                       else
                         (case wt_done t of
                            Some e \<Rightarrow> (WatchEnd (Some (CtxErr e)), [to_update snap], db1)
                          | None \<Rightarrow>
                              (let (r, us, db2) = Server_WatchStatus i ts db1
                               in (r, to_update snap # us, db2))))))"

section \<open>Submit and GetStatus\<close>

text \<open>The update a row stands for, with the numbers as they are.\<close>

definition row_update_of :: "job_row \<Rightarrow> status_update" where
  "row_update_of r = \<lparr>u_id = r_id r, u_status = status_string (r_status r), u_attempts = r_attempts r,
     u_max_attempts = r_max_attempts r, u_last_error = (case r_last_error r of None \<Rightarrow> '''' | Some e \<Rightarrow> e)\<rparr>"

lemma to_update_row: "row_ok r \<Longrightarrow> to_update (to_snapshot r) = row_update_of r"
  by (simp add: to_update_def to_snapshot_def row_update_of_def row_ok_def go_int32_id int4_max_def)

lemma lookup_row_ok: "wf_db db \<Longrightarrow> lookup_job i db = Some r \<Longrightarrow> row_ok r"
  by (auto simp: wf_db_def jobs_ok_def dest: lookup_job_id)

lemma store_GetStatus_eq:
  assumes "pg_fault env = NoFault"
  shows "GetStatus env i db = (case lookup_job i db of
     None \<Rightarrow> Inl (Wrapped ''store: get status'' NoRows) | Some r \<Rightarrow> Inr (to_snapshot r))"
  using assms by (simp add: GetStatus_def run_query_def split: option.splits)

text \<open>
  Without a fault \<open>GetStatus\<close> reports the row as it is, the conversion of the counters to 32
  bits loses nothing, and an unknown id gives NotFound; a fault gives Internal, never NotFound.
\<close>

theorem get_status_reports_row:
  assumes "wf_db db"
  shows "Server_GetStatus env i db =
     (case pg_fault env of
        NoFault \<Rightarrow> (case lookup_job i db of None \<Rightarrow> Inl (RpcStatus NotFound ''job not found'') | Some r \<Rightarrow> Inr (row_update_of r))
      | FaultBefore m \<Rightarrow> Inl (RpcStatus Internal (''store: get status: '' @ m))
      | FaultAfter m \<Rightarrow> Inl (RpcStatus Internal (''store: get status: '' @ m)))"
proof (cases "pg_fault env")
  case NoFault
  then show ?thesis using to_update_row [OF lookup_row_ok [OF assms]]
    by (simp add: Server_GetStatus_def store_GetStatus_eq status_err_def split: option.splits)
qed (simp_all add: Server_GetStatus_def GetStatus_def run_query_def status_err_def)

text \<open>
  Submitting and asking: a successful \<open>Submit\<close> returns an id that was not in use, and a status
  request that reaches the database next finds that job queued, with no attempt out of five made
  and no error.
\<close>

theorem submit_then_status:
  assumes "wf_db db" "Server_Submit ot env ctx t p db = (Inr i, db')" "pg_fault env' = NoFault"
  shows "lookup_job i db = None \<and> Server_GetStatus env' i db' =
     Inr \<lparr>u_id = i, u_status = ''queued'', u_attempts = 0, u_max_attempts = 5, u_last_error = ''''\<rparr>"
proof -
  have E: "Enqueue env t p (Inject ot (ot_start ot ctx ''submit'')) db = (Inr i, db')"
    using assms(2) by (auto simp: Server_Submit_def Let_def split: prod.splits sum.splits)
  then obtain p' where i: "i = next_job_id db"
    and rows: "jobs db' = jobs db @ [new_job_row env i t p' (Inject ot (ot_start ot ctx ''submit''))]"
    by (rule enqueue_SuccessD)
  have "lookup_job i db = None"
    using assms(1) by (auto simp: i lookup_job_def find_None_iff wf_db_def jobs_ok_def)
  moreover have "lookup_job i db' = Some (new_job_row env i t p' (Inject ot (ot_start ot ctx ''submit'')))"
    using lookup_enqueued [OF assms(1)] rows i by simp
  ultimately show ?thesis using assms(3)
    by (simp add: Server_GetStatus_def store_GetStatus_eq)
       (simp add: to_update_def to_snapshot_def new_job_row_def status_string.simps go_int32_id int4_max_def)
qed


section \<open>WatchStatus\<close>

text \<open>The databases the stream reads, turn by turn.\<close>

fun watched :: "watch_turn list \<Rightarrow> db \<Rightarrow> db list" where
  "watched [] db = []"
| "watched (t # ts) db = (let db1 = run_calls (wt_before t) db in db1 # watched ts db1)"

definition terminal_update :: "status_update \<Rightarrow> bool" where
  "terminal_update u \<longleftrightarrow> u_status u = ''completed'' \<or> u_status u = ''failed''"

lemma terminal_to_update: "terminal_update (to_update snap) \<longleftrightarrow> terminal (s_status snap)"
  by (cases "s_status snap") (simp_all add: terminal_update_def to_update_def terminal_def)

lemma GetStatus_InrD: "GetStatus env i db = Inr snap \<Longrightarrow> \<exists>r. lookup_job i db = Some r \<and> snap = to_snapshot r"
  by (auto simp: GetStatus_def run_query_Inr split: option.splits)

lemma watch_updates:
  assumes "wf_db db" "Server_WatchStatus i ts db = (res, us, db')"
  shows "map Some us = map (\<lambda>d. map_option row_update_of (lookup_job i d)) (take (length us) (watched ts db)) \<and>
     (\<forall>u \<in> set (butlast us). \<not> terminal_update u) \<and>
     (res = WatchEnd None \<longleftrightarrow> us \<noteq> [] \<and> terminal_update (last us))"
  using assms
proof (induction ts arbitrary: db res us db')
  case (Cons t ts)
  let ?db1 = "run_calls (wt_before t) db"
  have wf: "wf_db ?db1" using Cons.prems(1) by (rule wf_run_calls)
  obtain res' us' db2 where W: "Server_WatchStatus i ts ?db1 = (res', us', db2)" by (cases "Server_WatchStatus i ts ?db1")
  note IH = Cons.IH [OF wf W]
  have row: "\<exists>r. lookup_job i ?db1 = Some r \<and> to_update snap = row_update_of r"
    if "GetStatus (wt_pg t) i ?db1 = Inr snap" for snap
    using GetStatus_InrD [OF that] lookup_row_ok [OF wf] to_update_row by blast
  show ?case
  proof (cases "\<exists>snap. wt_ctx_err t = None \<and> wt_send_err t = None \<and> GetStatus (wt_pg t) i ?db1 = Inr snap")
    case False
    then have "us = []" "res \<noteq> WatchEnd None"
      using Cons.prems(2) by (auto simp: Let_def split: option.splits sum.splits)
    then show ?thesis by simp
  next
    case True
    then obtain snap where s: "wt_ctx_err t = None" "wt_send_err t = None" "GetStatus (wt_pg t) i ?db1 = Inr snap" by blast
    with row obtain r where r: "lookup_job i ?db1 = Some r" "to_update snap = row_update_of r" by blast
    have tu: "terminal_update (row_update_of r) = terminal (s_status snap)"
      using terminal_to_update [of snap] r(2) by simp
    show ?thesis
    proof (cases "terminal (s_status snap) \<or> wt_done t \<noteq> None")
      case True
      then show ?thesis using Cons.prems(2) s r tu by (auto simp: Let_def split: if_splits option.splits)
    next
      case False
      then have "res = res'" "us = row_update_of r # us'" using Cons.prems(2) s W r by auto
      with IH False r tu show ?thesis by (cases us') (auto simp: Let_def)
    qed
  qed
qed simp

text \<open>
  C34. A watched stream sends, turn by turn, the state of the job at that turn, and closes without an
  error exactly when it has just sent a completed or failed state; nothing follows a final state.
\<close>

theorem watch_streams_until_terminal:
  assumes "wf_db db" "Server_WatchStatus i ts db = (res, us, db')"
  shows "map Some us = map (\<lambda>d. map_option row_update_of (lookup_job i d)) (take (length us) (watched ts db)) \<and>
     (\<forall>u \<in> set (butlast us). \<not> terminal_update u) \<and>
     (res = WatchEnd None \<longleftrightarrow> us \<noteq> [] \<and> terminal_update (last us))"
  using assms by (rule watch_updates)


section \<open>The hypotheses at concrete requests\<close>

text \<open>A propagator on contexts that are trace ids: it writes the id after a version prefix.\<close>

definition sample_otel :: "string otel" where
  "sample_otel = \<lparr>ot_start = (\<lambda>c n. ''t-'' @ c), ot_inject = (\<lambda>c m. m(''traceparent'' \<mapsto> ''00-'' @ c)),
     ot_extract = (\<lambda>c m. drop 3 (carrier_Get m ''traceparent''))\<rparr>"

lemma sample_submit: "\<exists>i db'. Server_Submit sample_otel (sample_env 100) ''x'' ''a'' ''{}'' empty_db = (Inr i, db') \<and> i = 1 \<and>
    db' = run_calls [(sample_env 100, CallEnqueue ''a'' ''{}'' ''00-t-x'')] empty_db"
  by (simp add: Server_Submit_def sample_otel_def Inject_def carrier_Get_def Enqueue_def run_stmt_def enqueue_stmt_def)
     (simp add: sample_env_def empty_db_def new_job_row_def Let_def)

theorem get_status_reports_row_witness:
  "Server_GetStatus (sample_env 300) 7 sample_db = Inl (RpcStatus NotFound ''job not found'')"
proof -
  have "lookup_job 7 sample_db = None" by code_simp
  with get_status_reports_row [OF wf_samples(1), of "sample_env 300" 7] show ?thesis by simp
qed

theorem submit_then_status_witness:
  "\<exists>i db'. Server_Submit sample_otel (sample_env 100) ''x'' ''a'' ''{}'' empty_db = (Inr i, db') \<and>
     Server_GetStatus (sample_env 101) i db' =
       Inr \<lparr>u_id = i, u_status = ''queued'', u_attempts = 0, u_max_attempts = 5, u_last_error = ''''\<rparr>"
proof -
  from sample_submit obtain i db' where S: "Server_Submit sample_otel (sample_env 100) ''x'' ''a'' ''{}'' empty_db = (Inr i, db')"
    by (elim exE conjE)
  from submit_then_status [OF wf_empty_db S sample_env_NoFault] S show ?thesis
    by (intro exI [of _ i] exI [of _ db']) blast
qed


definition sample_watch :: "watch_turn list" where
  "sample_watch = [\<lparr>wt_ctx_err = None, wt_before = [], wt_pg = sample_env 250, wt_send_err = None, wt_done = None\<rparr>,
     \<lparr>wt_ctx_err = None, wt_before = [(sample_env 300, CallComplete 1)], wt_pg = sample_env 301, wt_send_err = None, wt_done = None\<rparr>]"

theorem watch_streams_until_terminal_witness:
  "\<exists>us db'. Server_WatchStatus 1 sample_watch sample_running = (WatchEnd None, us, db') \<and>
     map u_status us = [''running'', ''completed''] \<and> terminal_update (last us)"
proof -
  obtain res us db' where W: "Server_WatchStatus 1 sample_watch sample_running = (res, us, db')"
    by (cases "Server_WatchStatus 1 sample_watch sample_running")
  have "fst (Server_WatchStatus 1 sample_watch sample_running) = WatchEnd None"
    "map u_status (fst (snd (Server_WatchStatus 1 sample_watch sample_running))) = [''running'', ''completed'']"
    by code_simp+
  with W have "res = WatchEnd None" "map u_status us = [''running'', ''completed'']" by simp_all
  with watch_streams_until_terminal [OF wf_samples(2) W] W show ?thesis
    by (intro exI [of _ us] exI [of _ db'] conjI) simp_all
qed

end
