(* ===== verification/Analytics.thy ===== *)
theory Analytics
  imports JobLife GoLib
begin

text \<open>
  internal/analytics, the shipping side: \<open>NewClient\<close>, \<open>InsertEvents\<close>, \<open>shipOnce\<close> and \<open>RunShipper\<close>, over the
  ClickHouse table of clickhouse/schema.sql. A batch may be lost before it is sent, refused, or
  reported as failed although some of its rows arrived.
\<close>

section \<open>NewClient\<close>

text \<open>
  The options a connection is opened with. Opening checks them, the ping that follows reaches the
  server; both answers are arguments. A client is its connection.
\<close>

record ch_options =
  co_Addr :: "string list"
  co_Database :: string
  co_Username :: string
  co_Password :: string

definition NewClient ::
  "(ch_options \<Rightarrow> string option) \<Rightarrow> (ch_options \<Rightarrow> string option) \<Rightarrow> string \<Rightarrow> string \<Rightarrow> string \<Rightarrow> string \<Rightarrow>
   string + ch_options" where
  "NewClient open_err ping_err addr database username password =
     (let conn = \<lparr>co_Addr = [addr], co_Database = database, co_Username = username, co_Password = password\<rparr>
      in case open_err conn of
           Some e \<Rightarrow> Inl (''analytics: opening connection: '' @ e)
         | None \<Rightarrow>
             (case ping_err conn of
                Some e \<Rightarrow> Inl (''analytics: ping: '' @ e)
              | None \<Rightarrow> Inr conn))"

section \<open>The ClickHouse table and InsertEvents\<close>

record ch_row =
  c_event_id :: int
  c_job_id :: int
  c_job_type :: string
  c_event_type :: string
  c_attempts :: int
  c_worker_id :: string
  c_error_message :: string
  c_occurred_at :: int

text \<open>The arguments of \<open>batch.Append\<close>; \<open>DateTime64(3)\<close> keeps milliseconds.\<close>

definition to_ch :: "'a event_scheme \<Rightarrow> ch_row" where
  "to_ch e = \<lparr>c_event_id = e_id e, c_job_id = e_job_id e, c_job_type = e_job_type e,
     c_event_type = event_string (e_event_type e), c_attempts = go_uint32 (e_attempts e),
     c_worker_id = e_worker_id e, c_error_message = e_error_message e,
     c_occurred_at = e_occurred_at e div 1000\<rparr>"

datatype send_fault = SendOk | SendFailed string "int \<Rightarrow> bool"

record ch_env =
  ch_prepare_err :: "string option"
  ch_append_err :: "int \<Rightarrow> string option"
  ch_send :: send_fault

text \<open>The loop over \<open>batch.Append\<close>: the first error ends it.\<close>

fun append_events :: "ch_env \<Rightarrow> event list \<Rightarrow> string option" where
  "append_events env [] = None"
| "append_events env (e # es) =
     (case ch_append_err env (e_id e) of
        Some m \<Rightarrow> Some (''analytics: appending event '' @ fmt_d (e_id e) @ '': '' @ m)
      | None \<Rightarrow> append_events env es)"

definition InsertEvents :: "ch_env \<Rightarrow> event list \<Rightarrow> ch_row list \<Rightarrow> string option \<times> ch_row list" where
  "InsertEvents env events ch =
     (if events = [] then (None, ch)
      else
        (case ch_prepare_err env of
           Some e \<Rightarrow> (Some (''analytics: preparing batch: '' @ e), ch)
         | None \<Rightarrow>
             (case append_events env events of
                Some e \<Rightarrow> (Some e, ch)
              | None \<Rightarrow>
                  (case ch_send env of
                     SendOk \<Rightarrow> (None, ch @ map to_ch events)
                   | SendFailed e arrived \<Rightarrow>
                       (Some (''analytics: sending batch: '' @ e),
                        ch @ map to_ch (filter (\<lambda>ev. arrived (e_id ev)) events))))))"

section \<open>shipOnce and RunShipper\<close>

record ship_env =
  se_fetch :: pg_env
  se_ch :: ch_env
  se_mark :: pg_env

definition shipOnce :: "ship_env \<Rightarrow> int \<Rightarrow> db \<times> ch_row list \<Rightarrow> string \<times> db \<times> ch_row list" where
  "shipOnce se batchSize = (\<lambda>(db, ch).
     case FetchUnshippedEvents (se_fetch se) batchSize db of
       Inl e \<Rightarrow> (''fetching unshipped events failed'', db, ch)
     | Inr events \<Rightarrow>
         if events = [] then ('''', db, ch)
         else
           (case InsertEvents (se_ch se) events ch of
              (Some e, ch') \<Rightarrow> (''shipping events to clickhouse failed'', db, ch')
            | (None, ch') \<Rightarrow>
                (case MarkEventsShipped (se_mark se) (map e_id events) db of
                   (Inl e, db') \<Rightarrow> (''marking events shipped failed'', db', ch')
                 | (Inr _, db') \<Rightarrow> (''shipped events to clickhouse'', db', ch'))))"

text \<open>
  What the \<open>select\<close> of the loop finds: the context done, or a tick, before which other processes
  may have called the store. \<open>time.NewTicker\<close> panics unless its interval is positive.
\<close>

datatype ship_tick = ShipDone | ShipTick "(pg_env \<times> store_call) list" ship_env

datatype loop_result = LoopPanic | LoopReturned | LoopWaiting

fun ship_loop :: "int \<Rightarrow> ship_tick list \<Rightarrow> db \<times> ch_row list \<Rightarrow> loop_result \<times> db \<times> ch_row list" where
  "ship_loop batchSize [] s = (LoopWaiting, s)"
| "ship_loop batchSize (ShipDone # ts) s = (LoopReturned, s)"
| "ship_loop batchSize (ShipTick cs se # ts) (db, ch) =
     ship_loop batchSize ts (snd (shipOnce se batchSize (run_calls cs db, ch)))"

definition RunShipper ::
  "duration \<Rightarrow> int \<Rightarrow> ship_tick list \<Rightarrow> db \<times> ch_row list \<Rightarrow> loop_result \<times> db \<times> ch_row list" where
  "RunShipper interval batchSize ts s =
     (if interval \<le>s 0 then (LoopPanic, s) else ship_loop batchSize ts s)"

section \<open>Any number of shippers as a step relation\<close>

text \<open>
  Shippers of several processes run \<open>shipOnce\<close> at the same time, so its three phases interleave:
  \<open>pend\<close> is where each of them stands. Crashes may strike between any two phases, and ClickHouse
  merges rows of the same event id away in the background.
\<close>

datatype phase = Idle | Fetched "event list" | Inserted "event list"

record ship_state =
  sh_db :: db
  sh_ch :: "ch_row list"
  sh_pend :: "nat \<Rightarrow> phase"

fun marks_shipped :: "store_call \<Rightarrow> bool" where
  "marks_shipped (CallMarkShipped ids) = True"
| "marks_shipped _ = False"

inductive ship_step :: "ship_state \<Rightarrow> ship_state \<Rightarrow> bool" where
  step_call: "\<not> marks_shipped c \<Longrightarrow> ship_step s (s\<lparr>sh_db := exec_call env c (sh_db s)\<rparr>)"
| step_fetch: "sh_pend s k = Idle \<Longrightarrow> FetchUnshippedEvents env n (sh_db s) = Inr es \<Longrightarrow> es \<noteq> [] \<Longrightarrow>
    ship_step s (s\<lparr>sh_pend := (sh_pend s)(k := Fetched es)\<rparr>)"
| step_insert: "sh_pend s k = Fetched es \<Longrightarrow> InsertEvents env es (sh_ch s) = (None, ch') \<Longrightarrow>
    ship_step s (s\<lparr>sh_ch := ch', sh_pend := (sh_pend s)(k := Inserted es)\<rparr>)"
| step_insert_failed: "sh_pend s k = Fetched es \<Longrightarrow> InsertEvents env es (sh_ch s) = (Some e, ch') \<Longrightarrow>
    ship_step s (s\<lparr>sh_ch := ch', sh_pend := (sh_pend s)(k := Idle)\<rparr>)"
| step_mark: "sh_pend s k = Inserted es \<Longrightarrow> MarkEventsShipped env (map e_id es) (sh_db s) = (r, db') \<Longrightarrow>
    ship_step s (s\<lparr>sh_db := db', sh_pend := (sh_pend s)(k := Idle)\<rparr>)"
| step_crash: "ship_step s (s\<lparr>sh_pend := (sh_pend s)(k := Idle)\<rparr>)"
| step_merge: "set ch' = set (sh_ch s) \<Longrightarrow> ship_step s (s\<lparr>sh_ch := ch'\<rparr>)"

inductive_cases ship_stepE: "ship_step s s'"

definition ship_init :: ship_state where
  "ship_init = \<lparr>sh_db = empty_db, sh_ch = [], sh_pend = (\<lambda>_. Idle)\<rparr>"

section \<open>No event is lost\<close>

text \<open>Every event marked as shipped is in ClickHouse; ClickHouse holds nothing but events.\<close>

definition shipped_ok :: "db \<Rightarrow> ch_row list \<Rightarrow> bool" where
  "shipped_ok db ch \<longleftrightarrow> (\<forall>e \<in> set (job_events db). unshipped e \<or> to_ch e \<in> set ch) \<and>
     set ch \<subseteq> to_ch ` set (job_events db)"

definition known :: "db \<Rightarrow> event list \<Rightarrow> bool" where
  "known db es \<longleftrightarrow> set es \<subseteq> event.truncate ` set (job_events db)"

fun phase_ok :: "db \<Rightarrow> ch_row list \<Rightarrow> phase \<Rightarrow> bool" where
  "phase_ok db ch Idle = True"
| "phase_ok db ch (Fetched es) = known db es"
| "phase_ok db ch (Inserted es) = (known db es \<and> to_ch ` set es \<subseteq> set ch)"

definition ship_inv :: "ship_state \<Rightarrow> bool" where
  "ship_inv s \<longleftrightarrow> wf_db (sh_db s) \<and> shipped_ok (sh_db s) (sh_ch s) \<and>
     (\<forall>k. phase_ok (sh_db s) (sh_ch s) (sh_pend s k))"

lemma to_ch_truncate [simp]: "to_ch (event.truncate e) = to_ch e"
  by (simp add: to_ch_def event.truncate_def)

lemma to_ch_ship [simp]: "to_ch (e\<lparr>e_shipped_at := t\<rparr>) = to_ch e"
  by (simp add: to_ch_def)

lemma truncate_ship [simp]: "event.truncate (e\<lparr>e_shipped_at := t\<rparr>) = event.truncate e"
  by (simp add: event.truncate_def)

lemma new_events_unshipped: "e \<in> set (new_events env ty w m rows n) \<Longrightarrow> unshipped e"
  by (induction rows arbitrary: n) (auto simp: unshipped_def)

text \<open>A call that is not a mark only appends unshipped events.\<close>

definition appends :: "db \<Rightarrow> db \<Rightarrow> bool" where
  "appends db db' \<longleftrightarrow> (\<exists>new. job_events db' = job_events db @ new \<and> (\<forall>e \<in> set new. unshipped e))"

lemma appends_refl [simp]: "appends db db"
  by (simp add: appends_def)

lemma appends_log: "job_events db1 = job_events db \<Longrightarrow> appends db (log_rows env ty w m rows db1)"
  by (auto simp: appends_def dest: new_events_unshipped)

lemma insert_dead_letters_events: "insert_dead_letters env e rows db = Inr db' \<Longrightarrow> job_events db' = job_events db"
  by (auto simp: insert_dead_letters_def Let_def split: if_splits)

lemma run_stmt_appends:
  assumes "\<And>a db'. stmt db = Inr (a, db') \<Longrightarrow> appends db db'"
  shows "appends db (snd (run_stmt env what stmt db))"
  by (rule run_stmt_cases) (simp_all add: assms)

lemma stmt_appends:
  "claim_stmt env w l n db = Inr (js, db') \<Longrightarrow> appends db db'"
  "complete_stmt env i db = Inr (u, db') \<Longrightarrow> appends db db'"
  "retry_stmt env i at e db = Inr (u, db') \<Longrightarrow> appends db db'"
  "fail_stmt env i e db = Inr (u, db') \<Longrightarrow> appends db db'"
  "reap_stmt env db = Inr (c, db') \<Longrightarrow> appends db db'"
  "enqueue_stmt env t p tc db = Inr (k, db') \<Longrightarrow> appends db db'"
  by (auto simp: stmt_defs Let_def
      split: option.splits if_splits sum.splits dest!: insert_dead_letters_events intro!: appends_log)

lemma exec_call_appends: "\<not> marks_shipped c \<Longrightarrow> appends db (exec_call env c db)"
proof (cases c)
  case (CallSequenceGap a b c)
  then show ?thesis by (simp add: appends_def)
qed (auto simp: call_defs intro!: run_stmt_appends intro: stmt_appends)

lemma shipped_ok_appends: "appends db db' \<Longrightarrow> shipped_ok db ch \<Longrightarrow> shipped_ok db' ch"
  by (auto simp: appends_def shipped_ok_def)

lemma known_appends: "appends db db' \<Longrightarrow> known db es \<Longrightarrow> known db' es"
  by (auto simp: appends_def known_def)

lemma phase_ok_mono:
  "phase_ok db ch p \<Longrightarrow> (\<And>es. known db es \<Longrightarrow> known db' es) \<Longrightarrow> set ch \<subseteq> set ch' \<Longrightarrow> phase_ok db' ch' p"
  by (cases p) auto

lemma fetched_known:
  assumes "FetchUnshippedEvents env n db = Inr es"
  shows "known db es"
proof -
  have "es = map event.truncate (take (nat n) (sort_key e_id (filter unshipped (job_events db))))"
    using assms by (auto simp: FetchUnshippedEvents_def run_query_Inr split: if_splits)
  then show ?thesis
    using set_take_subset [of "nat n" "sort_key e_id (filter unshipped (job_events db))"] by (auto simp: known_def)
qed

lemma InsertEvents_rows:
  assumes "InsertEvents env es ch = (r, ch')"
  shows "set ch \<subseteq> set ch'" "set ch' \<subseteq> set ch \<union> to_ch ` set es" "r = None \<Longrightarrow> to_ch ` set es \<subseteq> set ch'"
  using assms by (auto simp: InsertEvents_def split: if_splits option.splits send_fault.splits)

lemma known_to_ch: "known db es \<Longrightarrow> to_ch ` set es \<subseteq> to_ch ` set (job_events db)"
  unfolding known_def by (force simp: image_iff)

lemma map_sql_update: "(\<And>x. g (f x) = g x) \<Longrightarrow> map g (sql_update p f xs) = map g xs"
  by (induction xs) simp_all

lemma image_sql_update: "(\<And>x. g (f x) = g x) \<Longrightarrow> g ` set (sql_update p f xs) = g ` set xs"
  by (metis map_sql_update set_map)

lemma MarkEventsShipped_events:
  "job_events (snd (MarkEventsShipped env ids db)) =
     sql_update (\<lambda>e. e_id e \<in> set ids \<and> (\<forall>m. pg_fault env \<noteq> FaultBefore m))
       (\<lambda>e. e\<lparr>e_shipped_at := Some (pg_now env)\<rparr>) (job_events db)"
  by (cases "pg_fault env") (simp_all add: MarkEventsShipped_def run_stmt_def sql_update_none)

lemma known_id:
  assumes "wf_db db" "known db es" "e \<in> set (job_events db)" "e_id e \<in> e_id ` set es"
  shows "to_ch e \<in> to_ch ` set es"
proof -
  from assms(4) obtain x where x: "x \<in> set es" "e_id x = e_id e" by auto
  with assms(2) obtain e' where e': "e' \<in> set (job_events db)" "x = event.truncate e'" by (auto simp: known_def)
  then have "e_id e' = e_id e" using x(2) by (simp add: event.truncate_def)
  moreover have "distinct (map e_id (job_events db))"
    using assms(1) by (simp add: wf_db_def events_ok_def strict_sorted_iff)
  ultimately have "e' = e" using e'(1) assms(3) by (auto simp: distinct_map inj_on_def)
  then have "to_ch e = to_ch x" using e'(2) by simp
  with x(1) show ?thesis by simp
qed

lemma mark_keeps:
  assumes "wf_db db" "shipped_ok db ch" "known db es" "to_ch ` set es \<subseteq> set ch"
    and "MarkEventsShipped env (map e_id es) db = (r, db')"
  shows "wf_db db'" "shipped_ok db' ch" "\<And>xs. known db xs \<Longrightarrow> known db' xs"
proof -
  show "wf_db db'" using wf_mark_shipped [OF assms(1), of env "map e_id es"] assms(5) by simp
  let ?p = "\<lambda>e. e_id e \<in> set (map e_id es) \<and> (\<forall>m. pg_fault env \<noteq> FaultBefore m)"
  have ev: "job_events db' = sql_update ?p (\<lambda>e. e\<lparr>e_shipped_at := Some (pg_now env)\<rparr>) (job_events db)"
    using MarkEventsShipped_events [of env "map e_id es" db] assms(5) by simp
  have "to_ch e \<in> set ch" if "e \<in> set (job_events db)" "?p e" for e
    using known_id [OF assms(1,3) that(1)] that(2) assms(4) by auto
  then have "\<forall>e \<in> set (job_events db'). unshipped e \<or> to_ch e \<in> set ch"
    using assms(2) unfolding ev set_sql_update shipped_ok_def by auto
  moreover have "to_ch ` set (job_events db') = to_ch ` set (job_events db)"
    unfolding ev by (rule image_sql_update) simp
  ultimately show "shipped_ok db' ch" using assms(2) by (simp add: shipped_ok_def)
  have "event.truncate ` set (job_events db') = event.truncate ` set (job_events db)"
    unfolding ev by (rule image_sql_update) simp
  then show "known db xs \<Longrightarrow> known db' xs" for xs by (simp add: known_def)
qed

lemma insert_keeps:
  assumes "shipped_ok db ch" "known db es" "InsertEvents env es ch = (r, ch')"
  shows "shipped_ok db ch'"
proof -
  have "set ch \<union> to_ch ` set es \<subseteq> to_ch ` set (job_events db)"
    using assms(1) known_to_ch [OF assms(2)] by (simp add: shipped_ok_def)
  with InsertEvents_rows(2) [OF assms(3)] have "set ch' \<subseteq> to_ch ` set (job_events db)" by (rule subset_trans)
  then show ?thesis using assms(1) InsertEvents_rows(1) [OF assms(3)] by (auto simp: shipped_ok_def)
qed

lemma ship_step_keeps: "ship_step s s' \<Longrightarrow> ship_inv s \<Longrightarrow> ship_inv s'"
proof (induction rule: ship_step.induct)
  case (step_call c s env)
  then show ?case
    using shipped_ok_appends [OF exec_call_appends] known_appends [OF exec_call_appends]
    by (auto simp: ship_inv_def wf_exec_call intro: phase_ok_mono)
next
  case (step_fetch s k env n es)
  then show ?case using fetched_known by (auto simp: ship_inv_def)
next
  case (step_insert s k es env ch')
  then have "known (sh_db s) es" by (metis phase_ok.simps(2) ship_inv_def)
  with step_insert show ?case
    using insert_keeps InsertEvents_rows by (fastforce simp: ship_inv_def intro: phase_ok_mono)
next
  case (step_insert_failed s k es env e ch')
  then have "known (sh_db s) es" by (metis phase_ok.simps(2) ship_inv_def)
  with step_insert_failed show ?case
    using insert_keeps InsertEvents_rows by (fastforce simp: ship_inv_def intro: phase_ok_mono)
next
  case (step_mark s k es env r db')
  then have "known (sh_db s) es" "to_ch ` set es \<subseteq> set (sh_ch s)" by (metis phase_ok.simps(3) ship_inv_def)+
  with step_mark mark_keeps [of "sh_db s" "sh_ch s" es env r db'] show ?case
    by (auto simp: ship_inv_def intro: phase_ok_mono)
next
  case (step_crash s k)
  then show ?case by (simp add: ship_inv_def)
next
  case (step_merge ch' s)
  then show ?case by (auto simp: ship_inv_def shipped_ok_def intro: phase_ok_mono)
qed

interpretation shippers: step_invariant ship_step ship_inv
  by unfold_locales (rule ship_step_keeps)

lemma ship_inv_init: "ship_inv ship_init"
  by (simp add: ship_inv_def ship_init_def wf_empty_db shipped_ok_def) (simp add: empty_db_def)


text \<open>
  C6. Shipping loses nothing and invents nothing: however the shippers of any number of processes,
  the callers of the store, partial and unacknowledged batches, crashes and background merges
  interleave, every event marked as shipped in Postgres is in ClickHouse with its fields, and
  every row of ClickHouse is the copy of an event of the outbox.
\<close>

theorem shipping_loses_nothing:
  assumes "ship_step\<^sup>*\<^sup>* ship_init s"
  shows "(\<forall>e \<in> set (job_events (sh_db s)). unshipped e \<or> to_ch e \<in> set (sh_ch s)) \<and>
     set (sh_ch s) \<subseteq> to_ch ` set (job_events (sh_db s))"
  using shippers.reachable_inv [OF assms ship_inv_init] by (simp add: ship_inv_def shipped_ok_def)

section \<open>Reading the deduplicated table\<close>

text \<open>\<open>SELECT ... FINAL\<close> on the ReplacingMergeTree: the last row of every event id, by event id.\<close>

fun keep_last :: "ch_row list \<Rightarrow> ch_row list" where
  "keep_last [] = []"
| "keep_last (r # rs) = (if c_event_id r \<in> c_event_id ` set rs then keep_last rs else r # keep_last rs)"

definition ch_final :: "ch_row list \<Rightarrow> ch_row list" where
  "ch_final ch = sort_key c_event_id (keep_last ch)"

lemma keep_last_ids: "c_event_id ` set (keep_last ch) = c_event_id ` set ch" "set (keep_last ch) \<subseteq> set ch"
  by (induction ch) (auto simp: image_iff)

lemma distinct_keep_last: "distinct (map c_event_id (keep_last ch))"
  by (induction ch) (auto simp: keep_last_ids)

lemma c_event_id_to_ch [simp]: "c_event_id (to_ch e) = e_id e"
  by (simp add: to_ch_def)

lemma sorted_ids_unique:
  fixes k :: "'a \<Rightarrow> int"
  assumes "sorted_wrt (<) (map k xs)" "sorted_wrt (<) (map k ys)" "set xs = set ys"
  shows "xs = ys"
proof (rule map_sorted_distinct_set_unique [of k])
  show "inj_on k (set xs \<union> set ys)"
    using assms(1,3) by (auto simp: strict_sorted_iff distinct_map)
  show "sorted (map k xs)" "sorted (map k ys)" "distinct (map k xs)" "distinct (map k ys)"
    using assms(1,2) by (simp_all add: strict_sorted_iff)
qed (rule assms(3))

lemma ch_final_events:
  assumes "wf_db db" "shipped_ok db ch" "\<forall>e \<in> set (job_events db). \<not> unshipped e"
  shows "ch_final ch = map to_ch (job_events db)"
proof (rule sorted_ids_unique [of c_event_id])
  have ch: "set ch = to_ch ` set (job_events db)" using assms(2,3) unfolding shipped_ok_def by blast
  have ids: "sorted_wrt (<) (map e_id (job_events db))" using assms(1) by (simp add: wf_db_def events_ok_def)
  show "sorted_wrt (<) (map c_event_id (map to_ch (job_events db)))" using ids by (simp add: comp_def)
  have "distinct (map c_event_id (ch_final ch))"
    unfolding ch_final_def by (metis distinct_keep_last distinct_map_if_mset mset_sort)
  then show "sorted_wrt (<) (map c_event_id (ch_final ch))"
    by (simp add: strict_sorted_iff ch_final_def)
  have inj: "inj_on c_event_id (set ch)"
    using ids unfolding ch by (auto simp: inj_on_def strict_sorted_iff distinct_map)
  have "set ch \<subseteq> set (keep_last ch)"
  proof
    fix r assume "r \<in> set ch"
    then obtain q where "q \<in> set (keep_last ch)" "c_event_id q = c_event_id r"
      by (metis (no_types, lifting) imageE imageI keep_last_ids(1))
    with \<open>r \<in> set ch\<close> inj keep_last_ids(2) show "r \<in> set (keep_last ch)"
      by (metis inj_onD subsetD)
  qed
  with keep_last_ids(2) ch show "set (ch_final ch) = set (map to_ch (job_events db))"
    by (auto simp: ch_final_def)
qed

text \<open>
  At-least-once shipping is exactly-once on deduplicated reads: in every reachable state with no
  unshipped event left, reading the ClickHouse table with FINAL gives the outbox itself, every
  event once and in the order of the outbox.
\<close>

theorem final_table_is_outbox:
  assumes "ship_step\<^sup>*\<^sup>* ship_init s" "\<forall>e \<in> set (job_events (sh_db s)). \<not> unshipped e"
  shows "ch_final (sh_ch s) = map to_ch (job_events (sh_db s))"
  using shippers.reachable_inv [OF assms(1) ship_inv_init] assms(2)
  by (intro ch_final_events) (simp_all add: ship_inv_def)

section \<open>shipOnce and RunShipper over the step relation\<close>

lemma shipOnce_steps:
  assumes "sh_pend s k = Idle" "shipOnce se n (sh_db s, sh_ch s) = (msg, db', ch')"
  shows "ship_step\<^sup>*\<^sup>* s (s\<lparr>sh_ch := ch', sh_db := db'\<rparr>)"
proof (cases "FetchUnshippedEvents (se_fetch se) n (sh_db s)")
  case (Inl e)
  with assms(2) have "db' = sh_db s" "ch' = sh_ch s" by (simp_all add: shipOnce_def)
  then show ?thesis by simp
next
  case (Inr es)
  have idle: "(sh_pend s)(k := Idle) = sh_pend s" using assms(1) by auto
  obtain r ch1 where I: "InsertEvents (se_ch se) es (sh_ch s) = (r, ch1)" by fastforce
  show ?thesis
  proof (cases "es = []")
    case True
    with Inr assms(2) have "db' = sh_db s" "ch' = sh_ch s" by (simp_all add: shipOnce_def)
    then show ?thesis by simp
  next
    case False
    let ?s1 = "s\<lparr>sh_pend := (sh_pend s)(k := Fetched es)\<rparr>"
    have 1: "ship_step s ?s1" using assms(1) Inr False by (rule step_fetch)
    show ?thesis
    proof (cases r)
      case (Some e)
      have "ship_step ?s1 (?s1\<lparr>sh_ch := ch1, sh_pend := (sh_pend ?s1)(k := Idle)\<rparr>)"
        by (rule step_insert_failed) (use I Some in simp_all)
      then have "ship_step ?s1 (s\<lparr>sh_ch := ch1\<rparr>)" using idle by simp
      moreover have "db' = sh_db s" "ch' = ch1" using assms(2) Inr False I Some by (auto simp: shipOnce_def)
      ultimately show ?thesis using 1 by simp
    next
      case None
      let ?s2 = "?s1\<lparr>sh_ch := ch1, sh_pend := (sh_pend ?s1)(k := Inserted es)\<rparr>"
      have 2: "ship_step ?s1 ?s2" by (rule step_insert) (use I None in simp_all)
      obtain q db1 where M: "MarkEventsShipped (se_mark se) (map e_id es) (sh_db s) = (q, db1)" by fastforce
      have "ship_step ?s2 (?s2\<lparr>sh_db := db1, sh_pend := (sh_pend ?s2)(k := Idle)\<rparr>)"
        by (rule step_mark) (use M in simp_all)
      then have "ship_step ?s2 (s\<lparr>sh_ch := ch1, sh_db := db1\<rparr>)" using idle by simp
      moreover have "db' = db1" "ch' = ch1"
        using assms(2) Inr False I None M by (auto simp: shipOnce_def split: sum.splits)
      ultimately show ?thesis using 1 2 by (meson converse_rtranclp_into_rtranclp rtranclp.rtrancl_refl)
    qed
  qed
qed

text \<open>
  \<open>shipOnce\<close> refines the step relation: whatever the databases answer, one call is a sequence of
  steps of an idle shipper that leaves it idle again.
\<close>

theorem shipOnce_refines_steps:
  assumes "sh_pend s k = Idle" "shipOnce se n (sh_db s, sh_ch s) = (msg, db', ch')"
  shows "ship_step\<^sup>*\<^sup>* s (s\<lparr>sh_ch := ch', sh_db := db'\<rparr>)"
  using assms by (rule shipOnce_steps)

lemma ship_loop_result:
  "fst (ship_loop n ts s) = (if ShipDone \<in> set ts then LoopReturned else LoopWaiting)"
  by (induction n ts s rule: ship_loop.induct) auto

text \<open>
  The shipper's loop ends only when its context is done: no error of either database makes it
  return. An interval that is not positive, which the configuration accepts, makes it panic.
\<close>

theorem shipper_loop_result:
  "fst (RunShipper interval n ts s) =
     (if sint interval \<le> 0 then LoopPanic else if ShipDone \<in> set ts then LoopReturned else LoopWaiting)"
  by (simp add: RunShipper_def ship_loop_result word_sle_eq)

text \<open>A tick on which both databases answer.\<close>

definition clean_tick :: "ship_tick \<Rightarrow> bool" where
  "clean_tick t = (case t of ShipDone \<Rightarrow> False
     | ShipTick cs se \<Rightarrow> cs = [] \<and> pg_fault (se_fetch se) = NoFault \<and> pg_fault (se_mark se) = NoFault \<and>
         ch_prepare_err (se_ch se) = None \<and> ch_append_err (se_ch se) = (\<lambda>_. None) \<and> ch_send (se_ch se) = SendOk)"

lemma append_events_ok: "ch_append_err env = (\<lambda>_. None) \<Longrightarrow> append_events env es = None"
  by (induction es) simp_all

lemma map_to_ch_truncate: "map to_ch (map event.truncate es) = map to_ch es"
  by simp

lemma shipOnce_clean:
  assumes "clean_tick (ShipTick cs se)" "wf_db db" "0 \<le> n"
  shows "\<exists>db'. snd (shipOnce se n (db, ch)) = (db', ch @ map to_ch (take (nat n) (filter unshipped (job_events db)))) \<and>
     wf_db db' \<and> filter unshipped (job_events db') = drop (nat n) (filter unshipped (job_events db))"
proof -
  let ?es = "take (nat n) (filter unshipped (job_events db))"
  have F: "FetchUnshippedEvents (se_fetch se) n db = Inr (map event.truncate ?es)"
    using assms by (intro fetch_eq) (simp_all add: clean_tick_def)
  have un: "filter unshipped (job_events (snd (MarkEventsShipped (se_mark se) (map e_id ?es) db))) =
      drop (nat n) (filter unshipped (job_events db))"
    using assms by (intro unshipped_after_fetch_mark) (simp_all add: clean_tick_def)
  have wf: "wf_db (snd (MarkEventsShipped (se_mark se) (map e_id ?es) db))" using assms(2) by (rule wf_mark_shipped)
  show ?thesis
  proof (cases "?es = []")
    case True
    with un wf have "snd (shipOnce se n (db, ch)) = (db, ch)" by (simp add: shipOnce_def F del: take_eq_Nil)
    moreover from True un have "filter unshipped (job_events db) = drop (nat n) (filter unshipped (job_events db))"
      by (simp add: MarkEventsShipped_def del: take_eq_Nil)
    ultimately show ?thesis using True assms(2) by simp
  next
    case False
    have I: "InsertEvents (se_ch se) (map event.truncate ?es) ch = (None, ch @ map to_ch ?es)"
      using assms(1) False by (simp add: InsertEvents_def clean_tick_def append_events_ok del: take_eq_Nil)
    have "snd (shipOnce se n (db, ch)) =
        (snd (MarkEventsShipped (se_mark se) (map e_id ?es) db), ch @ map to_ch ?es)"
      using False truncate_ids [of ?es]
      by (simp add: shipOnce_def F I split: prod.splits sum.splits del: take_eq_Nil truncate_ids map_map)
    with un wf show ?thesis by blast
  qed
qed


lemma clean_loop:
  assumes "\<forall>t \<in> set ts. clean_tick t" "wf_db db" "0 \<le> n"
  shows "\<exists>db'. ship_loop n ts (db, ch) =
       (LoopWaiting, db', ch @ map to_ch (take (length ts * nat n) (filter unshipped (job_events db)))) \<and>
     filter unshipped (job_events db') = drop (length ts * nat n) (filter unshipped (job_events db))"
  using assms(1,2)
proof (induction ts arbitrary: db ch)
  case (Cons t ts)
  obtain cs se where t: "t = ShipTick cs se" using Cons.prems(1) by (cases t) (auto simp: clean_tick_def)
  then have "cs = []" using Cons.prems(1) by (simp add: clean_tick_def)
  let ?un = "filter unshipped (job_events db)"
  obtain db1 where S: "snd (shipOnce se n (db, ch)) = (db1, ch @ map to_ch (take (nat n) ?un))"
    and db1: "wf_db db1" "filter unshipped (job_events db1) = drop (nat n) ?un"
    using shipOnce_clean [of cs se db n ch] Cons.prems t assms(3) by auto
  have "\<forall>t \<in> set ts. clean_tick t" using Cons.prems(1) by simp
  from Cons.IH [OF this db1(1), of "ch @ map to_ch (take (nat n) ?un)"] obtain db' where
    "ship_loop n ts (db1, ch @ map to_ch (take (nat n) ?un)) =
       (LoopWaiting, db', (ch @ map to_ch (take (nat n) ?un)) @ map to_ch (take (length ts * nat n) (drop (nat n) ?un)))"
    "filter unshipped (job_events db') = drop (length ts * nat n) (drop (nat n) ?un)"
    unfolding db1(2) by blast
  then show ?case by (simp add: t \<open>cs = []\<close> S take_add add.commute flip: map_append)
qed simp

text \<open>
  C36. Progress of the shipper: on ticks when both databases answer and nothing new is enqueued, it
  ships the backlog in the order of the event ids, one batch per tick, every event once; after
  enough ticks no event is unshipped.
\<close>

theorem shipper_drains_backlog:
  assumes "0 < sint interval" "0 < n" "wf_db db" "\<forall>t \<in> set ts. clean_tick t"
    and "int (length (filter unshipped (job_events db))) \<le> int (length ts) * n"
  shows "\<exists>db'. RunShipper interval n ts (db, ch) =
       (LoopWaiting, db', ch @ map to_ch (filter unshipped (job_events db))) \<and>
     filter unshipped (job_events db') = []"
proof -
  have "int (length (filter unshipped (job_events db))) \<le> int (length ts * nat n)" using assms(2,5) by simp
  then have enough: "length (filter unshipped (job_events db)) \<le> length ts * nat n" by linarith
  have "\<not> interval \<le>s 0" using assms(1) by (simp add: word_sle_eq)
  with clean_loop [OF assms(4,3), of n ch] enough assms(2) show ?thesis by (simp add: RunShipper_def)
qed

section \<open>The hypotheses at a concrete shipper\<close>

definition sample_ch_env :: ch_env where
  "sample_ch_env = \<lparr>ch_prepare_err = None, ch_append_err = (\<lambda>_. None), ch_send = SendOk\<rparr>"

definition sample_ship :: ship_env where
  "sample_ship = \<lparr>se_fetch = sample_env 600, se_ch = sample_ch_env, se_mark = sample_env 601\<rparr>"

text \<open>The outbox of two enqueued jobs, shipped in one batch by the first shipper.\<close>

definition sample_shipped :: ship_state where
  "sample_shipped = ship_init\<lparr>sh_ch := snd (snd (shipOnce sample_ship 10 (sample_db, []))),
     sh_db := fst (snd (shipOnce sample_ship 10 (sample_db, [])))\<rparr>"

lemma run_calls_steps:
  assumes "\<forall>(env, c) \<in> set cs. \<not> marks_shipped c"
  shows "ship_step\<^sup>*\<^sup>* s (s\<lparr>sh_db := run_calls cs (sh_db s)\<rparr>)"
  using assms
proof (induction cs arbitrary: s)
  case (Cons x cs)
  obtain env c where x: "x = (env, c)" by (cases x)
  let ?s1 = "s\<lparr>sh_db := exec_call env c (sh_db s)\<rparr>"
  have "ship_step s ?s1" using Cons.prems x by (intro step_call) simp
  moreover have "ship_step\<^sup>*\<^sup>* ?s1 (?s1\<lparr>sh_db := run_calls cs (sh_db ?s1)\<rparr>)"
    using Cons.prems by (intro Cons.IH) simp
  ultimately show ?case by (simp add: x)
qed simp

lemma sample_shipped_reachable: "ship_step\<^sup>*\<^sup>* ship_init sample_shipped"
proof -
  let ?s = "ship_init\<lparr>sh_db := sample_db\<rparr>"
  have "ship_step\<^sup>*\<^sup>* ship_init ?s"
    using run_calls_steps [of sample_calls ship_init]
    by (simp add: sample_calls_def sample_db_def) (simp add: ship_init_def)
  moreover have "ship_step\<^sup>*\<^sup>* ?s (?s\<lparr>sh_ch := snd (snd (shipOnce sample_ship 10 (sample_db, []))),
      sh_db := fst (snd (shipOnce sample_ship 10 (sample_db, [])))\<rparr>)"
    by (rule shipOnce_steps [where k = 0 and se = sample_ship and n = 10 and
          msg = "fst (shipOnce sample_ship 10 (sample_db, []))"]) (simp_all add: ship_init_def)
  moreover have "?s\<lparr>sh_ch := ch, sh_db := db\<rparr> = ship_init\<lparr>sh_ch := ch, sh_db := db\<rparr>" for ch db
    by simp
  ultimately show ?thesis unfolding sample_shipped_def by (metis rtranclp_trans)
qed

theorem shipping_loses_nothing_witness:
  "map c_event_id (sh_ch sample_shipped) = [1, 2] \<and>
   set (sh_ch sample_shipped) \<subseteq> to_ch ` set (job_events (sh_db sample_shipped))"
proof
  show "map c_event_id (sh_ch sample_shipped) = [1, 2]" by code_simp
qed (rule conjunct2 [OF shipping_loses_nothing [OF sample_shipped_reachable]])

theorem final_table_is_outbox_witness:
  "ch_final (sh_ch sample_shipped) = map to_ch (job_events (sh_db sample_shipped))"
proof (rule final_table_is_outbox [OF sample_shipped_reachable])
  have "list_all (\<lambda>e. \<not> unshipped e) (job_events (sh_db sample_shipped))" by code_simp
  then show "\<forall>e \<in> set (job_events (sh_db sample_shipped)). \<not> unshipped e" by (simp add: list_all_iff)
qed

theorem shipOnce_refines_steps_witness:
  "ship_step\<^sup>*\<^sup>* ship_init (ship_init\<lparr>sh_ch := snd (snd (shipOnce sample_ship 10 (empty_db, []))),
     sh_db := fst (snd (shipOnce sample_ship 10 (empty_db, [])))\<rparr>)"
  by (rule shipOnce_refines_steps [where k = 0 and se = sample_ship and n = 10 and
        msg = "fst (shipOnce sample_ship 10 (empty_db, []))"]) (simp_all add: ship_init_def)

theorem shipper_drains_backlog_witness:
  "\<exists>db'. RunShipper 5000000000 2 [ShipTick [] sample_ship, ShipTick [] sample_ship] (sample_running, []) =
       (LoopWaiting, db', [] @ map to_ch (filter unshipped (job_events sample_running))) \<and>
     filter unshipped (job_events db') = []"
proof (rule shipper_drains_backlog [OF _ _ wf_samples(2)])
  have "int (length (filter unshipped (job_events sample_running))) = 3" by code_simp
  then show "int (length (filter unshipped (job_events sample_running))) \<le> int (length [ShipTick [] sample_ship, ShipTick [] sample_ship]) * 2"
    by simp
qed (simp_all add: clean_tick_def sample_ship_def sample_ch_env_def)

end
