(* ===== verification/Reports.thy ===== *)
theory Reports
  imports Analytics
begin

text \<open>
  internal/analytics/reports.go: the four ClickHouse reports as functions of the rows of the table,
  and \<open>EstimateDrainTime\<close>. ClickHouse's \<open>now()\<close>, a fault, its error for an
  interval that is not positive, \<open>int64(d.Seconds())\<close>, the approximate
  aggregates \<open>uniq\<close> and \<open>quantile\<close>, and the operations on \<open>float64\<close> are arguments.
\<close>

record 'f report_env =
  re_now :: int
  re_fault :: "string option"
  re_interval_err :: string
  re_seconds :: "duration \<Rightarrow> int"
  re_uniq :: "string list \<Rightarrow> int"
  re_quantile99 :: "'f list \<Rightarrow> 'f"
  re_millis :: "int \<Rightarrow> 'f"
  re_less :: "'f \<Rightarrow> 'f \<Rightarrow> bool"

section \<open>Clauses the reports share\<close>

text \<open>\<open>WHERE occurred_at >= now() - INTERVAL w SECOND\<close>, with instants in milliseconds.\<close>

definition in_window :: "'f report_env \<Rightarrow> duration \<Rightarrow> ch_row list \<Rightarrow> ch_row list" where
  "in_window env window ch = filter (\<lambda>r. (re_now env - re_seconds env window) * 1000 \<le> c_occurred_at r) ch"

text \<open>\<open>toStartOfInterval(occurred_at, INTERVAL n SECOND)\<close>, in seconds.\<close>

definition start_of_interval :: "int \<Rightarrow> ch_row \<Rightarrow> int" where
  "start_of_interval n r = c_occurred_at r div (n * 1000) * n"

definition countIf :: "(ch_row \<Rightarrow> bool) \<Rightarrow> ch_row list \<Rightarrow> int" where
  "countIf p rows = int (length (filter p rows))"

definition is_arrival :: "ch_row \<Rightarrow> bool" where
  "is_arrival r \<longleftrightarrow> c_event_type r = ''enqueued''"

definition is_departure :: "ch_row \<Rightarrow> bool" where
  "is_departure r \<longleftrightarrow> c_event_type r \<in> {''completed'', ''failed'', ''reaped_failed''}"

text \<open>
  \<open>GROUP BY key ORDER BY key\<close>. Where a query has no \<open>ORDER BY\<close> this order stands for the
  unspecified one, whose rows go into a map.
\<close>

definition group_by :: "(ch_row \<Rightarrow> 'k::linorder) \<Rightarrow> ch_row list \<Rightarrow> ('k \<times> ch_row list) list" where
  "group_by key rows = map (\<lambda>k. (k, filter (\<lambda>r. key r = k) rows)) (sort (remdups (map key rows)))"

definition select_rows :: "'f report_env \<Rightarrow> string \<Rightarrow> 'a list \<Rightarrow> string + 'a list" where
  "select_rows env what rows =
     (case re_fault env of Some e \<Rightarrow> Inl (''analytics: '' @ what @ '': '' @ e) | None \<Rightarrow> Inr rows)"

section \<open>The reports\<close>

record arrival_completion =
  ac_Bucket :: int
  ac_Arrivals :: int
  ac_Completions :: int

definition ArrivalsVsCompletions ::
  "'f report_env \<Rightarrow> duration \<Rightarrow> duration \<Rightarrow> ch_row list \<Rightarrow> string + arrival_completion list" where
  "ArrivalsVsCompletions env window bucket ch =
     (let n = re_seconds env bucket in
      if n \<le> 0 then Inl (''analytics: arrivals vs completions: '' @ re_interval_err env)
      else select_rows env ''arrivals vs completions''
        (map (\<lambda>(b, rows). \<lparr>ac_Bucket = b, ac_Arrivals = countIf is_arrival rows, ac_Completions = countIf is_departure rows\<rparr>)
          (group_by (start_of_interval n) (in_window env window ch))))"

record 'f duration_percentile =
  dp_JobType :: string
  dp_P99Seconds :: 'f
  dp_Samples :: int

text \<open>\<open>minIf\<close> is 0 when no row qualifies.\<close>

definition minIf :: "(ch_row \<Rightarrow> bool) \<Rightarrow> ch_row list \<Rightarrow> int" where
  "minIf p rows = (case map c_occurred_at (filter p rows) of [] \<Rightarrow> 0 | t # ts \<Rightarrow> fold min ts t)"

text \<open>
  The subquery: for every attempt (job id and attempt number) that has a claimed event and a later
  terminal one, its type and its duration in milliseconds. \<open>any\<close> takes the first row's type.
\<close>

definition attempt_durations :: "ch_row list \<Rightarrow> (string \<times> int) list" where
  "attempt_durations rows =
     concat (map (\<lambda>(k, g).
         let claimed = minIf (\<lambda>r. c_event_type r = ''claimed'') g;
             done = minIf (\<lambda>r. c_event_type r \<in> {''completed'', ''failed''}) g
         in if 0 < claimed \<and> claimed < done then [(c_job_type (hd g), done - claimed)] else [])
       (group_by (\<lambda>r. (c_job_id r, c_attempts r))
         (filter (\<lambda>r. c_event_type r \<in> {''claimed'', ''completed'', ''failed''}) rows)))"

definition insert_desc :: "('f \<Rightarrow> 'f \<Rightarrow> bool) \<Rightarrow> 'f duration_percentile \<Rightarrow> 'f duration_percentile list \<Rightarrow> 'f duration_percentile list" where
  "insert_desc lt x xs = takeWhile (\<lambda>y. lt (dp_P99Seconds x) (dp_P99Seconds y)) xs @ [x] @
     dropWhile (\<lambda>y. lt (dp_P99Seconds x) (dp_P99Seconds y)) xs"

definition DurationPercentiles ::
  "'f report_env \<Rightarrow> duration \<Rightarrow> ch_row list \<Rightarrow> string + 'f duration_percentile list" where
  "DurationPercentiles env window ch =
     (let ds = attempt_durations (in_window env window ch);
          groups = map (\<lambda>t. (t, map snd (filter (\<lambda>d. fst d = t) ds))) (sort (remdups (map fst ds)))
      in select_rows env ''duration percentiles''
           (foldr (insert_desc (re_less env))
             (map (\<lambda>(t, ms). \<lparr>dp_JobType = t, dp_P99Seconds = re_quantile99 env (map (re_millis env) ms), dp_Samples = int (length ms)\<rparr>) groups) []))"

record backlog_point =
  bp_Bucket :: int
  bp_ActiveWorkers :: int
  bp_CumulativeBacklog :: int

text \<open>\<open>sum(net_change) OVER (ORDER BY bucket)\<close>.\<close>

fun running_sum :: "int \<Rightarrow> (int \<times> int \<times> int) list \<Rightarrow> backlog_point list" where
  "running_sum acc [] = []"
| "running_sum acc ((b, workers, net) # rows) =
     \<lparr>bp_Bucket = b, bp_ActiveWorkers = workers, bp_CumulativeBacklog = acc + net\<rparr> # running_sum (acc + net) rows"

definition BacklogVsWorkers ::
  "'f report_env \<Rightarrow> duration \<Rightarrow> duration \<Rightarrow> ch_row list \<Rightarrow> string + backlog_point list" where
  "BacklogVsWorkers env window bucket ch =
     (let n = re_seconds env bucket in
      if n \<le> 0 then Inl (''analytics: backlog vs workers: '' @ re_interval_err env)
      else select_rows env ''backlog vs workers''
        (running_sum 0 (map (\<lambda>(b, rows). (b, re_uniq env (map c_worker_id (filter (\<lambda>r. c_event_type r = ''claimed'') rows)),
             countIf is_arrival rows - countIf is_departure rows))
          (group_by (start_of_interval n) (in_window env window ch)))))"

record completion_rate =
  cr_JobType :: string
  cr_Completions :: int

definition RecentCompletionRates ::
  "'f report_env \<Rightarrow> duration \<Rightarrow> ch_row list \<Rightarrow> string + completion_rate list" where
  "RecentCompletionRates env window ch =
     select_rows env ''recent completion rates''
       (map (\<lambda>(t, rows). \<lparr>cr_JobType = t, cr_Completions = countIf is_departure rows\<rparr>)
         (group_by c_job_type (in_window env window ch)))"

section \<open>EstimateDrainTime\<close>

record 'f drain_estimate =
  de_JobType :: string
  de_Backlog :: int
  de_CompletionsPerSec :: 'f
  de_EstimatedSeconds :: 'f
  de_CanEstimate :: bool

text \<open>\<open>zero\<close>, \<open>lt\<close> and \<open>quot\<close> (an integer by a float) are those of \<open>float64\<close>; a map's missing key reads as zero.\<close>

definition EstimateDrainTime ::
  "'f \<Rightarrow> ('f \<Rightarrow> 'f \<Rightarrow> bool) \<Rightarrow> (int \<Rightarrow> 'f \<Rightarrow> 'f) \<Rightarrow> (string \<times> int) list \<Rightarrow> (string \<times> 'f) list \<Rightarrow> 'f drain_estimate list" where
  "EstimateDrainTime zero lt quot backlog completionsPerSec =
     map (\<lambda>t. let rate = (case map_of completionsPerSec t of None \<Rightarrow> zero | Some x \<Rightarrow> x);
                  n = (case map_of backlog t of None \<Rightarrow> 0 | Some k \<Rightarrow> k)
              in \<lparr>de_JobType = t, de_Backlog = n, de_CompletionsPerSec = rate,
                  de_EstimatedSeconds = (if lt zero rate then quot n rate else zero),
                  de_CanEstimate = lt zero rate\<rparr>)
       (sort (remdups (map fst backlog @ map fst completionsPerSec)))"

section \<open>Lemmas on grouping\<close>

lemma group_by_keys: "map fst (group_by key rows) = sort (remdups (map key rows))"
  by (simp add: group_by_def comp_def)

lemma sum_over_keys:
  assumes "distinct ks" "set (map key rows) \<subseteq> set ks"
  shows "sum_list (map (\<lambda>k. countIf p (filter (\<lambda>r. key r = k) rows)) ks) = countIf p rows"
  using assms(2)
proof (induction rows)
  case (Cons r rows)
  have "sum_list (map (\<lambda>k. countIf p (filter (\<lambda>x. key x = k) (r # rows))) ks) =
      sum_list (map (\<lambda>k. countIf p (filter (\<lambda>x. key x = k) rows)) ks) +
      sum_list (map (\<lambda>k. if k = key r then (if p r then 1 else 0) else 0) ks)"
    unfolding sum_list_addf [symmetric]
    by (rule arg_cong [of _ _ sum_list], rule map_cong) (auto simp: countIf_def)
  moreover have "sum_list (map (\<lambda>k. if k = key r then (if p r then 1 else 0) else 0) ks) = (if p r then 1 else 0 :: int)"
    using assms(1) Cons.prems by (simp add: sum_list_map_eq_sum_count2 sum_list_distinct_conv_sum_set)
  ultimately show ?case using Cons by (auto simp: countIf_def)
qed (simp add: countIf_def)

lemma group_by_total: "sum_list (map (\<lambda>(k, g). countIf p g) (group_by key rows)) = countIf p rows"
  using sum_over_keys [of "sort (remdups (map key rows))" key rows p] by (simp add: group_by_def comp_def)


lemma start_of_interval_bounds:
  assumes "0 < n"
  shows "start_of_interval n r * 1000 \<le> c_occurred_at r" "c_occurred_at r < (start_of_interval n r + n) * 1000"
proof -
  let ?w = "n * 1000" and ?q = "c_occurred_at r div (n * 1000)"
  have "?q * ?w \<le> c_occurred_at r" "c_occurred_at r < ?q * ?w + ?w"
    using assms pos_mod_bound [of ?w "c_occurred_at r"] pos_mod_sign [of ?w "c_occurred_at r"] div_mult_mod_eq [of "c_occurred_at r" ?w]
    by linarith+
  then show "start_of_interval n r * 1000 \<le> c_occurred_at r" "c_occurred_at r < (start_of_interval n r + n) * 1000"
    by (simp_all add: start_of_interval_def algebra_simps)
qed

lemma strict_sort_remdups: "sorted_wrt (<) (sort (remdups xs))"
  by (simp add: strict_sorted_iff)

text \<open>
  \<open>ArrivalsVsCompletions\<close> splits the window into disjoint buckets: they come in strictly
  increasing order, every event of the window falls into the bucket that starts at or before it
  and less than one bucket size earlier, and the arrivals and the departures of all buckets add
  up to those of the whole window.
\<close>

theorem arrivals_report_partitions:
  assumes "ArrivalsVsCompletions env window bucket ch = Inr rows"
  shows "sorted_wrt (<) (map ac_Bucket rows) \<and>
     sum_list (map ac_Arrivals rows) = countIf is_arrival (in_window env window ch) \<and>
     sum_list (map ac_Completions rows) = countIf is_departure (in_window env window ch) \<and>
     (\<forall>r \<in> set (in_window env window ch). \<exists>b \<in> set (map ac_Bucket rows).
        b * 1000 \<le> c_occurred_at r \<and> c_occurred_at r < (b + re_seconds env bucket) * 1000)"
proof -
  let ?n = "re_seconds env bucket" and ?w = "in_window env window ch"
  let ?mk = "\<lambda>(b, rows). \<lparr>ac_Bucket = b, ac_Arrivals = countIf is_arrival rows, ac_Completions = countIf is_departure rows\<rparr>"
  have n: "0 < ?n" and rows: "rows = map ?mk (group_by (start_of_interval ?n) ?w)"
    using assms by (auto simp: ArrivalsVsCompletions_def Let_def select_rows_def split: if_splits option.splits)
  have "map ac_Bucket rows = map fst (group_by (start_of_interval ?n) ?w)" by (auto simp: rows)
  then have keys: "map ac_Bucket rows = sort (remdups (map (start_of_interval ?n) ?w))"
    by (simp only: group_by_keys)
  have "map ac_Arrivals rows = map (\<lambda>(k, g). countIf is_arrival g) (group_by (start_of_interval ?n) ?w)"
    "map ac_Completions rows = map (\<lambda>(k, g). countIf is_departure g) (group_by (start_of_interval ?n) ?w)"
    by (auto simp: rows)
  then have "sum_list (map ac_Arrivals rows) = countIf is_arrival ?w"
    "sum_list (map ac_Completions rows) = countIf is_departure ?w"
    by (simp_all only: group_by_total)
  moreover have "\<exists>b \<in> set (map ac_Bucket rows). b * 1000 \<le> c_occurred_at r \<and> c_occurred_at r < (b + ?n) * 1000"
    if "r \<in> set ?w" for r
    unfolding keys using that start_of_interval_bounds [OF n, of r] by (intro bexI [of _ "start_of_interval ?n r"]) auto
  ultimately show ?thesis by (simp add: keys strict_sort_remdups del: map_map)
qed

lemma running_sum_fields:
  "map bp_Bucket (running_sum acc xs) = map fst xs"
  "map bp_CumulativeBacklog (running_sum acc xs) =
     map (\<lambda>k. acc + sum_list (take (Suc k) (map (snd \<circ> snd) xs))) [0..<length xs]"
proof -
  show "map bp_Bucket (running_sum acc xs) = map fst xs"
    by (induction acc xs rule: running_sum.induct) simp_all
  show "map bp_CumulativeBacklog (running_sum acc xs) =
     map (\<lambda>k. acc + sum_list (take (Suc k) (map (snd \<circ> snd) xs))) [0..<length xs]"
  proof (induction acc xs rule: running_sum.induct)
    case (2 acc b workers net rows)
    then show ?case unfolding list.size add_0_right add_Suc_right map_upt_Suc by (simp add: add.assoc comp_def)
  qed simp
qed

text \<open>
  The backlog report agrees with the arrivals report: over the same window and buckets it has
  the same buckets, and the backlog it shows for a bucket is the sum, up to and including that
  bucket, of the arrivals minus the departures the other report shows.
\<close>

theorem backlog_report_accumulates_arrivals:
  assumes "ArrivalsVsCompletions env window bucket ch = Inr acs"
  shows "\<exists>bps. BacklogVsWorkers env window bucket ch = Inr bps \<and> map bp_Bucket bps = map ac_Bucket acs \<and>
     map bp_CumulativeBacklog bps =
       map (\<lambda>k. sum_list (take (Suc k) (map (\<lambda>a. ac_Arrivals a - ac_Completions a) acs))) [0..<length acs]"
proof -
  let ?g = "group_by (start_of_interval (re_seconds env bucket)) (in_window env window ch)"
  let ?xs = "map (\<lambda>(b, rows). (b, re_uniq env (map c_worker_id (filter (\<lambda>r. c_event_type r = ''claimed'') rows)),
      countIf is_arrival rows - countIf is_departure rows)) ?g"
  have ok: "re_fault env = None" "0 < re_seconds env bucket"
    and acs: "acs = map (\<lambda>(b, rows). \<lparr>ac_Bucket = b, ac_Arrivals = countIf is_arrival rows, ac_Completions = countIf is_departure rows\<rparr>) ?g"
    using assms by (auto simp: ArrivalsVsCompletions_def Let_def select_rows_def split: if_splits option.splits)
  then have B: "BacklogVsWorkers env window bucket ch = Inr (running_sum 0 ?xs)"
    by (simp add: BacklogVsWorkers_def select_rows_def)
  have "map fst ?xs = map ac_Bucket acs" "map (snd \<circ> snd) ?xs = map (\<lambda>a. ac_Arrivals a - ac_Completions a) acs"
    "length ?xs = length acs"
    by (auto simp: acs)
  with running_sum_fields [of 0 ?xs] B show ?thesis by (intro exI [of _ "running_sum 0 ?xs"]) simp
qed

text \<open>
  \<open>EstimateDrainTime\<close> gives one estimate for every type that has a backlog or a rate, in
  alphabetical order and each once, and estimates a time (backlog divided by rate) exactly for
  the types with a positive rate.
\<close>

theorem drain_estimates_complete:
  "sorted_wrt (<) (map de_JobType (EstimateDrainTime zero lt quot backlog rates)) \<and>
   de_JobType ` set (EstimateDrainTime zero lt quot backlog rates) = fst ` set backlog \<union> fst ` set rates \<and>
   list_all (\<lambda>e. de_Backlog e = (case map_of backlog (de_JobType e) of None \<Rightarrow> 0 | Some k \<Rightarrow> k) \<and>
       de_CanEstimate e = (case map_of rates (de_JobType e) of None \<Rightarrow> lt zero zero | Some x \<Rightarrow> lt zero x) \<and>
       de_EstimatedSeconds e = (if de_CanEstimate e then quot (de_Backlog e) (de_CompletionsPerSec e) else zero))
     (EstimateDrainTime zero lt quot backlog rates)"
proof -
  have "map de_JobType (EstimateDrainTime zero lt quot backlog rates) = sort (remdups (map fst backlog @ map fst rates))"
    by (simp add: EstimateDrainTime_def Let_def comp_def)
  moreover from arg_cong [OF this, of set]
  have "de_JobType ` set (EstimateDrainTime zero lt quot backlog rates) = fst ` set backlog \<union> fst ` set rates" by simp
  ultimately show ?thesis
    by (auto simp: strict_sort_remdups list_all_iff EstimateDrainTime_def Let_def split: option.splits)
qed

section \<open>The hypotheses at a concrete table\<close>

definition sample_report_env :: "unit report_env" where
  "sample_report_env = \<lparr>re_now = 100, re_fault = None, re_interval_err = '''', re_seconds = (\<lambda>d. sint d div 1000000000),
     re_uniq = (\<lambda>ws. int (length (remdups ws))), re_quantile99 = (\<lambda>_. ()), re_millis = (\<lambda>_. ()), re_less = (\<lambda>_ _. False)\<rparr>"

definition sample_rows :: "ch_row list" where
  "sample_rows = map (\<lambda>(i, ty, t). \<lparr>c_event_id = i, c_job_id = 1, c_job_type = ''a'', c_event_type = ty, c_attempts = 1,
     c_worker_id = ''w'', c_error_message = '''', c_occurred_at = t\<rparr>)
     [(1, ''enqueued'', 61000), (2, ''enqueued'', 62000), (3, ''claimed'', 70500), (4, ''completed'', 75000)]"

lemma sample_arrivals:
  "ArrivalsVsCompletions sample_report_env 60000000000 10000000000 sample_rows =
     Inr [\<lparr>ac_Bucket = 60, ac_Arrivals = 2, ac_Completions = 0\<rparr>, \<lparr>ac_Bucket = 70, ac_Arrivals = 0, ac_Completions = 1\<rparr>]"
  by code_simp

theorem arrivals_report_partitions_witness:
  "sum_list (map ac_Arrivals [\<lparr>ac_Bucket = 60, ac_Arrivals = 2, ac_Completions = 0\<rparr>, \<lparr>ac_Bucket = 70, ac_Arrivals = 0, ac_Completions = 1\<rparr>]) =
     countIf is_arrival (in_window sample_report_env 60000000000 sample_rows)"
  using arrivals_report_partitions [OF sample_arrivals] by blast

theorem backlog_report_accumulates_arrivals_witness:
  "\<exists>bps. BacklogVsWorkers sample_report_env 60000000000 10000000000 sample_rows = Inr bps \<and>
     map bp_CumulativeBacklog bps = [2, 1]"
  using backlog_report_accumulates_arrivals [OF sample_arrivals] by (auto simp: upt_rec)

end
