(* ===== verification/Cli.thy ===== *)
theory Cli
  imports Payload Grpc Reports
begin

text \<open>
  cmd/jobqueue/main.go: the subcommands, the flags of package \<open>flag\<close>, the worker process
  (\<open>runWork\<close>: pool size, workers, reaper, shipper), the reaper's loop and the handler registry; and
  the pool size of \<open>store.New\<close>. The gRPC connection and the formatting of times and floats are arguments.
\<close>

section \<open>flag\<close>

text \<open>
  \<open>FlagSet.Parse\<close> with \<open>ExitOnError\<close>: \<open>defs\<close> holds the defined flags and which values each
  accepts. Parsing stops at the first argument that is not a flag.
\<close>

datatype flag_result = FlagsOk "(string \<times> string) list" | FlagsHelp | FlagsBad

fun parse_flags :: "(string \<times> (string \<Rightarrow> bool)) list \<Rightarrow> (string \<times> string) list \<Rightarrow> string list \<Rightarrow> flag_result" where
  "parse_flags defs acc [] = FlagsOk acc"
| "parse_flags defs acc (a # args) =
     (if length a < 2 \<or> hd a \<noteq> CHR ''-'' \<or> a = ''--'' then FlagsOk acc
      else
        (let body = (if a ! 1 = CHR ''-'' then drop 2 a else drop 1 a);
             name = takeWhile (\<lambda>c. c \<noteq> CHR ''='') body
         in if body = [] \<or> hd body = CHR ''-'' \<or> hd body = CHR ''='' then FlagsBad
            else
              (case map_of defs name of
                 None \<Rightarrow> if name = ''help'' \<or> name = ''h'' then FlagsHelp else FlagsBad
               | Some ok \<Rightarrow>
                   if name \<noteq> body then
                     (let v = drop (length name + 1) body
                      in if ok v then parse_flags defs (acc @ [(name, v)]) args else FlagsBad)
                   else
                     (case args of
                        [] \<Rightarrow> FlagsBad
                      | v # rest \<Rightarrow> if ok v then parse_flags defs (acc @ [(name, v)]) rest else FlagsBad))))"

text \<open>
  \<open>strconv.ParseInt(s, 0, 64)\<close>, which reads an integer flag: a sign, an optional base prefix,
  digits of that base and underscores between digits or after the prefix.
\<close>

definition digit_of :: "char \<Rightarrow> int option" where
  "digit_of c = (let k = of_char c :: int in
     if 48 \<le> k \<and> k \<le> 57 then Some (k - 48)
     else if 97 \<le> k \<and> k \<le> 122 then Some (k - 87)
     else if 65 \<le> k \<and> k \<le> 90 then Some (k - 55) else None)"

definition base_prefix :: "string \<Rightarrow> int \<times> string" where
  "base_prefix s =
     (if s = [] \<or> hd s \<noteq> CHR ''0'' then (10, s)
      else if 3 \<le> length s \<and> s ! 1 \<in> set ''bB'' then (2, drop 2 s)
      else if 3 \<le> length s \<and> s ! 1 \<in> set ''oO'' then (8, drop 2 s)
      else if 3 \<le> length s \<and> s ! 1 \<in> set ''xX'' then (16, drop 2 s)
      else (8, drop 1 s))"

fun base_value :: "int \<Rightarrow> int \<Rightarrow> string \<Rightarrow> int option" where
  "base_value b acc [] = Some acc"
| "base_value b acc (c # cs) =
     (if c = CHR ''_'' then base_value b acc cs
      else (case digit_of c of None \<Rightarrow> None
            | Some d \<Rightarrow> if b \<le> d then None else base_value b (acc * b + d) cs))"

text \<open>An underscore follows a digit (\<open>d\<close>) and is followed by one.\<close>

fun underscoreOK :: "bool \<Rightarrow> string \<Rightarrow> bool" where
  "underscoreOK d [] = True"
| "underscoreOK d (c # cs) =
     (if c = CHR ''_'' then d \<and> cs \<noteq> [] \<and> hd cs \<noteq> CHR ''_'' \<and> underscoreOK False cs
      else underscoreOK True cs)"

definition ParseInt :: "string \<Rightarrow> int option" where
  "ParseInt s =
     (let (neg, u) = split_sign s; (b, ds) = base_prefix u
      in if u = [] \<or> \<not> underscoreOK (ds \<noteq> u) ds then None
         else (case base_value b 0 ds of
                 None \<Rightarrow> None
               | Some n \<Rightarrow> let v = (if neg then - n else n)
                          in if v < - (2 ^ 63) \<or> 2 ^ 63 \<le> v then None else Some v))"

definition flag_value :: "(string \<times> string) list \<Rightarrow> string \<Rightarrow> string \<Rightarrow> string" where
  "flag_value vals name dflt = (case map_of (rev vals) name of None \<Rightarrow> dflt | Some v \<Rightarrow> v)"

section \<open>What a subcommand leaves\<close>

text \<open>The exit code, the lines printed, and the messages of the structured log.\<close>

record outcome =
  out_code :: int
  out_stdout :: "string list"
  out_stderr :: "string list"
  out_log :: "string list"

definition exits :: "int \<Rightarrow> string \<Rightarrow> outcome" where
  "exits code msg = \<lparr>out_code = code, out_stdout = [], out_stderr = [msg], out_log = []\<rparr>"

definition prints :: "string list \<Rightarrow> outcome" where
  "prints lines = \<lparr>out_code = 0, out_stdout = lines, out_stderr = [], out_log = []\<rparr>"

definition logs :: "int \<Rightarrow> string list \<Rightarrow> outcome" where
  "logs code msgs = \<lparr>out_code = code, out_stdout = [], out_stderr = [], out_log = msgs\<rparr>"

text \<open>The usage text of the flag package is not spelled out; its exit codes are.\<close>

definition with_flags ::
  "(string \<times> (string \<Rightarrow> bool)) list \<Rightarrow> string list \<Rightarrow> ((string \<times> string) list \<Rightarrow> outcome \<times> 'd) \<Rightarrow> 'd \<Rightarrow> outcome \<times> 'd" where
  "with_flags defs args body d =
     (case parse_flags defs [] args of
        FlagsOk vals \<Rightarrow> body vals
      | FlagsHelp \<Rightarrow> (exits 0 ''usage'', d)
      | FlagsBad \<Rightarrow> (exits 2 ''usage'', d))"

text \<open>
  The client side of the API: a dial error, and a fault of the connection before the server saw a
  request or after it answered, with the number of streamed updates received until then.
\<close>

record rpc_env =
  rpc_new_client :: "string \<Rightarrow> string option"
  rpc_lost :: "string option"
  rpc_lost_answer :: "string option"
  rpc_received :: nat
  rpc_text :: "rpc_err \<Rightarrow> string"
  rpc_pg :: pg_env

definition dialClient :: "rpc_env \<Rightarrow> string \<Rightarrow> string option" where
  "dialClient re addr = map_option (\<lambda>e. ''dialing '' @ addr @ '': '' @ e) (rpc_new_client re addr)"

definition rpc_call :: "rpc_env \<Rightarrow> (db \<Rightarrow> (rpc_err + 'a) \<times> db) \<Rightarrow> db \<Rightarrow> (string + 'a) \<times> db" where
  "rpc_call re f db =
     (case rpc_lost re of
        Some e \<Rightarrow> (Inl e, db)
      | None \<Rightarrow>
          (let (res, db') = f db
           in ((case rpc_lost_answer re of
                  Some e \<Rightarrow> Inl e
                | None \<Rightarrow> (case res of Inl e \<Rightarrow> Inl (rpc_text re e) | Inr a \<Rightarrow> Inr a)), db')))"

section \<open>enqueue, status, watch\<close>

definition runEnqueue ::
  "'ctx otel \<Rightarrow> 'ctx \<Rightarrow> config \<Rightarrow> rpc_env \<Rightarrow> string list \<Rightarrow> db \<Rightarrow> outcome \<times> db" where
  "runEnqueue ot ctx cfg re args db =
     with_flags [(''type'', \<lambda>_. True), (''payload'', \<lambda>_. True)] args (\<lambda>vals.
       let jobType = flag_value vals ''type'' ''''; payload = flag_value vals ''payload'' ''{}''
       in if jobType = '''' then (exits 1 ''enqueue: -type is required'', db)
          else if \<not> json_Valid payload then (exits 1 ''enqueue: -payload is not valid JSON'', db)
          else
            (case dialClient re (GRPCAddr cfg) of
               Some e \<Rightarrow> (exits 1 (''enqueue: '' @ e), db)
             | None \<Rightarrow>
                 (case rpc_call re (Server_Submit ot (rpc_pg re) ctx jobType payload) db of
                    (Inl e, db') \<Rightarrow> (exits 1 (''enqueue failed: '' @ e), db')
                  | (Inr i, db') \<Rightarrow>
                      (prints [''enqueued job '' @ fmt_d i @ '' (type='' @ jobType @ '')''], db')))) db"

definition printStatusUpdate :: "status_update \<Rightarrow> string" where
  "printStatusUpdate u = ''job '' @ fmt_d (u_id u) @ '': status='' @ u_status u @ '' attempts='' @
     fmt_d (u_attempts u) @ ''/'' @ fmt_d (u_max_attempts u) @ '' last_error='' @ fmt_q (u_last_error u)"

definition id_flag :: "(string \<times> string) list \<Rightarrow> int" where
  "id_flag vals = (case ParseInt (flag_value vals ''id'' ''0'') of None \<Rightarrow> 0 | Some i \<Rightarrow> i)"

definition runStatus :: "config \<Rightarrow> rpc_env \<Rightarrow> string list \<Rightarrow> db \<Rightarrow> outcome \<times> db" where
  "runStatus cfg re args db =
     with_flags [(''id'', \<lambda>v. ParseInt v \<noteq> None)] args (\<lambda>vals.
       let i = id_flag vals
       in if i = 0 then (exits 1 ''status: -id is required'', db)
          else
            (case dialClient re (GRPCAddr cfg) of
               Some e \<Rightarrow> (exits 1 (''status: '' @ e), db)
             | None \<Rightarrow>
                 (case rpc_call re (\<lambda>db. (Server_GetStatus (rpc_pg re) i db, db)) db of
                    (Inl e, db') \<Rightarrow> (exits 1 (''status failed: '' @ e), db')
                  | (Inr u, db') \<Rightarrow> (prints [printStatusUpdate u], db')))) db"

text \<open>
  The stream ends with io.EOF when the server returned nil, with an error when it returned one or
  the connection broke after the updates received so far; a stream still open has not returned.
\<close>

definition runWatch ::
  "config \<Rightarrow> rpc_env \<Rightarrow> watch_turn list \<Rightarrow> string list \<Rightarrow> db \<Rightarrow> outcome option \<times> db" where
  "runWatch cfg re ts args db =
     (case parse_flags [(''id'', \<lambda>v. ParseInt v \<noteq> None)] [] args of
        FlagsHelp \<Rightarrow> (Some (exits 0 ''usage''), db)
      | FlagsBad \<Rightarrow> (Some (exits 2 ''usage''), db)
      | FlagsOk vals \<Rightarrow>
          (let i = id_flag vals
           in if i = 0 then (Some (exits 1 ''watch: -id is required''), db)
              else
                (case dialClient re (GRPCAddr cfg) of
                   Some e \<Rightarrow> (Some (exits 1 (''watch: '' @ e)), db)
                 | None \<Rightarrow>
                     (case rpc_lost re of
                        Some e \<Rightarrow> (Some (exits 1 (''watch failed: '' @ e)), db)
                      | None \<Rightarrow>
                          (let (r, us, db') = Server_WatchStatus i ts db;
                               failed = (\<lambda>us msg. Some \<lparr>out_code = 1, out_stdout = map printStatusUpdate us,
                                  out_stderr = [''watch stream error: '' @ msg], out_log = []\<rparr>)
                           in (case rpc_lost_answer re of
                                 Some e \<Rightarrow> (failed (take (rpc_received re) us) e, db')
                               | None \<Rightarrow>
                                   (case r of
                                      Watching \<Rightarrow> (None, db')
                                    | WatchEnd None \<Rightarrow> (Some (prints (map printStatusUpdate us)), db')
                                    | WatchEnd (Some e) \<Rightarrow> (failed us (rpc_text re e), db'))))))))"

section \<open>dead-letters\<close>

text \<open>
  What a process finds when it connects: pgx's reading of the URL, its pool, a ping, ClickHouse,
  the exporter of traces and the listening socket.
\<close>

record work_env =
  we_parse_config :: "string \<Rightarrow> string + int"
  we_pool_err :: "string option"
  we_ping_err :: "string option"
  we_ch_open :: "ch_options \<Rightarrow> string option"
  we_ch_ping :: "ch_options \<Rightarrow> string option"
  we_exporter :: "string \<Rightarrow> string option"
  we_listen_err :: "string option"

text \<open>\<open>store.New\<close>: a positive maximum replaces the pool's own default; \<open>parsed\<close> is the parsed URL's default size.\<close>

definition store_New :: "(string \<Rightarrow> string + int) \<Rightarrow> string option \<Rightarrow> string \<Rightarrow> int \<Rightarrow> string + int" where
  "store_New parse_config pool_err connString maxConns =
     (case parse_config connString of
        Inl e \<Rightarrow> Inl (''store: parsing connection string: '' @ e)
      | Inr dflt \<Rightarrow>
          (case pool_err of
             Some e \<Rightarrow> Inl (''store: creating pool: '' @ e)
           | None \<Rightarrow> Inr (if 0 < maxConns then maxConns else dflt)))"

definition dead_letter_line :: "(int \<Rightarrow> string) \<Rightarrow> dead_letter \<Rightarrow> string" where
  "dead_letter_line rfc3339 d = ''job '' @ fmt_d (d_job_id d) @ '' (type='' @ d_type d @ '', attempts='' @
     fmt_d (d_attempts d) @ '', failed_at='' @ rfc3339 (d_failed_at d) @ ''): '' @ d_last_error d"

definition runDeadLetters ::
  "config \<Rightarrow> work_env \<Rightarrow> (int \<Rightarrow> string) \<Rightarrow> pg_env \<Rightarrow> string list \<Rightarrow> db \<Rightarrow> outcome" where
  "runDeadLetters cfg we rfc3339 env args db =
     fst (with_flags [(''limit'', \<lambda>v. ParseInt v \<noteq> None)] args (\<lambda>vals.
       let limit = (case ParseInt (flag_value vals ''limit'' ''20'') of None \<Rightarrow> 20 | Some n \<Rightarrow> n)
       in case store_New (we_parse_config we) (we_pool_err we) (DatabaseURL cfg) (DBMaxConns cfg) of
            Inl e \<Rightarrow> (exits 1 (''dead-letters: '' @ e), ())
          | Inr pool \<Rightarrow>
              (case ListDeadLetters env limit db of
                 Inl e \<Rightarrow> (exits 1 (''dead-letters failed: '' @ err_Error e), ())
               | Inr letters \<Rightarrow>
                   if letters = [] then (prints [''no dead letters''], ())
                   else (prints (map (dead_letter_line rfc3339) letters), ()))) ())"

section \<open>analytics\<close>

definition connect_clickhouse :: "config \<Rightarrow> work_env \<Rightarrow> string + ch_options" where
  "connect_clickhouse cfg we = NewClient (we_ch_open we) (we_ch_ping we)
     (ClickHouseAddr cfg) (ClickHouseDatabase cfg) (ClickHouseUser cfg) (ClickHousePassword cfg)"

text \<open>
  What \<open>runAnalytics\<close> is given: the formatting and arithmetic of floats (\<open>ae_rate\<close> divides a count by
  a duration's seconds, \<open>ae_fixed\<close> prints with so many decimals, \<open>ae_eta\<close> rounds seconds to a printed
  duration), the formatting of instants, \<open>time.ParseDuration\<close>, and the two databases' faults.
\<close>

record 'f analytics_env =
  ae_parse :: "string \<Rightarrow> string + duration"
  ae_conn :: work_env
  ae_pg :: pg_env
  ae_ch :: "'f report_env"
  ae_zero :: 'f
  ae_quot :: "int \<Rightarrow> 'f \<Rightarrow> 'f"
  ae_rate :: "int \<Rightarrow> duration \<Rightarrow> 'f"
  ae_fixed :: "nat \<Rightarrow> 'f \<Rightarrow> string"
  ae_eta :: "'f \<Rightarrow> string"
  ae_rfc3339 :: "int \<Rightarrow> string"

text \<open>A width counts characters: the bytes of UTF-8 that do not continue one.\<close>

definition padding :: "nat \<Rightarrow> string \<Rightarrow> string" where
  "padding n s = replicate (n - length (filter (\<lambda>c. (of_char c :: int) div 64 \<noteq> 2) s)) CHR '' ''"

definition pad_right :: "nat \<Rightarrow> string \<Rightarrow> string" where
  "pad_right n s = s @ padding n s"

definition pad_left :: "nat \<Rightarrow> string \<Rightarrow> string" where
  "pad_left n s = padding n s @ s"

definition table :: "string \<Rightarrow> ('a \<Rightarrow> string) \<Rightarrow> string + 'a list \<Rightarrow> outcome" where
  "table header line res =
     (case res of Inl e \<Rightarrow> exits 1 (''analytics: '' @ e) | Inr rows \<Rightarrow> prints (header # map line rows))"

definition arrivals_table :: "(int \<Rightarrow> string) \<Rightarrow> string + arrival_completion list \<Rightarrow> outcome" where
  "arrivals_table rfc3339 =
     table (pad_right 25 ''bucket'' @ '' '' @ pad_left 10 ''arrivals'' @ '' '' @ pad_left 12 ''completions'')
       (\<lambda>r. pad_right 25 (rfc3339 (ac_Bucket r)) @ '' '' @ pad_left 10 (fmt_d (ac_Arrivals r)) @ '' '' @
          pad_left 12 (fmt_d (ac_Completions r)))"

definition duration_table :: "(nat \<Rightarrow> 'f \<Rightarrow> string) \<Rightarrow> string + 'f duration_percentile list \<Rightarrow> outcome" where
  "duration_table fixed =
     table (pad_right 20 ''job_type'' @ '' '' @ pad_left 12 ''p99_seconds'' @ '' '' @ pad_left 10 ''samples'')
       (\<lambda>r. pad_right 20 (dp_JobType r) @ '' '' @ pad_left 12 (fixed 3 (dp_P99Seconds r)) @ '' '' @
          pad_left 10 (fmt_d (dp_Samples r)))"

definition backlog_table :: "(int \<Rightarrow> string) \<Rightarrow> string + backlog_point list \<Rightarrow> outcome" where
  "backlog_table rfc3339 =
     table (pad_right 25 ''bucket'' @ '' '' @ pad_left 14 ''active_workers'' @ '' '' @ pad_left 18 ''cumulative_backlog'')
       (\<lambda>r. pad_right 25 (rfc3339 (bp_Bucket r)) @ '' '' @ pad_left 14 (fmt_d (bp_ActiveWorkers r)) @ '' '' @
          pad_left 18 (fmt_d (bp_CumulativeBacklog r)))"

definition drain_line :: "'f analytics_env \<Rightarrow> 'f drain_estimate \<Rightarrow> string" where
  "drain_line ae e =
     (let eta = (if de_CanEstimate e then ae_eta ae (de_EstimatedSeconds e) else ''unknown (no recent completions)'')
      in pad_right 20 (de_JobType e) @ '' '' @ pad_left 10 (fmt_d (de_Backlog e)) @ '' '' @
         pad_left 14 (ae_fixed ae 4 (de_CompletionsPerSec e)) @ '' '' @ pad_left 16 eta)"

definition drain_report :: "config \<Rightarrow> 'f analytics_env \<Rightarrow> duration \<Rightarrow> db \<Rightarrow> ch_row list \<Rightarrow> outcome" where
  "drain_report cfg ae window db ch =
     (case store_New (we_parse_config (ae_conn ae)) (we_pool_err (ae_conn ae)) (DatabaseURL cfg) (DBMaxConns cfg) of
        Inl e \<Rightarrow> exits 1 (''analytics: connecting to postgres: '' @ e)
      | Inr pool \<Rightarrow>
          (case CountByStatusAndType (ae_pg ae) ''queued'' db of
             Inl e \<Rightarrow> exits 1 (''analytics: '' @ err_Error e)
           | Inr backlog \<Rightarrow>
               (case RecentCompletionRates (ae_ch ae) window ch of
                  Inl e \<Rightarrow> exits 1 (''analytics: '' @ e)
                | Inr rates \<Rightarrow>
                    (let completionsPerSec = map (\<lambda>r. (cr_JobType r, ae_rate ae (cr_Completions r) window)) rates
                     in prints ((pad_right 20 ''job_type'' @ '' '' @ pad_left 10 ''backlog'' @ '' '' @
                          pad_left 14 ''rate_per_sec'' @ '' '' @ pad_left 16 ''eta'') #
                        map (drain_line ae)
                          (EstimateDrainTime (ae_zero ae) (re_less (ae_ch ae)) (ae_quot ae) backlog completionsPerSec))))))"

definition duration_flag :: "'f analytics_env \<Rightarrow> (string \<times> string) list \<Rightarrow> string \<Rightarrow> duration \<Rightarrow> duration" where
  "duration_flag ae vals name dflt =
     (case map_of (rev vals) name of None \<Rightarrow> dflt
      | Some v \<Rightarrow> (case ae_parse ae v of Inl e \<Rightarrow> dflt | Inr d \<Rightarrow> d))"

definition runAnalytics :: "config \<Rightarrow> 'f analytics_env \<Rightarrow> string list \<Rightarrow> db \<Rightarrow> ch_row list \<Rightarrow> outcome" where
  "runAnalytics cfg ae args db ch =
     fst (with_flags [(''report'', \<lambda>_. True), (''window'', \<lambda>v. \<not> isl (ae_parse ae v)), (''bucket'', \<lambda>v. \<not> isl (ae_parse ae v))] args (\<lambda>vals.
       let report = flag_value vals ''report'' '''';
           window = duration_flag ae vals ''window'' (word_of_int Hour);
           bucket = duration_flag ae vals ''bucket'' (word_of_int Minute)
       in (case connect_clickhouse cfg (ae_conn ae) of
             Inl e \<Rightarrow> exits 1 (''analytics: connecting to clickhouse: '' @ e)
           | Inr client \<Rightarrow>
               if report = ''arrivals'' then
                 arrivals_table (ae_rfc3339 ae) (ArrivalsVsCompletions (ae_ch ae) window bucket ch)
               else if report = ''duration'' then duration_table (ae_fixed ae) (DurationPercentiles (ae_ch ae) window ch)
               else if report = ''backlog'' then
                 backlog_table (ae_rfc3339 ae) (BacklogVsWorkers (ae_ch ae) window bucket ch)
               else if report = ''drain-time'' then drain_report cfg ae window db ch
               else exits 1 ''analytics: -report must be one of: arrivals, duration, backlog, drain-time'', ())) ())"

section \<open>work\<close>

definition newHandlerRegistry ::
  "(json_err \<Rightarrow> string) \<Rightarrow> (string \<Rightarrow> 'f option) \<Rightarrow> 'f \<Rightarrow> ('f \<Rightarrow> 'f \<Rightarrow> 'f) \<Rightarrow> config \<Rightarrow> 'f world registry" where
  "newHandlerRegistry text parse_float zero add cfg =
     Register ''sum_numbers'' (SumNumbersHandler zero add (Unmarshal_sumNumbers parse_float zero text))
       (Register ''write_file'' (WriteFileHandler (Unmarshal_writeFile text) (WriteFileDir cfg))
         (Register ''http_check'' (HTTPCheck (Unmarshal_httpCheck text)) NewRegistry))"

text \<open>What the worker process runs once it is up: the pool, the workers, the reaper, the shipper and tracing, and what it logged.\<close>

record work_plan =
  wp_pool :: int
  wp_workers :: "worker list"
  wp_reap_interval :: duration
  wp_shipper :: "(duration \<times> int) option"
  wp_tracing :: otel_globals
  wp_log :: "string list"

definition new_worker :: "config \<Rightarrow> nat \<Rightarrow> worker" where
  "new_worker cfg i = New (''worker-'' @ fmt_d (int i)) (LeaseDuration cfg) (PollInterval cfg)
     (MaxPollInterval cfg) (RetryBaseDelay cfg) (MaxRetryDelay cfg)"

text \<open>Tracing may fail to start: the process logs it and goes on without traces.\<close>

definition start_tracing :: "config \<Rightarrow> work_env \<Rightarrow> string \<Rightarrow> string list \<times> otel_globals" where
  "start_tracing cfg we service =
     (case Setup (we_exporter we) service (OTLPEndpoint cfg) otel_start of
        (Inl e, g) \<Rightarrow> ([''tracing setup failed, continuing without traces''], g)
      | (Inr shutdown, g) \<Rightarrow> ([], g))"

text \<open>
  The start of \<open>runServe\<close>, up to the moment its server listens, with what it has logged by then;
  theory Serve follows the server from there.
\<close>

definition runServe :: "config \<Rightarrow> work_env \<Rightarrow> (outcome + string list) \<times> otel_globals" where
  "runServe cfg we =
     (let (log, g) = start_tracing cfg we ''jobqueue-serve''
      in (case store_New (we_parse_config we) (we_pool_err we) (DatabaseURL cfg) (DBMaxConns cfg) of
            Inl e \<Rightarrow> Inl (logs 1 (log @ [''failed to connect to database'']))
          | Inr pool \<Rightarrow>
              (case we_ping_err we of
                 Some e \<Rightarrow> Inl (logs 1 (log @ [''database ping failed'']))
               | None \<Rightarrow>
                   (case we_listen_err we of
                      Some e \<Rightarrow> Inl (logs 1 (log @ [''failed to listen'']))
                    | None \<Rightarrow> Inr (log @ [''gRPC server listening'']))), g))"

text \<open>\<open>int32(*workerCount) + 4\<close> is computed in 32 bits.\<close>

definition work_conns :: "int \<Rightarrow> int" where
  "work_conns n = go_int32 (go_int32 n + 4)"

definition runWork :: "config \<Rightarrow> work_env \<Rightarrow> string list \<Rightarrow> outcome + work_plan" where
  "runWork cfg we args =
     (case parse_flags [(''workers'', \<lambda>v. ParseInt v \<noteq> None)] [] args of
        FlagsHelp \<Rightarrow> Inl (exits 0 ''usage'')
      | FlagsBad \<Rightarrow> Inl (exits 2 ''usage'')
      | FlagsOk vals \<Rightarrow>
          (let n = (case map_of (rev vals) ''workers'' of None \<Rightarrow> WorkerCount cfg
                    | Some v \<Rightarrow> (case ParseInt v of None \<Rightarrow> WorkerCount cfg | Some k \<Rightarrow> k))
           in if n \<le> 0 then Inl (exits 1 (''work: -workers must be positive, got '' @ fmt_d n))
              else
                (let (log, g) = start_tracing cfg we ''jobqueue-work''
                 in case store_New (we_parse_config we) (we_pool_err we) (DatabaseURL cfg) (work_conns n) of
                   Inl e \<Rightarrow> Inl (logs 1 (log @ [''failed to connect to database'']))
                 | Inr pool \<Rightarrow>
                     (case we_ping_err we of
                        Some e \<Rightarrow> Inl (logs 1 (log @ [''database ping failed'']))
                      | None \<Rightarrow>
                          (let (shipper, lost) = (case connect_clickhouse cfg we of
                                 Inl e \<Rightarrow> (None, [''clickhouse unreachable, running without event shipping''])
                               | Inr client \<Rightarrow> (Some (ShipInterval cfg, ShipBatchSize cfg), []))
                           in Inr \<lparr>wp_pool = pool, wp_workers = map (new_worker cfg) [0..<nat n],
                                wp_reap_interval = ReapInterval cfg, wp_shipper = shipper, wp_tracing = g,
                                wp_log = log @ [''metrics listening''] @ lost @ [''workers started'']\<rparr>)))))"

text \<open>The reaper's loop: done, or a tick before which other processes may have called the store.\<close>

datatype reap_tick = ReapDone | ReapTick "(pg_env \<times> store_call) list" pg_env

fun reap_loop :: "reap_tick list \<Rightarrow> db \<Rightarrow> loop_result \<times> string list \<times> db" where
  "reap_loop [] db = (LoopWaiting, [], db)"
| "reap_loop (ReapDone # ts) db = (LoopReturned, [], db)"
| "reap_loop (ReapTick cs env # ts) db =
     (case ReapExpiredLeases env (run_calls cs db) of
        (Inl e, db') \<Rightarrow> (let (r, log, db'') = reap_loop ts db' in (r, ''reap failed'' # log, db''))
      | (Inr (reclaimed, deadLettered), db') \<Rightarrow>
          (let (r, log, db'') = reap_loop ts db'
           in (r, if 0 < reclaimed then ''reaped expired leases'' # log else log, db'')))"

definition runReaper :: "duration \<Rightarrow> reap_tick list \<Rightarrow> db \<Rightarrow> loop_result \<times> string list \<times> db" where
  "runReaper interval ts db = (if interval \<le>s 0 then (LoopPanic, [], db) else reap_loop ts db)"

section \<open>main\<close>

datatype subcommand = CmdEnqueue | CmdStatus | CmdWatch | CmdServe | CmdWork | CmdDeadLetters | CmdAnalytics

text \<open>The checks of \<open>main\<close> before a subcommand runs: its arguments and the configuration.\<close>

definition main_dispatch :: "(string \<Rightarrow> string + duration) \<Rightarrow> environ \<Rightarrow> string list \<Rightarrow> outcome + subcommand \<times> config \<times> logger \<times> string list" where
  "main_dispatch parse env argv =
     (case argv of
        prog # cmd # args \<Rightarrow>
          (case Load parse env of
             Inl e \<Rightarrow> Inl (exits 1 (''config error: '' @ e))
           | Inr cfg \<Rightarrow>
               (let logger = logging_New (getEnv env ''LOG_LEVEL'' '''');
                    go = (\<lambda>c. Inr (c, cfg, logger, args))
                in if cmd = ''enqueue'' then go CmdEnqueue
                   else if cmd = ''status'' then go CmdStatus
                   else if cmd = ''watch'' then go CmdWatch
                   else if cmd = ''serve'' then go CmdServe
                   else if cmd = ''work'' then go CmdWork
                   else if cmd = ''dead-letters'' then go CmdDeadLetters
                   else if cmd = ''analytics'' then go CmdAnalytics
                   else Inl (exits 1 (''unknown subcommand '' @ fmt_q cmd))))
      | _ \<Rightarrow> Inl (exits 1 ''usage: jobqueue <serve|work|enqueue|status|watch|dead-letters|analytics> [flags]''))"


section \<open>The worker process\<close>

lemma runWork_Inr:
  assumes "runWork cfg we args = Inr plan"
  obtains n pool where "0 < n" "wp_workers plan = map (new_worker cfg) [0..<nat n]"
    "store_New (we_parse_config we) (we_pool_err we) (DatabaseURL cfg) (work_conns n) = Inr pool" "wp_pool plan = pool"
proof -
  from assms obtain vals where vals: "parse_flags [(''workers'', \<lambda>v. ParseInt v \<noteq> None)] [] args = FlagsOk vals"
    by (cases "parse_flags [(''workers'', \<lambda>v. ParseInt v \<noteq> None)] [] args") (auto simp: runWork_def)
  define n where "n = (case map_of (rev vals) ''workers'' of None \<Rightarrow> WorkerCount cfg
      | Some v \<Rightarrow> (case ParseInt v of None \<Rightarrow> WorkerCount cfg | Some k \<Rightarrow> k))"
  show thesis
  proof (rule that [of n "wp_pool plan"])
    show "0 < n" using assms vals by (cases "n \<le> 0") (auto simp: runWork_def n_def [symmetric] Let_def)
    with assms vals show "wp_workers plan = map (new_worker cfg) [0..<nat n]"
      "store_New (we_parse_config we) (we_pool_err we) (DatabaseURL cfg) (work_conns n) = Inr (wp_pool plan)"
      by (auto simp: runWork_def n_def [symmetric] Let_def split: sum.splits option.splits prod.splits)
  qed simp
qed

text \<open>
  The worker process is sized for its own demand: for every worker count the pool's 32-bit
  size can hold, it starts that many workers with distinct ids and the configured durations, over
  a pool with one connection for each worker, one for the reaper, one for the shipper and two to
  spare. A count that is not positive is refused.
\<close>

theorem work_plan_sizes:
  assumes "runWork cfg we args = Inr plan" "int (length (wp_workers plan)) \<le> 2 ^ 31 - 5"
  shows "wp_workers plan \<noteq> [] \<and> wp_pool plan = int (length (wp_workers plan)) + 4 \<and> distinct (map w_id (wp_workers plan)) \<and>
     list_all (\<lambda>w. w_leaseDuration w = LeaseDuration cfg \<and> w_pollInterval w = PollInterval cfg \<and>
       w_maxPollInterval w = MaxPollInterval cfg \<and> w_retryBaseDelay w = RetryBaseDelay cfg \<and>
       w_maxRetryDelay w = MaxRetryDelay cfg) (wp_workers plan)"
proof -
  from runWork_Inr [OF assms(1)] obtain n pool
    where n: "0 < n" "wp_workers plan = map (new_worker cfg) [0..<nat n]"
    and pool: "store_New (we_parse_config we) (we_pool_err we) (DatabaseURL cfg) (work_conns n) = Inr pool" "wp_pool plan = pool" .
  have "n \<le> 2 ^ 31 - 5" using assms(2) n by simp
  then have "work_conns n = n + 4"
    using n(1) by (simp add: work_conns_def go_int32_id int4_max_def)
  then have "wp_pool plan = int (length (wp_workers plan)) + 4"
    using pool n by (auto simp: store_New_def split: sum.splits option.splits)
  moreover have "distinct (map w_id (wp_workers plan))"
    by (auto simp: n(2) new_worker_def New_def distinct_map inj_on_def fmt_d_inject)
  ultimately show ?thesis using n(1) by (simp add: n(2) list_all_iff new_worker_def New_def)
qed

lemma reap_loop_result:
  "fst (reap_loop ts db) = (if ReapDone \<in> set ts then LoopReturned else LoopWaiting)"
  by (induction ts db rule: reap_loop.induct) (auto split: prod.splits sum.splits)

lemma wf_reap_loop: "wf_db db \<Longrightarrow> wf_db (snd (snd (reap_loop ts db)))"
proof (induction ts db rule: reap_loop.induct)
  case (3 cs env ts db)
  have "wf_db (snd (ReapExpiredLeases env (run_calls cs db)))"
    using "3.prems" by (intro wf_store_calls wf_run_calls)
  with 3 show ?case by (auto split: prod.splits sum.splits)
qed simp_all

text \<open>
  The reaper's loop ends only when its context is done, whatever the database answers, and keeps
  the database well-formed; an interval that is not positive makes it panic.
\<close>

theorem reaper_loop_result:
  assumes "wf_db db"
  shows "fst (runReaper interval ts db) =
     (if sint interval \<le> 0 then LoopPanic else if ReapDone \<in> set ts then LoopReturned else LoopWaiting) \<and>
     wf_db (snd (snd (runReaper interval ts db)))"
  using assms wf_reap_loop by (simp add: runReaper_def reap_loop_result word_sle_eq)

section \<open>A client's round trip\<close>

text \<open>
  C39. From the command line: when nothing fails, \<open>enqueue\<close> with a type and a valid payload exits with
  0 and prints the new job's id, and \<open>status\<close> for that id then prints the job as queued with no
  attempt made and an empty error.
\<close>

theorem cli_enqueue_then_status:
  assumes "wf_db db" "rpc_new_client re (GRPCAddr cfg) = None" "rpc_lost re = None" "rpc_lost_answer re = None"
    and "pg_fault (rpc_pg re) = NoFault" "pg_jsonb (rpc_pg re) payload \<noteq> None" "json_Valid payload"
    and "parse_flags [(''type'', \<lambda>_. True), (''payload'', \<lambda>_. True)] [] args = FlagsOk vals"
    and "flag_value vals ''type'' '''' = t" "t \<noteq> ''''" "flag_value vals ''payload'' ''{}'' = payload"
    and "parse_flags [(''id'', \<lambda>v. ParseInt v \<noteq> None)] [] args' = FlagsOk vals'"
    and "id_flag vals' = next_job_id db" "next_job_id db \<noteq> 0"
  shows "\<exists>db'. runEnqueue ot ctx cfg re args db =
       (prints [''enqueued job '' @ fmt_d (next_job_id db) @ '' (type='' @ t @ '')''], db') \<and>
     runStatus cfg re args' db' =
       (prints [''job '' @ fmt_d (next_job_id db) @ '': status=queued attempts=0/5 last_error='' @ fmt_q ''''], db')"
proof -
  let ?tc = "Inject ot (ot_start ot ctx ''submit'')"
  from assms(6) obtain p' where p': "pg_jsonb (rpc_pg re) payload = Some p'" by auto
  obtain db' where E: "Enqueue (rpc_pg re) t payload ?tc db = (Inr (next_job_id db), db')"
    using assms(5) p' by (simp add: Enqueue_def run_stmt_def enqueue_stmt_def Let_def new_job_row_def)
  then have rows: "jobs db' = jobs db @ [new_job_row (rpc_pg re) (next_job_id db) t p' ?tc]"
    using p' by (auto elim: enqueue_SuccessD)
  have "GetStatus (rpc_pg re) (next_job_id db) db' = Inr (to_snapshot (new_job_row (rpc_pg re) (next_job_id db) t p' ?tc))"
    using lookup_enqueued [OF assms(1) rows] assms(5) by (simp add: store_GetStatus_eq)
  then have S: "Server_GetStatus (rpc_pg re) (next_job_id db) db' =
      Inr \<lparr>u_id = next_job_id db, u_status = ''queued'', u_attempts = 0, u_max_attempts = 5, u_last_error = ''''\<rparr>"
    by (simp add: Server_GetStatus_def to_update_def to_snapshot_def new_job_row_def go_int32_id int4_max_def)
  have "runEnqueue ot ctx cfg re args db =
       (prints [''enqueued job '' @ fmt_d (next_job_id db) @ '' (type='' @ t @ '')''], db')"
    using assms(2-4,7-11) E by (simp add: runEnqueue_def with_flags_def dialClient_def rpc_call_def Server_Submit_def)
  moreover have "fmt_d 0 = ''0''" "fmt_d 5 = ''5''" by code_simp+
  then have "runStatus cfg re args' db' =
       (prints [''job '' @ fmt_d (next_job_id db) @ '': status=queued attempts=0/5 last_error='' @ fmt_q ''''], db')"
    using assms(2-4,12-14) S by (simp add: runStatus_def with_flags_def dialClient_def rpc_call_def printStatusUpdate_def)
  ultimately show ?thesis by blast
qed

section \<open>The hypotheses at a concrete command line\<close>

definition sample_rpc :: rpc_env where
  "sample_rpc = \<lparr>rpc_new_client = (\<lambda>_. None), rpc_lost = None, rpc_lost_answer = None, rpc_received = 0, rpc_text = (\<lambda>e. ''''), rpc_pg = sample_env 100\<rparr>"

definition sample_config :: config where
  "sample_config = default_config Map.empty"

definition sample_work :: work_env where
  "sample_work = \<lparr>we_parse_config = (\<lambda>s. Inr 4), we_pool_err = None, we_ping_err = None, we_ch_open = (\<lambda>_. None), we_ch_ping = (\<lambda>_. None), we_exporter = (\<lambda>_. None), we_listen_err = None\<rparr>"

theorem work_plan_sizes_witness:
  "\<exists>plan. runWork sample_config sample_work [''-workers=3''] = Inr plan \<and> wp_pool plan = 7 \<and>
     distinct (map w_id (wp_workers plan))"
proof -
  have "map_sum (\<lambda>_. ()) (\<lambda>plan. length (wp_workers plan)) (runWork sample_config sample_work [''-workers=3'']) = Inr 3"
    by code_simp
  then obtain plan where plan: "runWork sample_config sample_work [''-workers=3''] = Inr plan" "length (wp_workers plan) = 3"
    by (cases "runWork sample_config sample_work [''-workers=3'']") auto
  from work_plan_sizes [OF plan(1)] plan show ?thesis by (intro exI [of _ plan]) simp
qed

theorem cli_enqueue_then_status_witness:
  "\<exists>db'. runEnqueue sample_otel ''x'' sample_config sample_rpc [''-type=a'', ''--payload'', ''{}''] empty_db =
       (prints [''enqueued job '' @ fmt_d (next_job_id empty_db) @ '' (type='' @ ''a'' @ '')''], db') \<and>
     runStatus sample_config sample_rpc [''-id'', ''1''] db' =
       (prints [''job '' @ fmt_d (next_job_id empty_db) @ '': status=queued attempts=0/5 last_error='' @ fmt_q ''''], db')"
proof (rule cli_enqueue_then_status [where payload = "''{}''" and vals = "[(''type'', ''a''), (''payload'', ''{}'')]" and vals' = "[(''id'', ''1'')]"])
  show "parse_flags [(''type'', \<lambda>_. True), (''payload'', \<lambda>_. True)] [] [''-type=a'', ''--payload'', ''{}''] =
      FlagsOk [(''type'', ''a''), (''payload'', ''{}'')]"
    "parse_flags [(''id'', \<lambda>v. ParseInt v \<noteq> None)] [] [''-id'', ''1''] = FlagsOk [(''id'', ''1'')]"
    "id_flag [(''id'', ''1'')] = next_job_id empty_db"
    "flag_value [(''type'', ''a''), (''payload'', ''{}'')] ''type'' '''' = ''a''"
    "flag_value [(''type'', ''a''), (''payload'', ''{}'')] ''payload'' ''{}'' = ''{}''"
    "json_Valid ''{}''"
    by code_simp+
qed (simp_all add: wf_empty_db sample_rpc_def, simp_all add: sample_env_def empty_db_def)

end
