(* ===== verification/Serve.thy ===== *)
theory Serve
  imports Lifecycle Cli
begin

text \<open>
  The API process that \<open>runServe\<close> of cmd/jobqueue/main.go starts: the calls in progress, each a run
  of its handler in internal/grpcserver, interleaved with each other and with the rest of the
  deployment, from the first call to the exit after SIGINT or SIGTERM. Of the gRPC server the
  documented behaviour is used: \<open>GracefulStop\<close> refuses new calls and waits for the pending ones,
  and \<open>Serve\<close> then returns without an error.
\<close>

section \<open>Calls in progress\<close>

datatype 'ctx rpc = RpcSubmit 'ctx string string | RpcGetStatus int | RpcWatchStatus int

datatype answer =
    Submitted "rpc_err + int"
  | Status "rpc_err + status_update"
  | Stream "status_update list" "rpc_err option"

text \<open>
  A call: its request, the updates sent so far, whether its handler is in the \<open>select\<close> at the end
  of a turn, and the error of its context once the client has gone.
\<close>

record 'ctx in_progress =
  ip_id :: nat
  ip_rpc :: "'ctx rpc"
  ip_sent :: "status_update list"
  ip_paused :: bool
  ip_gone :: "string option"

record 'ctx serve_state =
  sv_db :: db
  sv_now :: int
  sv_others :: "(job \<times> int) list"
  sv_signalled :: bool
  sv_stopping :: bool
  sv_pending :: "'ctx in_progress list"
  sv_next :: nat
  sv_answers :: "(nat \<times> answer) list"
  sv_log :: "string list"
  sv_exit :: "outcome option"

definition start_serve :: "string list \<Rightarrow> sys \<Rightarrow> 'ctx serve_state" where
  "start_serve log sy = \<lparr>sv_db = sy_db sy, sv_now = sy_now sy, sv_others = sy_flight sy, sv_signalled = False,
     sv_stopping = False, sv_pending = [], sv_next = 0, sv_answers = [], sv_log = log, sv_exit = None\<rparr>"

datatype 'ctx serve_action =
    VSignal
  | VStop
  | VAccept "'ctx rpc"
  | VGone nat string
  | VTurn nat pg_env "string option"
  | VWake nat
  | VDone nat
  | VServeErr string
  | VReturn
  | VOther sys_action

definition new_call :: "'ctx rpc \<Rightarrow> nat \<Rightarrow> 'ctx in_progress" where
  "new_call rpc n = \<lparr>ip_id = n, ip_rpc = rpc, ip_sent = [], ip_paused = False, ip_gone = None\<rparr>"

definition answer_call :: "nat \<Rightarrow> answer \<Rightarrow> 'ctx serve_state \<Rightarrow> 'ctx serve_state" where
  "answer_call k a s = s\<lparr>sv_pending := remove_nth k (sv_pending s),
     sv_answers := (ip_id (sv_pending s ! k), a) # sv_answers s\<rparr>"

text \<open>A turn of a handler: all of \<open>Submit\<close> or \<open>GetStatus\<close>, or one turn of the loop of \<open>WatchStatus\<close>.\<close>

definition call_turn :: "'ctx otel \<Rightarrow> nat \<Rightarrow> pg_env \<Rightarrow> string option \<Rightarrow> 'ctx serve_state \<Rightarrow> 'ctx serve_state" where
  "call_turn ot k env send_err s =
     (let c = sv_pending s ! k; pg = env\<lparr>pg_now := sv_now s\<rparr>
      in case ip_rpc c of
           RpcSubmit ctx t p \<Rightarrow>
             (let (res, db') = Server_Submit ot pg ctx t p (sv_db s)
              in answer_call k (Submitted res) (s\<lparr>sv_db := db'\<rparr>))
         | RpcGetStatus i \<Rightarrow> answer_call k (Status (Server_GetStatus pg i (sv_db s))) s
         | RpcWatchStatus i \<Rightarrow>
             (let (res, us, db') = Server_WatchStatus i [\<lparr>wt_ctx_err = ip_gone c, wt_before = [], wt_pg = pg,
                    wt_send_err = send_err, wt_done = None\<rparr>] (sv_db s)
              in case res of
                   WatchEnd e \<Rightarrow> answer_call k (Stream (ip_sent c @ us) e) s
                 | Watching \<Rightarrow> s\<lparr>sv_pending := (sv_pending s)[k := c\<lparr>ip_sent := ip_sent c @ us, ip_paused := True\<rparr>]\<rparr>))"

fun serve_exec :: "bool \<Rightarrow> 'ctx otel \<Rightarrow> 'ctx serve_action \<Rightarrow> 'ctx serve_state \<Rightarrow> 'ctx serve_state option" where
  "serve_exec timely ot VSignal s = (if sv_exit s = None then Some (s\<lparr>sv_signalled := True\<rparr>) else None)"
| "serve_exec timely ot VStop s =
     (if sv_exit s = None \<and> sv_signalled s \<and> \<not> sv_stopping s
      then Some (s\<lparr>sv_stopping := True, sv_log := sv_log s @ [''shutting down gRPC server'']\<rparr>) else None)"
| "serve_exec timely ot (VAccept rpc) s =
     (if sv_exit s = None \<and> \<not> sv_stopping s
      then Some (s\<lparr>sv_pending := sv_pending s @ [new_call rpc (sv_next s)], sv_next := Suc (sv_next s)\<rparr>) else None)"
| "serve_exec timely ot (VGone k e) s =
     (if sv_exit s = None \<and> k < length (sv_pending s)
      then Some (s\<lparr>sv_pending := (sv_pending s)[k := (sv_pending s ! k)\<lparr>ip_gone := Some e\<rparr>]\<rparr>) else None)"
| "serve_exec timely ot (VTurn k env send_err) s =
     (if sv_exit s = None \<and> k < length (sv_pending s) \<and> \<not> ip_paused (sv_pending s ! k)
      then Some (call_turn ot k env send_err s) else None)"
| "serve_exec timely ot (VWake k) s =
     (if sv_exit s = None \<and> k < length (sv_pending s) \<and> ip_paused (sv_pending s ! k)
      then Some (s\<lparr>sv_pending := (sv_pending s)[k := (sv_pending s ! k)\<lparr>ip_paused := False\<rparr>]\<rparr>) else None)"
| "serve_exec timely ot (VDone k) s =
     (if sv_exit s = None \<and> k < length (sv_pending s) \<and> ip_paused (sv_pending s ! k)
      then case ip_gone (sv_pending s ! k) of
             None \<Rightarrow> None
           | Some e \<Rightarrow> Some (answer_call k (Stream (ip_sent (sv_pending s ! k)) (Some (CtxErr e))) s)
      else None)"
| "serve_exec timely ot (VServeErr e) s =
     (if sv_exit s = None \<and> \<not> sv_stopping s
      then Some (s\<lparr>sv_exit := Some (logs 1 (sv_log s @ [''gRPC server exited with error'']))\<rparr>) else None)"
| "serve_exec timely ot VReturn s =
     (if sv_exit s = None \<and> sv_stopping s \<and> sv_pending s = []
      then Some (s\<lparr>sv_exit := Some (logs 0 (sv_log s @ [''shutdown complete'']))\<rparr>) else None)"
| "serve_exec timely ot (VOther a) s =
     map_option (\<lambda>sy. s\<lparr>sv_db := sy_db sy, sv_now := sy_now sy, sv_others := sy_flight sy\<rparr>)
       (sys_exec timely a \<lparr>sy_db = sv_db s, sy_now = sv_now s, sy_flight = sv_others s\<rparr>)"

inductive serve_step :: "bool \<Rightarrow> 'ctx otel \<Rightarrow> 'ctx serve_state \<Rightarrow> 'ctx serve_state \<Rightarrow> bool" for timely ot where
  serve_act: "serve_exec timely ot a s = Some s' \<Longrightarrow> serve_step timely ot s s'"

inductive_cases serve_stepE: "serve_step timely ot s s'"

fun serve_run :: "bool \<Rightarrow> 'ctx otel \<Rightarrow> 'ctx serve_action list \<Rightarrow> 'ctx serve_state \<Rightarrow> 'ctx serve_state option" where
  "serve_run timely ot [] s = Some s"
| "serve_run timely ot (a # as) s =
     (case serve_exec timely ot a s of None \<Rightarrow> None | Some s' \<Rightarrow> serve_run timely ot as s')"

lemma serve_run_steps: "serve_run timely ot as s = Some s' \<Longrightarrow> (serve_step timely ot)\<^sup>*\<^sup>* s s'"
  by (induction as arbitrary: s) (auto intro: serve_act converse_rtranclp_into_rtranclp split: option.splits)

section \<open>The turn of a call\<close>

lemma answer_call_simps [simp]:
  "sv_db (answer_call k a s) = sv_db s" "sv_now (answer_call k a s) = sv_now s" "sv_others (answer_call k a s) = sv_others s"
  "sv_signalled (answer_call k a s) = sv_signalled s" "sv_stopping (answer_call k a s) = sv_stopping s"
  "sv_next (answer_call k a s) = sv_next s" "sv_log (answer_call k a s) = sv_log s" "sv_exit (answer_call k a s) = sv_exit s"
  "sv_pending (answer_call k a s) = remove_nth k (sv_pending s)"
  "sv_answers (answer_call k a s) = (ip_id (sv_pending s ! k), a) # sv_answers s"
  by (simp_all add: answer_call_def)

text \<open>A turn answers its call, or leaves the stream of a job that is not finished waiting.\<close>

lemma call_turn_cases:
  obtains (submit) ctx t p res db' where "ip_rpc (sv_pending s ! k) = RpcSubmit ctx t p"
      "Server_Submit ot (env\<lparr>pg_now := sv_now s\<rparr>) ctx t p (sv_db s) = (res, db')"
      "call_turn ot k env send_err s = answer_call k (Submitted res) (s\<lparr>sv_db := db'\<rparr>)"
    | (answered) a where "call_turn ot k env send_err s = answer_call k a s" "\<And>r. a \<noteq> Submitted r"
    | (waiting) i us r where "ip_rpc (sv_pending s ! k) = RpcWatchStatus i" "lookup_job i (sv_db s) = Some r" "\<not> terminal (r_status r)"
      "call_turn ot k env send_err s = s\<lparr>sv_pending := (sv_pending s)[k := (sv_pending s ! k)\<lparr>ip_sent := us, ip_paused := True\<rparr>]\<rparr>"
proof (cases "ip_rpc (sv_pending s ! k)")
  case (RpcSubmit ctx t p)
  then show ?thesis
    by (cases "Server_Submit ot (env\<lparr>pg_now := sv_now s\<rparr>) ctx t p (sv_db s)") (auto intro: submit simp: call_turn_def)
next
  case (RpcGetStatus i)
  then show ?thesis by (intro answered) (auto simp: call_turn_def)
next
  case (RpcWatchStatus i)
  let ?t = "\<lparr>wt_ctx_err = ip_gone (sv_pending s ! k), wt_before = [], wt_pg = env\<lparr>pg_now := sv_now s\<rparr>,
    wt_send_err = send_err, wt_done = None\<rparr>"
  obtain res us db' where W: "Server_WatchStatus i [?t] (sv_db s) = (res, us, db')" by (cases "Server_WatchStatus i [?t] (sv_db s)")
  show ?thesis
  proof (cases res)
    case (WatchEnd e)
    with W RpcWatchStatus show ?thesis by (intro answered) (auto simp: call_turn_def Let_def)
  next
    case Watching
    then obtain snap where "GetStatus (env\<lparr>pg_now := sv_now s\<rparr>) i (sv_db s) = Inr snap" "\<not> terminal (s_status snap)"
      using W by (auto simp: Let_def split: option.splits sum.splits if_splits)
    then obtain r where "lookup_job i (sv_db s) = Some r" "\<not> terminal (r_status r)"
      using GetStatus_InrD by (fastforce simp: to_snapshot_def)
    with RpcWatchStatus W Watching show ?thesis by (intro waiting) (auto simp: call_turn_def Let_def)
  qed
qed

section \<open>The API process refines the queue\<close>

definition sys_of :: "'ctx serve_state \<Rightarrow> sys" where
  "sys_of s = \<lparr>sy_db = sv_db s, sy_now = sv_now s, sy_flight = sv_others s\<rparr>"

lemma submit_db: "snd (Server_Submit ot env ctx t p db) = snd (Enqueue env t p (Inject ot (ot_start ot ctx ''submit'')) db)"
  by (simp add: Server_Submit_def Let_def split: prod.splits sum.splits)

lemma serve_exec_simulated:
  assumes "serve_exec timely ot a s = Some s'"
  shows "(sys_step timely)\<^sup>=\<^sup>= (sys_of s) (sys_of s')"
proof (cases a)
  case (VTurn k env send_err)
  then have s': "s' = call_turn ot k env send_err s" using assms by (simp split: if_splits)
  show ?thesis
  proof (cases rule: call_turn_cases [where s = s and k = k and ot = ot and env = env and send_err = send_err])
    case (submit ctx t p res db')
    then have "sys_of s' = (sys_of s)\<lparr>sy_db := snd (Enqueue (env\<lparr>pg_now := sv_now s\<rparr>) t p (Inject ot (ot_start ot ctx ''submit'')) (sv_db s))\<rparr>"
      using submit_db [of ot "env\<lparr>pg_now := sv_now s\<rparr>" ctx t p "sv_db s"] by (simp add: s' sys_of_def)
    then show ?thesis
      using sys_act [of timely "ASubmit env t p (Inject ot (ot_start ot ctx ''submit''))" "sys_of s"] by (simp add: sys_of_def)
  qed (simp_all add: s' sys_of_def)
next
  case (VOther b)
  with assms have "sys_exec timely b (sys_of s) = Some (sys_of s')" by (auto simp: sys_of_def)
  then show ?thesis by (simp add: sys_act)
qed (use assms in \<open>auto simp: sys_of_def split: if_splits option.splits\<close>)

lemma serve_simulated: "(serve_step timely ot)\<^sup>*\<^sup>* s s' \<Longrightarrow> (sys_step timely)\<^sup>*\<^sup>* (sys_of s) (sys_of s')"
proof (induction rule: rtranclp_induct)
  case (step s1 s2)
  from step(2) obtain a where "serve_exec timely ot a s1 = Some s2" by (rule serve_stepE)
  from serve_exec_simulated [OF this] step(3) show ?case by (auto intro: rtranclp.rtrancl_into_rtrancl)
qed simp

lemma sys_of_start [simp]: "sys_of (start_serve log sy) = sy"
  by (simp add: sys_of_def start_serve_def)


section \<open>Every call is answered\<close>

lemma stored_submit:
  assumes "Server_Submit ot env ctx t p db = (Inr i, db')"
  shows "\<exists>r. lookup_job i db' = Some r"
proof -
  have "Enqueue env t p (Inject ot (ot_start ot ctx ''submit'')) db = (Inr i, db')"
    using assms by (auto simp: Server_Submit_def Let_def split: prod.splits sum.splits)
  then obtain p' tc where "jobs db' = jobs db @ [new_job_row env i t p' tc]" by (rule enqueue_SuccessD)
  then show ?thesis by (auto simp: lookup_job_def find_append new_job_row_def split: option.splits)
qed

lemma enqueue_keeps_jobs: "r_id ` set (jobs db) \<subseteq> r_id ` set (jobs (snd (Enqueue env t p c db)))"
  unfolding Enqueue_def
  by (rule run_stmt_cases [where P = "\<lambda>db'. r_id ` set (jobs db) \<subseteq> r_id ` set (jobs db')"])
     (auto simp: enqueue_stmt_def Let_def split: option.splits)

lemma sys_step_keeps_jobs:
  assumes "sys_step timely s s'"
  shows "r_id ` set (jobs (sy_db s)) \<subseteq> r_id ` set (jobs (sy_db s'))"
proof -
  from assms obtain a where a: "sys_exec timely a s = Some s'" by (rule sys_stepE)
  show ?thesis
  proof (cases "is_submit a")
    case True
    then obtain env t p c where "a = ASubmit env t p c" by (cases a) auto
    with a show ?thesis by (auto intro!: subsetD [OF enqueue_keeps_jobs])
  next
    case False
    with exec_advances [OF a] advances_ids have "map r_id (jobs (sy_db s')) = map r_id (jobs (sy_db s))" by blast
    then show ?thesis by (metis order_refl set_map)
  qed
qed

lemma mset_remove_key:
  "k < length xs \<Longrightarrow> image_mset f (mset xs) = add_mset (f (xs ! k)) (image_mset f (mset (remove_nth k xs)))"
  by (subst id_take_nth_drop [of k xs]) (simp_all add: remove_nth_def)

definition accounted :: "'ctx serve_state \<Rightarrow> bool" where
  "accounted s \<longleftrightarrow> mset (map fst (sv_answers s)) + mset (map ip_id (sv_pending s)) = mset [0..<sv_next s] \<and>
     (\<forall>n i. (n, Submitted (Inr i)) \<in> set (sv_answers s) \<longrightarrow> i \<in> r_id ` set (jobs (sv_db s))) \<and>
     (case sv_exit s of None \<Rightarrow> True | Some out \<Rightarrow> out_code out = 0 \<longrightarrow> sv_pending s = [])"

lemma answer_accounted:
  assumes "accounted s" "k < length (sv_pending s)" "\<And>r. a \<noteq> Submitted r" "sv_exit s = None"
  shows "accounted (answer_call k a s)"
  using assms by (auto simp: accounted_def mset_remove_key [OF assms(2)])

lemma update_accounted:
  assumes "accounted s" "k < length (sv_pending s)" "ip_id c = ip_id (sv_pending s ! k)" "sv_exit s = None"
  shows "accounted (s\<lparr>sv_pending := (sv_pending s)[k := c]\<rparr>)"
proof -
  have "map ip_id ((sv_pending s)[k := c]) = map ip_id (sv_pending s)"
    using assms(2,3) by (metis list_update_id map_update nth_map)
  with assms(1,4) show ?thesis by (simp add: accounted_def)
qed

lemma turn_accounted:
  assumes "accounted s" "k < length (sv_pending s)" "sv_exit s = None"
  shows "accounted (call_turn ot k env send_err s)"
proof (cases rule: call_turn_cases [where s = s and k = k and ot = ot and env = env and send_err = send_err])
  case (submit ctx t p res db')
  have "r_id ` set (jobs (sv_db s)) \<subseteq> r_id ` set (jobs db')"
    using enqueue_keeps_jobs [of "sv_db s"] submit_db [of ot "env\<lparr>pg_now := sv_now s\<rparr>" ctx t p "sv_db s"] submit(2) by simp
  moreover have "i \<in> r_id ` set (jobs db')" if "res = Inr i" for i
    using stored_submit [of ot _ ctx t p "sv_db s" i db'] submit(2) that lookup_job_id by blast
  ultimately show ?thesis
    using assms(1,3) submit(3) by (auto simp: accounted_def mset_remove_key [OF assms(2)])
next
  case (answered a)
  with answer_accounted [OF assms(1,2) answered(2) assms(3)] show ?thesis by simp
next
  case (waiting i us r)
  then show ?thesis by (simp add: update_accounted assms)
qed

lemma serve_exec_accounted:
  assumes "serve_exec timely ot a s = Some s'" "accounted s"
  shows "accounted s'"
proof (cases a)
  case (VOther b)
  then have b: "sys_exec timely b (sys_of s) = Some (sys_of s')" and same: "sv_answers s' = sv_answers s"
    "sv_pending s' = sv_pending s" "sv_next s' = sv_next s" "sv_exit s' = sv_exit s"
    using assms(1) by (auto simp: sys_of_def)
  have "r_id ` set (jobs (sv_db s)) \<subseteq> r_id ` set (jobs (sv_db s'))"
    using sys_step_keeps_jobs [OF sys_act [OF b]] by (simp add: sys_of_def)
  then show ?thesis using assms(2) by (auto simp: accounted_def same split: option.splits)
qed (use assms in \<open>auto simp: turn_accounted update_accounted answer_accounted split: if_splits option.splits\<close>,
     auto simp: accounted_def new_call_def logs_def)

interpretation serve_books: step_invariant "serve_step timely ot" accounted for timely ot
  by unfold_locales (auto elim: serve_stepE intro: serve_exec_accounted)

lemma accounted_start: "accounted (start_serve log sy)"
  by (simp add: accounted_def start_serve_def)

text \<open>What the process has logged, and the outcome it exits with.\<close>

definition exit_form :: "string list \<Rightarrow> 'ctx serve_state \<Rightarrow> bool" where
  "exit_form log s \<longleftrightarrow> sv_log s = log @ (if sv_stopping s then [''shutting down gRPC server''] else []) \<and>
     sv_exit s \<in> {None, Some (logs 1 (log @ [''gRPC server exited with error''])),
       Some (logs 0 (log @ [''shutting down gRPC server'', ''shutdown complete'']))}"

lemma turn_frame [simp]:
  "sv_log (call_turn ot k env e s) = sv_log s" "sv_stopping (call_turn ot k env e s) = sv_stopping s"
  "sv_exit (call_turn ot k env e s) = sv_exit s"
  by (rule call_turn_cases [where s = s and k = k and ot = ot and env = env and send_err = e], simp_all)+

lemma serve_exec_form: "serve_exec timely ot a s = Some s' \<Longrightarrow> exit_form log s \<Longrightarrow> exit_form log s'"
  by (cases a) (auto simp: exit_form_def split: if_splits option.splits)

interpretation serve_form: step_invariant "serve_step timely ot" "exit_form log" for timely ot log
  by unfold_locales (auto elim: serve_stepE intro: serve_exec_form)

lemma exit_form_start: "exit_form log (start_serve log sy)"
  by (simp add: exit_form_def start_serve_def)

text \<open>
  C11. A graceful shutdown of the API loses no call: when the process has exited with code 0, every
  call it ever accepted has been answered, each exactly once, every job id it acknowledged is a
  job of the table, and its log ends with the two messages of the shutdown.
\<close>

theorem serve_exit_answers_calls:
  assumes "(serve_step timely ot)\<^sup>*\<^sup>* (start_serve log sy) s" "sv_exit s = Some out" "out_code out = 0"
  shows "mset (map fst (sv_answers s)) = mset [0..<sv_next s] \<and>
     (\<forall>n i. (n, Submitted (Inr i)) \<in> set (sv_answers s) \<longrightarrow> i \<in> r_id ` set (jobs (sv_db s))) \<and>
     out = logs 0 (log @ [''shutting down gRPC server'', ''shutdown complete''])"
  using serve_books.reachable_inv [OF assms(1) accounted_start]
    serve_form.reachable_inv [OF assms(1) exit_form_start] assms(2,3)
  by (auto simp: accounted_def exit_form_def) (auto simp: logs_def)

section \<open>The shutdown ends\<close>

fun own_move :: "'ctx serve_action \<Rightarrow> bool" where
  "own_move (VTurn k env e) = True"
| "own_move (VWake k) = True"
| "own_move (VDone k) = True"
| "own_move VReturn = True"
| "own_move _ = False"

text \<open>Every watched job is finished.\<close>

definition watch_settled :: "db \<Rightarrow> 'ctx in_progress \<Rightarrow> bool" where
  "watch_settled db c = (case ip_rpc c of
     RpcWatchStatus i \<Rightarrow> (case lookup_job i db of None \<Rightarrow> False | Some r \<Rightarrow> terminal (r_status r)) | _ \<Rightarrow> True)"

lemma watch_settled_frame [simp]: "watch_settled db (c\<lparr>ip_paused := b\<rparr>) = watch_settled db c"
  by (simp add: watch_settled_def)

definition work_left :: "'ctx in_progress list \<Rightarrow> nat" where
  "work_left cs = sum_list (map (\<lambda>c. if ip_paused c then 2 else 1) cs)"

lemma work_left_remove: "k < length cs \<Longrightarrow> work_left (remove_nth k cs) < work_left cs"
proof -
  assume k: "k < length cs"
  have "work_left cs = work_left (remove_nth k cs) + (if ip_paused (cs ! k) then 2 else 1)"
    by (subst id_take_nth_drop [OF k]) (simp add: work_left_def remove_nth_def)
  then show ?thesis by simp
qed

lemma work_left_wake:
  "k < length cs \<Longrightarrow> ip_paused (cs ! k) \<Longrightarrow> work_left (cs[k := (cs ! k)\<lparr>ip_paused := False\<rparr>]) < work_left cs"
proof -
  assume k: "k < length cs" "ip_paused (cs ! k)"
  have "work_left (cs[k := (cs ! k)\<lparr>ip_paused := False\<rparr>]) = work_left (take k cs) + 1 + work_left (drop (Suc k) cs)"
    using k(1) by (simp add: upd_conv_take_nth_drop work_left_def)
  moreover have "work_left cs = work_left (take k cs) + 2 + work_left (drop (Suc k) cs)"
    by (subst id_take_nth_drop [OF k(1)]) (simp add: work_left_def k(2))
  ultimately show ?thesis by simp
qed

lemma work_left_bound: "work_left cs \<le> 2 * length cs"
  by (induction cs) (auto simp: work_left_def)

lemma lookup_enqueue: "lookup_job i db = Some r \<Longrightarrow> lookup_job i (snd (Enqueue env t p c db)) = Some r"
  unfolding Enqueue_def
  by (rule run_stmt_cases [where P = "\<lambda>db'. lookup_job i db' = Some r"])
     (auto simp: enqueue_stmt_def Let_def lookup_job_def find_append split: option.splits)

lemma submit_lookup:
  assumes "Server_Submit ot env ctx t p db = (res, db')" "lookup_job i db = Some r"
  shows "lookup_job i db' = Some r"
  using lookup_enqueue [OF assms(2), of env t p "Inject ot (ot_start ot ctx ''submit'')"] submit_db [of ot env ctx t p db] assms(1)
  by simp

lemma own_move_progress:
  assumes "serve_exec timely ot a s = Some s'" "own_move a" "sv_stopping s" "list_all (watch_settled (sv_db s)) (sv_pending s)"
  shows "sv_stopping s' \<and> sv_log s' = sv_log s \<and> list_all (watch_settled (sv_db s')) (sv_pending s') \<and>
     (sv_exit s' = None \<and> work_left (sv_pending s') < work_left (sv_pending s) \<or>
      sv_exit s' = Some (logs 0 (sv_log s @ [''shutdown complete''])) \<and> a = VReturn)"
proof (cases a)
  case (VTurn k env e)
  then have s': "s' = call_turn ot k env e s" and k: "k < length (sv_pending s)" "sv_exit s = None"
    using assms(1) by (auto split: if_splits)
  note less = work_left_remove [OF k(1)] and sub = set_remove_nth [of k "sv_pending s"]
  show ?thesis
  proof (cases rule: call_turn_cases [where s = s and k = k and ot = ot and env = env and send_err = e])
    case (submit ctx t p res db')
    have "watch_settled db' c" if "watch_settled (sv_db s) c" for c
      using that submit_lookup [OF submit(2)] by (auto simp: watch_settled_def split: rpc.splits option.splits)
    then show ?thesis using assms(3,4) submit(3) less sub k(2) by (auto simp: s' list_all_iff)
  next
    case (answered x)
    then show ?thesis using assms(3,4) less sub k(2) by (auto simp: s' list_all_iff)
  next
    case (waiting i us r)
    moreover have "watch_settled (sv_db s) (sv_pending s ! k)" using assms(4) k(1) by (simp add: list_all_length)
    ultimately show ?thesis by (simp add: watch_settled_def)
  qed
next
  case (VWake k)
  then show ?thesis
    using assms work_left_wake [of k "sv_pending s"]
    by (auto simp: list_all_length nth_list_update split: if_splits)
next
  case (VDone k)
  then show ?thesis
    using assms work_left_remove [of k "sv_pending s"] set_remove_nth [of k "sv_pending s"]
    by (auto simp: list_all_iff split: if_splits option.splits)
qed (use assms in \<open>auto split: if_splits\<close>)

lemma own_move_possible:
  assumes "sv_stopping s" "sv_exit s = None"
  shows "\<exists>a. own_move a \<and> serve_exec timely ot a s \<noteq> None"
proof (cases "sv_pending s")
  case Nil
  with assms show ?thesis by (intro exI [of _ VReturn]) simp
next
  case (Cons c cs)
  show ?thesis
  proof (cases "ip_paused c")
    case True
    with assms Cons show ?thesis by (intro exI [of _ "VWake 0"]) simp
  next
    case False
    with assms Cons show ?thesis by (intro exI [of _ "VTurn 0 (sample_env 0) None"]) simp
  qed
qed

lemma exited_stuck: "sv_exit s \<noteq> None \<Longrightarrow> own_move a \<Longrightarrow> serve_exec timely ot a s = None"
  by (cases a) auto

text \<open>
  C12. The shutdown of the API ends: once it has stopped accepting calls and every job a stream still
  watches is finished, every schedule of its handlers has at most two steps for each pending call
  and one more, and can be continued until the process exits with code 0.
\<close>

theorem serve_shutdown_terminates:
  assumes "sv_stopping s" "sv_exit s = None" "list_all (watch_settled (sv_db s)) (sv_pending s)"
    and "serve_run timely ot as s = Some s'" "list_all own_move as"
  shows "length as \<le> 2 * length (sv_pending s) + 1 \<and>
     (sv_exit s' = Some (logs 0 (sv_log s @ [''shutdown complete''])) \<or>
      (\<exists>a. own_move a \<and> serve_exec timely ot a s' \<noteq> None))"
proof -
  have "length as \<le> work_left (sv_pending s) + 1 \<and>
     (sv_exit s' = Some (logs 0 (sv_log s @ [''shutdown complete''])) \<or> (\<exists>a. own_move a \<and> serve_exec timely ot a s' \<noteq> None))"
    using assms
  proof (induction as arbitrary: s)
    case Nil
    then show ?case using own_move_possible [of s timely ot] by simp
  next
    case (Cons a as)
    then obtain s1 where s1: "serve_exec timely ot a s = Some s1" "serve_run timely ot as s1 = Some s'"
      by (auto split: option.splits)
    have a: "own_move a" using Cons.prems(5) by simp
    from own_move_progress [OF s1(1) a Cons.prems(1,3)] show ?case
    proof (elim conjE disjE)
      assume "sv_stopping s1" "sv_exit s1 = None" "list_all (watch_settled (sv_db s1)) (sv_pending s1)"
        and log: "sv_log s1 = sv_log s" and less: "work_left (sv_pending s1) < work_left (sv_pending s)"
      from Cons.IH [OF this(1-3) s1(2)] Cons.prems(5) log less show ?thesis by auto
    next
      assume exit: "sv_exit s1 = Some (logs 0 (sv_log s @ [''shutdown complete'']))"
      have "as = []"
      proof (cases as)
        case (Cons b bs)
        then show ?thesis using s1(2) exited_stuck [of s1 b timely ot] exit Cons.prems by (auto split: option.splits)
      qed
      with s1(2) exit show ?thesis by simp
    qed
  qed
  with work_left_bound [of "sv_pending s"] show ?thesis by auto
qed

section \<open>What a stream can hold up\<close>

text \<open>Time passes and the process goes on undisturbed: no client leaves, and its reads and sends succeed.\<close>

fun calm :: "'ctx serve_action \<Rightarrow> bool" where
  "calm (VTurn k env e) = (pg_fault env = NoFault \<and> e = None)"
| "calm (VGone k e) = False"
| "calm (VServeErr e) = False"
| "calm (VOther (ATick d)) = True"
| "calm (VOther a) = False"
| "calm _ = True"

definition watches :: "int \<Rightarrow> 'ctx in_progress \<Rightarrow> bool" where
  "watches i c \<longleftrightarrow> ip_rpc c = RpcWatchStatus i \<and> ip_gone c = None"

lemma watches_frame [simp]:
  "watches i (c\<lparr>ip_paused := b\<rparr>) = watches i c" "watches i (c\<lparr>ip_sent := us\<rparr>) = watches i c"
  by (simp_all add: watches_def)

definition held_up :: "int \<Rightarrow> 'ctx serve_state \<Rightarrow> bool" where
  "held_up i s \<longleftrightarrow> sv_exit s = None \<and> list_ex (watches i) (sv_pending s) \<and>
     (case lookup_job i (sv_db s) of None \<Rightarrow> False | Some r \<Rightarrow> \<not> terminal (r_status r))"

lemma list_ex_remove_nth:
  assumes "list_ex p xs" "k < length xs" "\<not> p (xs ! k)"
  shows "list_ex p (remove_nth k xs)"
proof -
  have "list_ex p (take k xs @ xs ! k # drop (Suc k) xs)" using assms(1,2) by (simp flip: id_take_nth_drop)
  with assms(3) show ?thesis by (simp add: remove_nth_def)
qed

lemma list_ex_update: "list_ex p xs \<Longrightarrow> k < length xs \<Longrightarrow> p x = p (xs ! k) \<Longrightarrow> list_ex p (xs[k := x])"
  by (auto simp: list_ex_length nth_list_update)

lemma watching_turn:
  assumes "watches i (sv_pending s ! k)" "lookup_job i (sv_db s) = Some r" "\<not> terminal (r_status r)" "pg_fault env = NoFault"
  shows "\<exists>us. call_turn ot k env None s = s\<lparr>sv_pending := (sv_pending s)[k := (sv_pending s ! k)\<lparr>ip_sent := us, ip_paused := True\<rparr>]\<rparr>"
  using assms by (auto simp: watches_def call_turn_def Let_def store_GetStatus_eq to_snapshot_def)

lemma calm_held_up:
  assumes "serve_exec timely ot a s = Some s'" "calm a" "held_up i s"
  shows "held_up i s'"
proof -
  from assms(3) obtain r where up: "sv_exit s = None" "list_ex (watches i) (sv_pending s)"
    "lookup_job i (sv_db s) = Some r" "\<not> terminal (r_status r)" by (auto simp: held_up_def split: option.splits)
  show ?thesis
  proof (cases a)
    case (VTurn k env e)
    then have s': "s' = call_turn ot k env None s" and k: "k < length (sv_pending s)" "pg_fault env = NoFault"
      using assms(1,2) by (auto split: if_splits)
    show ?thesis
    proof (cases "watches i (sv_pending s ! k)")
      case True
      from watching_turn [OF True up(3,4) k(2), of ot] obtain us where
        "s' = s\<lparr>sv_pending := (sv_pending s)[k := (sv_pending s ! k)\<lparr>ip_sent := us, ip_paused := True\<rparr>]\<rparr>"
        unfolding s' ..
      with up k(1) show ?thesis by (auto simp: held_up_def intro!: list_ex_update)
    next
      case False
      note rest = list_ex_remove_nth [OF up(2) k(1) False]
      show ?thesis
      proof (cases rule: call_turn_cases [where s = s and k = k and ot = ot and env = env and send_err = None])
        case (submit ctx t p res db')
        with rest up submit_lookup [OF submit(2) up(3)] show ?thesis by (simp add: s' held_up_def)
      next
        case (answered x)
        with rest up show ?thesis by (simp add: s' held_up_def)
      next
        case (waiting n us q)
        with up k(1) show ?thesis by (auto simp: s' held_up_def intro!: list_ex_update)
      qed
    qed
  next
    case (VWake k)
    with assms(1) up show ?thesis by (auto simp: held_up_def intro!: list_ex_update split: if_splits)
  next
    case (VDone k)
    with assms(1) up show ?thesis
      by (auto simp: held_up_def watches_def intro!: list_ex_remove_nth split: if_splits option.splits)
  next
    case (VOther b)
    with assms(1,2) up show ?thesis by (cases b) (auto simp: held_up_def)
  qed (use assms(1,2) up in \<open>auto simp: held_up_def split: if_splits\<close>)
qed

text \<open>
  C24. A stream can hold up the shutdown for ever: while a client watches a job that is not finished,
  no schedule of the handlers, however long and after whatever signal, makes the process exit.
  \<open>GracefulStop\<close> does not end the contexts of the streams, and \<open>WatchStatus\<close> looks at nothing else,
  so with no worker left to finish the job only the client, or a kill, can end the process.
\<close>

theorem watch_holds_up_shutdown:
  assumes "held_up i s" "serve_run timely ot as s = Some s'" "list_all calm as"
  shows "held_up i s' \<and> sv_exit s' = None"
proof -
  have "held_up i s'" using assms
    by (induction as arbitrary: s) (auto split: option.splits dest: calm_held_up)
  then show ?thesis by (simp add: held_up_def)
qed

section \<open>The hypotheses at a concrete run\<close>

text \<open>A client submits a job and another one watches it; the signal arrives.\<close>

definition serve_trace :: "string serve_action list" where
  "serve_trace = [VAccept (RpcSubmit ''x'' ''a'' ''{}''), VTurn 0 (sample_env 0) None, VAccept (RpcWatchStatus 1),
     VTurn 0 (sample_env 0) None, VSignal, VStop]"

definition serve_at :: "string serve_action list \<Rightarrow> string serve_state" where
  "serve_at as = (case serve_run False sample_otel as (start_serve [''gRPC server listening''] sys_init) of
     None \<Rightarrow> start_serve [] sys_init | Some s \<Rightarrow> s)"

text \<open>A worker claims and completes the job; the stream ends with it, and so does the process.\<close>

definition finish_trace :: "string serve_action list" where
  "finish_trace = [VOther (AClaim (sample_env 0) ''w'' sample_lease), VOther (AReport 0 sample_worker HNil (sample_proc 0))]"

definition exit_trace :: "string serve_action list" where
  "exit_trace = [VWake 0, VTurn 0 (sample_env 0) None, VReturn]"

lemma serve_runs:
  assumes "serve_run False sample_otel as (start_serve [''gRPC server listening''] sys_init) \<noteq> None"
  shows "(serve_step False sample_otel)\<^sup>*\<^sup>* (start_serve [''gRPC server listening''] sys_init) (serve_at as)"
  using assms serve_run_steps by (auto simp: serve_at_def)

lemma serve_evaluates:
  "serve_run False sample_otel (serve_trace @ finish_trace @ exit_trace) (start_serve [''gRPC server listening''] sys_init) \<noteq> None"
  "map_option out_code (sv_exit (serve_at (serve_trace @ finish_trace @ exit_trace))) = Some 0"
  by code_simp+

theorem serve_exit_answers_calls_witness:
  "mset (map fst (sv_answers (serve_at (serve_trace @ finish_trace @ exit_trace)))) = {#0, 1#} \<and>
   sv_exit (serve_at (serve_trace @ finish_trace @ exit_trace)) =
     Some (logs 0 [''gRPC server listening'', ''shutting down gRPC server'', ''shutdown complete''])"
proof -
  from serve_evaluates(2) obtain out where out: "sv_exit (serve_at (serve_trace @ finish_trace @ exit_trace)) = Some out" "out_code out = 0"
    by auto
  have "sv_next (serve_at (serve_trace @ finish_trace @ exit_trace)) = 2" by code_simp
  with serve_exit_answers_calls [OF serve_runs [OF serve_evaluates(1)] out] out(1) show ?thesis
    by (simp add: numeral_2_eq_2)
qed

theorem serve_shutdown_terminates_witness:
  "length exit_trace \<le> 2 * length (sv_pending (serve_at (serve_trace @ finish_trace))) + 1"
proof -
  have "sv_stopping (serve_at (serve_trace @ finish_trace))" "sv_exit (serve_at (serve_trace @ finish_trace)) = None"
    "list_all (watch_settled (sv_db (serve_at (serve_trace @ finish_trace)))) (sv_pending (serve_at (serve_trace @ finish_trace)))"
    "serve_run False sample_otel exit_trace (serve_at (serve_trace @ finish_trace)) \<noteq> None"
    by code_simp+
  moreover have "list_all own_move exit_trace" by (simp add: exit_trace_def)
  ultimately show ?thesis using serve_shutdown_terminates by blast
qed

definition idle_trace :: "string serve_action list" where
  "idle_trace = concat (replicate 5 [VWake 0, VOther (ATick 500000), VTurn 0 (sample_env 0) None])"

theorem watch_holds_up_shutdown_witness:
  "\<exists>s'. serve_run False sample_otel idle_trace (serve_at serve_trace) = Some s' \<and> sv_exit s' = None"
proof -
  have "held_up 1 (serve_at serve_trace)" by code_simp
  moreover have "serve_run False sample_otel idle_trace (serve_at serve_trace) \<noteq> None" by code_simp
  moreover have "list_all calm idle_trace" by code_simp
  ultimately show ?thesis using watch_holds_up_shutdown by blast
qed


end
