(* ===== verification/Process.thy ===== *)
theory Process
  imports System Cli "HOL-Library.Multiset"
begin

text \<open>
  The worker process that \<open>runWork\<close> of cmd/jobqueue/main.go starts: its workers, the reaper and the
  shipper as goroutines of one errgroup, interleaved with each other and with the rest of the
  deployment (clients, other worker processes, the clock), from start-up to the exit after SIGINT or
  SIGTERM. The claim and the report of a worker are steps of their own, so that anything may happen
  while a handler runs.
\<close>

section \<open>Goroutines\<close>

text \<open>
  Where a worker's \<open>Run\<close> stands: at the head of its loop, in the wait of an idle turn, running the
  handler of a job (with the end of its lease, which only the specification uses), or ended.
\<close>

datatype wphase = WPoll duration | WWait duration | WBusy job int | WReturned | WPanicked

datatype gphase = GRunning | GReturned | GPanicked

record 'w pstate =
  ps_ws :: "'w wstate"
  ps_ch :: "ch_row list"
  ps_now :: int
  ps_cancelled :: bool
  ps_workers :: "wphase list"
  ps_reaper :: gphase
  ps_shipper :: gphase
  ps_others :: "(job \<times> int) list"
  ps_claimed :: "(int \<times> int) list"
  ps_reported :: "(int \<times> int) list"

text \<open>\<open>time.NewTicker\<close> panics unless its interval is positive; without ClickHouse there is no shipper.\<close>

definition start_ticker :: "duration \<Rightarrow> gphase" where
  "start_ticker interval = (if interval \<le>s 0 then GPanicked else GRunning)"

definition start_process :: "work_plan \<Rightarrow> 'w \<Rightarrow> sys \<Rightarrow> ch_row list \<Rightarrow> 'w pstate" where
  "start_process plan wd sy ch =
     \<lparr>ps_ws = \<lparr>ws_db = sy_db sy, ws_metrics = new_metrics, ws_spans = [], ws_log = [], ws_world = wd\<rparr>,
      ps_ch = ch, ps_now = sy_now sy, ps_cancelled = False,
      ps_workers = map (\<lambda>w. WPoll (w_pollInterval w)) (wp_workers plan),
      ps_reaper = start_ticker (wp_reap_interval plan),
      ps_shipper = (case wp_shipper plan of None \<Rightarrow> GReturned | Some (iv, b) \<Rightarrow> start_ticker iv),
      ps_others = sy_flight sy, ps_claimed = [], ps_reported = []\<rparr>"

datatype proc_action =
    PSignal
  | PClaim nat turn
  | PWake nat
  | PStop nat
  | PReport nat proc_env
  | PReap pg_env
  | PReapStop
  | PShip ship_env
  | PShipStop
  | POther sys_action

definition set_phase :: "nat \<Rightarrow> wphase \<Rightarrow> 'w pstate \<Rightarrow> 'w pstate" where
  "set_phase k p s = s\<lparr>ps_workers := (ps_workers s)[k := p]\<rparr>"

definition phase_of :: "nat \<Rightarrow> 'w pstate \<Rightarrow> wphase" where
  "phase_of k s = (if k < length (ps_workers s) then ps_workers s ! k else WReturned)"

definition at_now :: "'w pstate \<Rightarrow> pg_env \<Rightarrow> pg_env" where
  "at_now s env = env\<lparr>pg_now := ps_now s\<rparr>"

text \<open>The head of a worker's loop: it returns when the context is cancelled, else it claims.\<close>

definition claim_step :: "worker \<Rightarrow> nat \<Rightarrow> duration \<Rightarrow> turn \<Rightarrow> 'w pstate \<Rightarrow> 'w pstate" where
  "claim_step w k iv t s =
     (if ps_cancelled s then set_phase k WReturned s
      else
        (case claim_turn w (t\<lparr>t_before := [], t_pg := at_now s (t_pg t)\<rparr>) (ps_ws s) of
           ([], ws) \<Rightarrow> set_phase k (WWait iv) (s\<lparr>ps_ws := ws\<rparr>)
         | (j # js, ws) \<Rightarrow>
             set_phase k (WBusy j (lease_end (j_id j) (ws_db ws)))
               (s\<lparr>ps_ws := ws, ps_claimed := (j_id j, j_attempts j) # ps_claimed s\<rparr>)))"

definition report_step :: "worker \<Rightarrow> 'w handler \<Rightarrow> nat \<Rightarrow> job \<Rightarrow> proc_env \<Rightarrow> 'w pstate \<Rightarrow> 'w pstate" where
  "report_step w h k j pe s =
     (case process w h (pe\<lparr>pe_meanwhile := [], pe_pg := at_now s (pe_pg pe)\<rparr>) j (ps_ws s) of
        None \<Rightarrow> set_phase k WPanicked s
      | Some ws \<Rightarrow>
          set_phase k (WPoll (w_pollInterval w))
            (s\<lparr>ps_ws := ws, ps_reported := (j_id j, j_attempts j) # ps_reported s\<rparr>))"

definition reap_step :: "pg_env \<Rightarrow> 'w pstate \<Rightarrow> 'w pstate" where
  "reap_step env s =
     (let (res, db') = ReapExpiredLeases (at_now s env) (ws_db (ps_ws s));
          msgs = (case res of
             Inl e \<Rightarrow> [(''reap failed'', err_Error e)]
           | Inr (reclaimed, deadLettered) \<Rightarrow> if 0 < reclaimed then [(''reaped expired leases'', '''')] else [])
      in s\<lparr>ps_ws := (ps_ws s)\<lparr>ws_db := db', ws_log := ws_log (ps_ws s) @ msgs\<rparr>\<rparr>)"

definition ship_step_of :: "int \<Rightarrow> ship_env \<Rightarrow> 'w pstate \<Rightarrow> 'w pstate" where
  "ship_step_of batch se s =
     (let (msg, db', ch') = shipOnce se batch (ws_db (ps_ws s), ps_ch s);
          msgs = (if msg = '''' then [] else [(msg, '''')])
      in s\<lparr>ps_ws := (ps_ws s)\<lparr>ws_db := db', ws_log := ws_log (ps_ws s) @ msgs\<rparr>, ps_ch := ch'\<rparr>)"

text \<open>
  One step, or \<open>None\<close> where it cannot happen. With \<open>timely\<close> a report comes before the lease ends;
  \<open>POther\<close> is a step of the rest of the deployment, which holds the claims \<open>ps_others\<close>.
\<close>

fun proc_exec :: "bool \<Rightarrow> work_plan \<Rightarrow> 'w handler \<Rightarrow> proc_action \<Rightarrow> 'w pstate \<Rightarrow> 'w pstate option" where
  "proc_exec timely plan h PSignal s = Some (s\<lparr>ps_cancelled := True\<rparr>)"
| "proc_exec timely plan h (PClaim k t) s =
     (case phase_of k s of WPoll iv \<Rightarrow> Some (claim_step (wp_workers plan ! k) k iv t s) | _ \<Rightarrow> None)"
| "proc_exec timely plan h (PWake k) s =
     (case phase_of k s of
        WWait iv \<Rightarrow> Some (set_phase k (WPoll (next_interval (wp_workers plan ! k) iv)) s) | _ \<Rightarrow> None)"
| "proc_exec timely plan h (PStop k) s =
     (case phase_of k s of
        WWait iv \<Rightarrow> if ps_cancelled s then Some (set_phase k WReturned s) else None | _ \<Rightarrow> None)"
| "proc_exec timely plan h (PReport k pe) s =
     (case phase_of k s of
        WBusy j dl \<Rightarrow>
          if timely \<and> dl < ps_now s then None else Some (report_step (wp_workers plan ! k) h k j pe s)
      | _ \<Rightarrow> None)"
| "proc_exec timely plan h (PReap env) s = (if ps_reaper s = GRunning then Some (reap_step env s) else None)"
| "proc_exec timely plan h PReapStop s =
     (if ps_reaper s = GRunning \<and> ps_cancelled s then Some (s\<lparr>ps_reaper := GReturned\<rparr>) else None)"
| "proc_exec timely plan h (PShip se) s =
     (case (ps_shipper s, wp_shipper plan) of
        (GRunning, Some (iv, batch)) \<Rightarrow> Some (ship_step_of batch se s) | _ \<Rightarrow> None)"
| "proc_exec timely plan h PShipStop s =
     (if ps_shipper s = GRunning \<and> ps_cancelled s then Some (s\<lparr>ps_shipper := GReturned\<rparr>) else None)"
| "proc_exec timely plan h (POther a) s =
     map_option (\<lambda>sy. s\<lparr>ps_ws := (ps_ws s)\<lparr>ws_db := sy_db sy\<rparr>, ps_now := sy_now sy, ps_others := sy_flight sy\<rparr>)
       (sys_exec timely a \<lparr>sy_db = ws_db (ps_ws s), sy_now = ps_now s, sy_flight = ps_others s\<rparr>)"

inductive proc_step :: "bool \<Rightarrow> work_plan \<Rightarrow> 'w handler \<Rightarrow> 'w pstate \<Rightarrow> 'w pstate \<Rightarrow> bool" for timely plan h where
  proc_act: "proc_exec timely plan h a s = Some s' \<Longrightarrow> proc_step timely plan h s s'"

inductive_cases proc_stepE: "proc_step timely plan h s s'"

fun proc_run :: "bool \<Rightarrow> work_plan \<Rightarrow> 'w handler \<Rightarrow> proc_action list \<Rightarrow> 'w pstate \<Rightarrow> 'w pstate option" where
  "proc_run timely plan h [] s = Some s"
| "proc_run timely plan h (a # as) s =
     (case proc_exec timely plan h a s of None \<Rightarrow> None | Some s' \<Rightarrow> proc_run timely plan h as s')"

text \<open>
  \<open>g.Wait\<close> and what follows it. No goroutine of the group returns an error, so the group never
  cancels its own context; a panic ends the process with code 2.
\<close>

definition crashed :: "'w pstate \<Rightarrow> bool" where
  "crashed s \<longleftrightarrow> WPanicked \<in> set (ps_workers s) \<or> ps_reaper s = GPanicked \<or> ps_shipper s = GPanicked"

definition all_returned :: "'w pstate \<Rightarrow> bool" where
  "all_returned s \<longleftrightarrow> list_all (\<lambda>p. p = WReturned) (ps_workers s) \<and> ps_reaper s = GReturned \<and> ps_shipper s = GReturned"

definition work_exit :: "'w pstate \<Rightarrow> outcome option" where
  "work_exit s =
     (if crashed s then Some (exits 2 ''panic'') else if all_returned s then Some (logs 0 [''shutdown complete'']) else None)"

section \<open>Every claim is reported\<close>

fun holding :: "wphase \<Rightarrow> (job \<times> int) list" where
  "holding (WBusy j dl) = [(j, dl)]"
| "holding _ = []"

definition held :: "'w pstate \<Rightarrow> (job \<times> int) list" where
  "held s = concat (map holding (ps_workers s))"

lemma phase_of_update: "k < length (ps_workers s) \<Longrightarrow> phase_of k s = ps_workers s ! k"
  by (simp add: phase_of_def)

lemma phase_of_active: "phase_of k s \<noteq> WReturned \<Longrightarrow> k < length (ps_workers s) \<and> ps_workers s ! k = phase_of k s"
  by (auto simp: phase_of_def split: if_splits)

lemma mset_concat_update:
  "k < length xs \<Longrightarrow> mset (concat (map f (xs[k := x]))) + mset (f (xs ! k)) = mset (concat (map f xs)) + mset (f x)"
proof (induction xs arbitrary: k)
  case (Cons y ys)
  then show ?case by (cases k) (auto simp: ac_simps)
qed simp

lemma held_set_phase:
  assumes "phase_of k s \<noteq> WReturned"
  shows "mset (held (set_phase k p s)) + mset (holding (phase_of k s)) = mset (held s) + mset (holding p)"
  using mset_concat_update [of k "ps_workers s" holding p] phase_of_active [OF assms]
  by (simp add: held_def set_phase_def)

lemma pstate_frame [simp]:
  "ps_ws (set_phase k p s) = ps_ws s" "ps_ch (set_phase k p s) = ps_ch s" "ps_now (set_phase k p s) = ps_now s"
  "ps_cancelled (set_phase k p s) = ps_cancelled s" "ps_reaper (set_phase k p s) = ps_reaper s"
  "ps_shipper (set_phase k p s) = ps_shipper s" "ps_others (set_phase k p s) = ps_others s"
  "ps_claimed (set_phase k p s) = ps_claimed s" "ps_reported (set_phase k p s) = ps_reported s"
  "ps_workers (set_phase k p s) = (ps_workers s)[k := p]"
  by (simp_all add: set_phase_def)

lemma held_frame [simp]:
  "held (s\<lparr>ps_ws := a\<rparr>) = held s" "held (s\<lparr>ps_ch := ch\<rparr>) = held s" "held (s\<lparr>ps_now := n\<rparr>) = held s"
  "held (s\<lparr>ps_cancelled := c\<rparr>) = held s" "held (s\<lparr>ps_reaper := g\<rparr>) = held s"
  "held (s\<lparr>ps_shipper := g\<rparr>) = held s" "held (s\<lparr>ps_others := os\<rparr>) = held s"
  "held (s\<lparr>ps_claimed := x\<rparr>) = held s" "held (s\<lparr>ps_reported := x\<rparr>) = held s"
  by (simp_all add: held_def)

lemma phase_frame [simp]:
  "phase_of k (s\<lparr>ps_ws := a\<rparr>) = phase_of k s" "phase_of k (s\<lparr>ps_claimed := x\<rparr>) = phase_of k s"
  "phase_of k (s\<lparr>ps_reported := x\<rparr>) = phase_of k s"
  by (simp_all add: phase_of_def)

text \<open>The three ways a step can change a worker: nothing, a claim, a report, or a move that holds no job.\<close>

lemma claim_step_cases:
  assumes "phase_of k s = WPoll iv"
  obtains "claim_step w k iv t s = set_phase k WReturned s" "ps_cancelled s"
  | ws where "claim_step w k iv t s = set_phase k (WWait iv) (s\<lparr>ps_ws := ws\<rparr>)" "\<not> ps_cancelled s"
      "claim_turn w (t\<lparr>t_before := [], t_pg := at_now s (t_pg t)\<rparr>) (ps_ws s) = ([], ws)"
  | j js ws where "claim_step w k iv t s = set_phase k (WBusy j (lease_end (j_id j) (ws_db ws)))
      (s\<lparr>ps_ws := ws, ps_claimed := (j_id j, j_attempts j) # ps_claimed s\<rparr>)" "\<not> ps_cancelled s"
      "claim_turn w (t\<lparr>t_before := [], t_pg := at_now s (t_pg t)\<rparr>) (ps_ws s) = (j # js, ws)"
proof (cases "ps_cancelled s")
  case False
  obtain js ws where T: "claim_turn w (t\<lparr>t_before := [], t_pg := at_now s (t_pg t)\<rparr>) (ps_ws s) = (js, ws)"
    by (cases "claim_turn w (t\<lparr>t_before := [], t_pg := at_now s (t_pg t)\<rparr>) (ps_ws s)")
  show ?thesis
  proof (cases js)
    case Nil
    with T False show ?thesis by (intro that(2)) (simp_all add: claim_step_def)
  next
    case (Cons j js')
    with T False show ?thesis by (intro that(3)) (simp_all add: claim_step_def)
  qed
qed (use that(1) in \<open>simp add: claim_step_def\<close>)

lemma report_step_eq:
  obtains ws where "process w h (pe\<lparr>pe_meanwhile := [], pe_pg := at_now s (pe_pg pe)\<rparr>) j (ps_ws s) = Some ws"
    "report_step w h k j pe s = set_phase k (WPoll (w_pollInterval w))
       (s\<lparr>ps_ws := ws, ps_reported := (j_id j, j_attempts j) # ps_reported s\<rparr>)"
proof -
  obtain ws where "process w h (pe\<lparr>pe_meanwhile := [], pe_pg := at_now s (pe_pg pe)\<rparr>) j (ps_ws s) = Some ws"
    using process_total by blast
  then show ?thesis by (intro that) (simp_all add: report_step_def)
qed

lemma step_frame [simp]:
  "held (reap_step env s) = held s" "ps_workers (reap_step env s) = ps_workers s"
  "ps_claimed (reap_step env s) = ps_claimed s" "ps_reported (reap_step env s) = ps_reported s"
  "ps_cancelled (reap_step env s) = ps_cancelled s" "ps_reaper (reap_step env s) = ps_reaper s"
  "ps_shipper (reap_step env s) = ps_shipper s" "ps_now (reap_step env s) = ps_now s"
  "ps_others (reap_step env s) = ps_others s"
  "held (ship_step_of b se s) = held s" "ps_workers (ship_step_of b se s) = ps_workers s"
  "ps_claimed (ship_step_of b se s) = ps_claimed s" "ps_reported (ship_step_of b se s) = ps_reported s"
  "ps_cancelled (ship_step_of b se s) = ps_cancelled s" "ps_reaper (ship_step_of b se s) = ps_reaper s"
  "ps_shipper (ship_step_of b se s) = ps_shipper s" "ps_now (ship_step_of b se s) = ps_now s"
  "ps_others (ship_step_of b se s) = ps_others s"
  by (simp_all add: reap_step_def ship_step_of_def held_def split: prod.splits)

definition books :: "'w pstate \<Rightarrow> bool" where
  "books s \<longleftrightarrow> mset (ps_claimed s) = mset (ps_reported s) + image_mset claim_key (mset (held s))"

lemma books_balance:
  fixes A :: "'a multiset"
  assumes "A + P = H + N" "c + P + r0 = r + N + c0" "c0 = r0 + H"
  shows "c = r + A"
proof -
  have "c + (P + r0) = r + (H + N) + r0" using assms(2) by (simp add: assms(3) ac_simps)
  also have "\<dots> = (r + A) + (P + r0)" by (simp add: assms(1) [symmetric] ac_simps)
  finally show ?thesis by simp
qed

lemma books_set_phase:
  assumes "phase_of k s \<noteq> WReturned"
    and "mset cl + image_mset claim_key (mset (holding (phase_of k s))) + mset (ps_reported s) =
         mset rp + image_mset claim_key (mset (holding p)) + mset (ps_claimed s)"
    and "books s"
  shows "books (set_phase k p (s\<lparr>ps_ws := ws, ps_claimed := cl, ps_reported := rp\<rparr>))"
proof -
  let ?s = "s\<lparr>ps_ws := ws, ps_claimed := cl, ps_reported := rp\<rparr>"
  have "mset (held (set_phase k p ?s)) + mset (holding (phase_of k s)) = mset (held s) + mset (holding p)"
    using held_set_phase [of k ?s p] assms(1) by simp
  then have "image_mset claim_key (mset (held (set_phase k p ?s))) + image_mset claim_key (mset (holding (phase_of k s))) =
      image_mset claim_key (mset (held s)) + image_mset claim_key (mset (holding p))"
    by (metis image_mset_union)
  from books_balance [OF this assms(2) assms(3) [unfolded books_def]] show ?thesis by (simp add: books_def)
qed

definition proc_inv :: "work_plan \<Rightarrow> 'w pstate \<Rightarrow> bool" where
  "proc_inv plan s \<longleftrightarrow> length (ps_workers s) = length (wp_workers plan) \<and> \<not> crashed s \<and> books s"

lemma no_panic_update: "WPanicked \<notin> set ps \<Longrightarrow> p \<noteq> WPanicked \<Longrightarrow> WPanicked \<notin> set (ps[k := p])"
  using set_update_subset_insert [of ps k p] by auto

lemma proc_inv_set_phase:
  assumes "proc_inv plan s" "phase_of k s \<noteq> WReturned" "p \<noteq> WPanicked"
    and "mset cl + image_mset claim_key (mset (holding (phase_of k s))) + mset (ps_reported s) =
         mset rp + image_mset claim_key (mset (holding p)) + mset (ps_claimed s)"
  shows "proc_inv plan (set_phase k p (s\<lparr>ps_ws := ws, ps_claimed := cl, ps_reported := rp\<rparr>))"
  using assms books_set_phase [OF assms(2,4)] no_panic_update
  by (auto simp: proc_inv_def crashed_def)

lemma proc_inv_move:
  assumes "proc_inv plan s" "phase_of k s \<noteq> WReturned" "holding (phase_of k s) = []" "holding p = []" "p \<noteq> WPanicked"
  shows "proc_inv plan (set_phase k p (s\<lparr>ps_ws := ws\<rparr>))"
  using proc_inv_set_phase [OF assms(1,2,5), of "ps_claimed s" "ps_reported s" ws] assms(3,4) by (simp add: ac_simps)

lemma proc_inv_same:
  assumes "proc_inv plan s" "ps_workers s' = ps_workers s" "ps_claimed s' = ps_claimed s" "ps_reported s' = ps_reported s"
    and "ps_reaper s' = GPanicked \<Longrightarrow> ps_reaper s = GPanicked" "ps_shipper s' = GPanicked \<Longrightarrow> ps_shipper s = GPanicked"
  shows "proc_inv plan s'"
  using assms by (auto simp: proc_inv_def crashed_def books_def held_def)

lemma proc_exec_inv:
  assumes "proc_exec timely plan h a s = Some s'" "proc_inv plan s"
  shows "proc_inv plan s'"
proof (cases a)
  case (PClaim k t)
  then obtain iv where iv: "phase_of k s = WPoll iv" "s' = claim_step (wp_workers plan ! k) k iv t s"
    using assms(1) by (auto split: wphase.splits)
  note move = proc_inv_move [OF assms(2), of k]
  from iv(1) show ?thesis
  proof (cases rule: claim_step_cases [where w = "wp_workers plan ! k" and t = t])
    case 1 then show ?thesis using move [of WReturned "ps_ws s"] iv by simp
  next
    case (2 ws) then show ?thesis using move [of "WWait iv" ws] iv by simp
  next
    case (3 j js ws)
    then show ?thesis
      using proc_inv_set_phase [OF assms(2), of k "WBusy j (lease_end (j_id j) (ws_db ws))"
          "(j_id j, j_attempts j) # ps_claimed s" "ps_reported s" ws] iv
      by (simp add: claim_key_def ac_simps)
  qed
next
  case (PReport k pe)
  then obtain j dl where j: "phase_of k s = WBusy j dl" "s' = report_step (wp_workers plan ! k) h k j pe s"
    using assms(1) by (auto split: wphase.splits if_splits)
  obtain ws where "report_step (wp_workers plan ! k) h k j pe s = set_phase k (WPoll (w_pollInterval (wp_workers plan ! k)))
       (s\<lparr>ps_ws := ws, ps_reported := (j_id j, j_attempts j) # ps_reported s\<rparr>)"
    by (rule report_step_eq)
  then show ?thesis
    using proc_inv_set_phase [OF assms(2), of k "WPoll (w_pollInterval (wp_workers plan ! k))"
        "ps_claimed s" "(j_id j, j_attempts j) # ps_reported s" ws] j
    by (simp add: claim_key_def ac_simps)
next
  case (PWake k)
  then show ?thesis using assms(1) proc_inv_move [OF assms(2), of k _ "ps_ws s"] by (auto split: wphase.splits)
next
  case (PStop k)
  then show ?thesis using assms(1) proc_inv_move [OF assms(2), of k _ "ps_ws s"] by (auto split: wphase.splits if_splits)
qed (use assms(1) in \<open>auto intro!: proc_inv_same [OF assms(2)] split: if_splits gphase.splits option.splits\<close>)

interpretation proc_books: step_invariant "proc_step timely plan h" "proc_inv plan" for timely plan h
  by unfold_locales (auto elim!: proc_stepE intro: proc_exec_inv)

definition plan_ok :: "work_plan \<Rightarrow> bool" where
  "plan_ok plan \<longleftrightarrow> 0 <s wp_reap_interval plan \<and> (case wp_shipper plan of None \<Rightarrow> True | Some (iv, b) \<Rightarrow> 0 <s iv)"

lemma start_inv:
  assumes "plan_ok plan"
  shows "proc_inv plan (start_process plan wd sy ch)"
proof -
  have "concat (map (holding \<circ> (\<lambda>w. WPoll (w_pollInterval w))) ws) = []" for ws by simp
  with assms show ?thesis
    by (auto simp: plan_ok_def proc_inv_def start_process_def crashed_def books_def held_def start_ticker_def
        word_sless_alt word_sle_eq split: option.splits)
qed

section \<open>Graceful shutdown\<close>

text \<open>
  The steps by which the goroutines move on once the context is cancelled; a tick of the reaper or
  the shipper that comes first leaves them where they are.
\<close>

fun moves_on :: "proc_action \<Rightarrow> bool" where
  "moves_on (PClaim k t) = True"
| "moves_on (PWake k) = True"
| "moves_on (PStop k) = True"
| "moves_on (PReport k pe) = True"
| "moves_on PReapStop = True"
| "moves_on PShipStop = True"
| "moves_on _ = False"

fun steps_left :: "wphase \<Rightarrow> nat" where
  "steps_left (WPoll iv) = 1"
| "steps_left (WWait iv) = 2"
| "steps_left (WBusy j dl) = 2"
| "steps_left _ = 0"

definition ticker_left :: "gphase \<Rightarrow> nat" where
  "ticker_left g = (if g = GRunning then 1 else 0)"

definition remaining :: "'w pstate \<Rightarrow> nat" where
  "remaining s = sum_list (map steps_left (ps_workers s)) + ticker_left (ps_reaper s) + ticker_left (ps_shipper s)"

lemma sum_list_update_nat:
  "k < length xs \<Longrightarrow> sum_list (map f (xs[k := x])) + (f (xs ! k) :: nat) = sum_list (map f xs) + f x"
proof (induction xs arbitrary: k)
  case (Cons y ys)
  then show ?case by (cases k) auto
qed simp

lemma remaining_set_phase:
  assumes "phase_of k s \<noteq> WReturned"
  shows "remaining (set_phase k p s) + steps_left (phase_of k s) = remaining s + steps_left p"
  using sum_list_update_nat [of k "ps_workers s" steps_left p] phase_of_active [OF assms] by (simp add: remaining_def)

lemma remaining_frame [simp]:
  "remaining (s\<lparr>ps_ws := a\<rparr>) = remaining s" "remaining (s\<lparr>ps_claimed := x\<rparr>) = remaining s"
  "remaining (s\<lparr>ps_reported := x\<rparr>) = remaining s"
  by (simp_all add: remaining_def)

lemma cancelled_step:
  assumes "proc_exec timely plan h a s = Some s'" "ps_cancelled s"
  shows "ps_cancelled s' \<and> (if moves_on a then remaining s' < remaining s else remaining s' = remaining s)"
proof (cases a)
  case (PReport k pe)
  then obtain j dl where j: "phase_of k s = WBusy j dl" "s' = report_step (wp_workers plan ! k) h k j pe s"
    using assms(1) by (auto split: wphase.splits if_splits)
  obtain ws where "report_step (wp_workers plan ! k) h k j pe s = set_phase k (WPoll (w_pollInterval (wp_workers plan ! k)))
       (s\<lparr>ps_ws := ws, ps_reported := (j_id j, j_attempts j) # ps_reported s\<rparr>)"
    by (rule report_step_eq)
  with j assms(2) PReport remaining_set_phase [of k "s\<lparr>ps_ws := ws, ps_reported := (j_id j, j_attempts j) # ps_reported s\<rparr>"
      "WPoll (w_pollInterval (wp_workers plan ! k))"] show ?thesis by simp
next
  case (PClaim k t)
  then obtain iv where "phase_of k s = WPoll iv" "s' = set_phase k WReturned s"
    using assms by (auto simp: claim_step_def split: wphase.splits)
  with PClaim assms(2) remaining_set_phase [of k s WReturned] show ?thesis by simp
next
  case (PWake k)
  then obtain iv where "phase_of k s = WWait iv" "s' = set_phase k (WPoll (next_interval (wp_workers plan ! k) iv)) s"
    using assms by (auto split: wphase.splits)
  with PWake assms(2) remaining_set_phase [of k s "WPoll (next_interval (wp_workers plan ! k) iv)"] show ?thesis by simp
next
  case (PStop k)
  then obtain iv where "phase_of k s = WWait iv" "s' = set_phase k WReturned s"
    using assms by (auto split: wphase.splits)
  with PStop assms(2) remaining_set_phase [of k s WReturned] show ?thesis by simp
qed (use assms in \<open>auto simp: remaining_def ticker_left_def split: if_splits gphase.splits option.splits\<close>)

lemma shutdown_bounded:
  "proc_run timely plan h as s = Some s' \<Longrightarrow> ps_cancelled s \<Longrightarrow> length (filter moves_on as) + remaining s' \<le> remaining s"
proof (induction as arbitrary: s)
  case (Cons a as)
  then obtain s1 where s1: "proc_exec timely plan h a s = Some s1" "proc_run timely plan h as s1 = Some s'"
    by (auto split: option.splits)
  with Cons cancelled_step [OF s1(1)] show ?case by (force split: if_splits)
qed simp

lemma remaining_bound: "remaining s \<le> 2 * length (ps_workers s) + 2"
proof -
  have "sum_list (map steps_left ps) \<le> 2 * length ps" for ps
  proof (induction ps)
    case (Cons p ps)
    then show ?case by (cases p) auto
  qed simp
  from this [of "ps_workers s"] show ?thesis by (auto simp: remaining_def ticker_left_def)
qed

lemma shutdown_progress:
  assumes "ps_cancelled s" "\<not> crashed s" "\<not> all_returned s"
  shows "\<exists>a s'. moves_on a \<and> proc_exec False plan h a s = Some s'"
proof (cases "list_all (\<lambda>p. p = WReturned) (ps_workers s)")
  case True
  then have "ps_reaper s = GRunning \<or> ps_shipper s = GRunning"
    using assms(2,3) by (metis all_returned_def crashed_def gphase.exhaust)
  then have "proc_exec False plan h PReapStop s \<noteq> None \<or> proc_exec False plan h PShipStop s \<noteq> None"
    using assms(1) by auto
  then show ?thesis by (metis moves_on.simps(5,6) not_None_eq)
next
  case False
  then obtain k where k: "k < length (ps_workers s)" "ps_workers s ! k \<noteq> WReturned"
    by (auto simp: list_all_length)
  then have ph: "phase_of k s = ps_workers s ! k" by (simp add: phase_of_def)
  have "ps_workers s ! k \<noteq> WPanicked" using assms(2) nth_mem [OF k(1)] by (metis crashed_def)
  with k(2) show ?thesis
  proof (cases "ps_workers s ! k")
    case (WPoll iv)
    then show ?thesis by (intro exI [of _ "PClaim k undefined"]) (simp add: ph)
  next
    case (WWait iv)
    then show ?thesis using assms(1) by (intro exI [of _ "PStop k"]) (simp add: ph)
  next
    case (WBusy j dl)
    then show ?thesis by (intro exI [of _ "PReport k undefined"]) (simp add: ph)
  qed auto
qed

lemma shutdown_completes:
  assumes "ps_cancelled s" "proc_inv plan s"
  shows "\<exists>as s'. proc_run False plan h as s = Some s' \<and> list_all moves_on as \<and> all_returned s' \<and> proc_inv plan s'"
  using assms
proof (induction "remaining s" arbitrary: s rule: less_induct)
  case less
  show ?case
  proof (cases "all_returned s")
    case True
    with less.prems show ?thesis by (intro exI [of _ "[]"]) simp
  next
    case False
    then obtain a s1 where a: "moves_on a" "proc_exec False plan h a s = Some s1"
      using shutdown_progress [of s plan h] less.prems by (auto simp: proc_inv_def)
    have "proc_inv plan s1" by (rule proc_exec_inv [OF a(2) less.prems(2)])
    moreover have "ps_cancelled s1" "remaining s1 < remaining s" using cancelled_step [OF a(2) less.prems(1)] a(1) by simp_all
    ultimately obtain as s' where "proc_run False plan h as s1 = Some s'" "list_all moves_on as" "all_returned s'" "proc_inv plan s'"
      using less.hyps by blast
    with a show ?thesis by (intro exI [of _ "a # as"] exI [of _ s']) simp
  qed
qed

lemma returned_books: "all_returned s \<Longrightarrow> books s \<Longrightarrow> mset (ps_claimed s) = mset (ps_reported s)"
proof -
  assume R: "all_returned s" and B: "books s"
  have "list_all (\<lambda>p. p = WReturned) ps \<Longrightarrow> concat (map holding ps) = []" for ps
    by (induction ps) auto
  from this [of "ps_workers s"] R have "held s = []" unfolding all_returned_def held_def by blast
  with B show ?thesis by (simp add: books_def)
qed

text \<open>
  C10. Graceful shutdown of the worker process: once SIGINT or SIGTERM has arrived, its goroutines
  make at most two steps for each worker and one each for reaper and shipper, whatever they, the
  database, the handlers and the rest of the deployment do in between; they can always move on
  until all have returned; and then the process exits with code 0 and every job a claim handed to
  one of its workers has been reported, none dropped half-way.
\<close>

theorem graceful_shutdown:
  assumes "plan_ok plan" "(proc_step False plan h)\<^sup>*\<^sup>* (start_process plan wd sy ch) s" "ps_cancelled s"
  shows "(\<forall>as s'. proc_run False plan h as s = Some s' \<longrightarrow> length (filter moves_on as) \<le> 2 * length (wp_workers plan) + 2) \<and>
     (\<exists>as s'. proc_run False plan h as s = Some s' \<and> list_all moves_on as \<and> work_exit s' = Some (logs 0 [''shutdown complete'']) \<and>
        mset (ps_claimed s') = mset (ps_reported s'))"
proof
  have inv: "proc_inv plan s" using proc_books.reachable_inv [OF assms(2) start_inv [OF assms(1)]] .
  then have "remaining s \<le> 2 * length (wp_workers plan) + 2"
    using remaining_bound [of s] by (simp add: proc_inv_def)
  then show "\<forall>as s'. proc_run False plan h as s = Some s' \<longrightarrow> length (filter moves_on as) \<le> 2 * length (wp_workers plan) + 2"
    using shutdown_bounded [OF _ assms(3)] by (meson add_leD1 le_trans)
  from shutdown_completes [OF assms(3) inv] obtain as s' where
    "proc_run False plan h as s = Some s'" "list_all moves_on as" "all_returned s'" "proc_inv plan s'" by blast
  then show "\<exists>as s'. proc_run False plan h as s = Some s' \<and> list_all moves_on as \<and> work_exit s' = Some (logs 0 [''shutdown complete'']) \<and>
        mset (ps_claimed s') = mset (ps_reported s')"
    by (intro exI [of _ as] exI [of _ s']) (auto simp: work_exit_def proc_inv_def intro: returned_books)
qed

section \<open>The process is part of the system\<close>

text \<open>
  A state of the process stands for the state of System with the same database and clock, in
  which the held claims are those of the process and of the others.
\<close>

definition stands_for :: "'w pstate \<Rightarrow> sys \<Rightarrow> bool" where
  "stands_for s \<sigma> \<longleftrightarrow> sy_db \<sigma> = ws_db (ps_ws s) \<and> sy_now \<sigma> = ps_now s \<and>
     mset (sy_flight \<sigma>) = mset (held s) + mset (ps_others s)"

lemma mset_remove_nth: "n < length xs \<Longrightarrow> mset xs = add_mset (xs ! n) (mset (remove_nth n xs))"
  by (metis id_take_nth_drop mset_append mset.simps(2) remove_nth_def union_mset_add_mset_right)

lemma remove_nth_beyond: "length xs \<le> n \<Longrightarrow> remove_nth n xs = xs"
  by (simp add: remove_nth_def)

lemma flight_index:
  assumes "mset fl = M + mset others" "n < length others"
  obtains m where "m < length fl" "fl ! m = others ! n" "mset (remove_nth m fl) = M + mset (remove_nth n others)"
proof -
  have "others ! n \<in># mset fl" using assms by simp
  then obtain m where m: "m < length fl" "fl ! m = others ! n" by (metis in_set_conv_nth set_mset_mset)
  have "add_mset (others ! n) (mset (remove_nth m fl)) = add_mset (others ! n) (M + mset (remove_nth n others))"
    using mset_remove_nth [OF m(1)] mset_remove_nth [OF assms(2)] assms(1) m(2) by simp
  with m that show ?thesis by simp
qed

text \<open>What others do with their claims is possible as well when more claims are held.\<close>

lemma sys_exec_frame:
  assumes "sys_exec timely a \<lparr>sy_db = db, sy_now = now, sy_flight = others\<rparr> = Some sy"
    and "mset fl = M + mset others"
  shows "\<exists>a' fl'. sys_exec timely a' \<lparr>sy_db = db, sy_now = now, sy_flight = fl\<rparr> =
      Some \<lparr>sy_db = sy_db sy, sy_now = sy_now sy, sy_flight = fl'\<rparr> \<and> mset fl' = M + mset (sy_flight sy)"
proof (cases a)
  case (AClaim env w lease)
  obtain res db' where "Claim (env\<lparr>pg_now := now\<rparr>) w lease 1 db = (res, db')"
    by (cases "Claim (env\<lparr>pg_now := now\<rparr>) w lease 1 db")
  with assms AClaim show ?thesis by (intro exI [of _ a]) auto
next
  case (AReport n w res pe)
  then have n: "n < length others" "timely \<longrightarrow> now \<le> snd (others ! n)" using assms(1) by (auto split: if_splits)
  from assms(2) n(1) obtain m where m: "m < length fl" "fl ! m = others ! n" "mset (remove_nth m fl) = M + mset (remove_nth n others)"
    by (rule flight_index)
  with assms(1) n AReport show ?thesis by (intro exI [of _ "AReport m w res pe"]) auto
next
  case (ACrash n)
  show ?thesis
  proof (cases "n < length others")
    case True
    with assms(2) obtain m where "m < length fl" "mset (remove_nth m fl) = M + mset (remove_nth n others)"
      by (rule flight_index)
    with assms(1) ACrash show ?thesis by (intro exI [of _ "ACrash m"]) auto
  next
    case False
    with assms ACrash show ?thesis by (intro exI [of _ "ACrash (length fl)"]) (auto simp: remove_nth_beyond)
  qed
qed (use assms in \<open>auto intro!: exI [of _ a]\<close>)

lemma process_db:
  "map_option ws_db (process w h pe j s) =
   map_option ws_db (process w (\<lambda>_ _. (fst (h j (ws_world s)), ())) pe j (worker_state (ws_db s)))"
proof -
  obtain res wd where "h j (ws_world s) = (res, wd)" by (cases "h j (ws_world s)")
  then show ?thesis
    by (cases "execute_err res"; cases "calculateRetryDelay (pe_rand pe) w j")
       (simp_all add: process_def execute_def worker_state_def Let_def)
qed

text \<open>The effect of each step of a goroutine on the database, the clock and the held claims is one of System's.\<close>

lemma claim_turn_result:
  "claim_turn w t s = (js, s') \<Longrightarrow>
   \<exists>res. Claim (t_pg t) (w_id w) (w_leaseDuration w) 1 (run_calls (t_before t) (ws_db s)) = (res, ws_db s') \<and>
     js = (case res of Inl e \<Rightarrow> [] | Inr js \<Rightarrow> js)"
  by (auto simp: claim_turn_def Let_def split: prod.splits sum.splits)

lemma claim_one:
  assumes "wf_db db" "Claim env w lease 1 db = (Inr (j # js), db')"
  shows "js = []"
  using arg_cong [OF claimed_ids [OF assms], of size] by (simp add: length_claim_select min_def split: if_splits)

lemma claim_simulated:
  assumes iv: "phase_of k s = WPoll iv" and "stands_for s \<sigma>" "wf_db (sy_db \<sigma>)" "s' = claim_step w k iv t s"
  shows "\<exists>\<sigma>'. (sys_step timely)\<^sup>*\<^sup>* \<sigma> \<sigma>' \<and> stands_for s' \<sigma>'"
proof -
  let ?t = "t\<lparr>t_before := [], t_pg := at_now s (t_pg t)\<rparr>"
  have claim: "sys_step timely \<sigma> (\<sigma>\<lparr>sy_db := ws_db ws, sy_flight := map (\<lambda>j. (j, lease_end (j_id j) (ws_db ws))) js @ sy_flight \<sigma>\<rparr>)"
    if "claim_turn w ?t (ps_ws s) = (js, ws)" for js ws
  proof -
    from claim_turn_result [OF that] obtain res where
      "Claim (at_now s (t_pg t)) (w_id w) (w_leaseDuration w) 1 (ws_db (ps_ws s)) = (res, ws_db ws)"
      "js = (case res of Inl e \<Rightarrow> [] | Inr js \<Rightarrow> js)" by auto
    with assms(2) show ?thesis
      by (intro sys_act [where a = "AClaim (t_pg t) (w_id w) (w_leaseDuration w)"])
         (simp add: stands_for_def at_now_def)
  qed
  from iv show ?thesis
  proof (cases rule: claim_step_cases [where w = w and t = t])
    case 1
    have "stands_for s' \<sigma>" using assms(2) held_set_phase [of k s WReturned] iv 1 assms(4) by (simp add: stands_for_def)
    then show ?thesis by blast
  next
    case (2 ws)
    have "stands_for s' (\<sigma>\<lparr>sy_db := ws_db ws, sy_flight := [] @ sy_flight \<sigma>\<rparr>)"
      using assms(2) held_set_phase [of k "s\<lparr>ps_ws := ws\<rparr>" "WWait iv"] iv 2(1) assms(4) by (simp add: stands_for_def)
    then show ?thesis using claim [OF 2(3)] by auto
  next
    case (3 j js ws)
    have "wf_db (ws_db (ps_ws s))" using assms(2,3) by (simp add: stands_for_def)
    moreover from claim_turn_result [OF 3(3)] obtain res where
      "Claim (at_now s (t_pg t)) (w_id w) (w_leaseDuration w) 1 (ws_db (ps_ws s)) = (res, ws_db ws)"
      "j # js = (case res of Inl e \<Rightarrow> [] | Inr js \<Rightarrow> js)" by auto
    then have "Claim (at_now s (t_pg t)) (w_id w) (w_leaseDuration w) 1 (ws_db (ps_ws s)) = (Inr (j # js), ws_db ws)"
      by (cases res) auto
    ultimately have "js = []" by (rule claim_one)
    with claim [OF 3(3)] have "sys_step timely \<sigma> (\<sigma>\<lparr>sy_db := ws_db ws, sy_flight := (j, lease_end (j_id j) (ws_db ws)) # sy_flight \<sigma>\<rparr>)"
      by simp
    moreover have "stands_for s' (\<sigma>\<lparr>sy_db := ws_db ws, sy_flight := (j, lease_end (j_id j) (ws_db ws)) # sy_flight \<sigma>\<rparr>)"
      using assms(2,4) iv 3(1)
        held_set_phase [of k "s\<lparr>ps_ws := ws, ps_claimed := (j_id j, j_attempts j) # ps_claimed s\<rparr>" "WBusy j (lease_end (j_id j) (ws_db ws))"]
      by (simp add: stands_for_def)
    ultimately show ?thesis by blast
  qed
qed

lemma report_simulated:
  assumes j: "phase_of k s = WBusy j dl" "s' = report_step w h k j pe s" and "stands_for s \<sigma>"
    and dl: "timely \<longrightarrow> ps_now s \<le> dl"
  shows "\<exists>\<sigma>'. (sys_step timely)\<^sup>*\<^sup>* \<sigma> \<sigma>' \<and> stands_for s' \<sigma>'"
proof -
  let ?pe = "pe\<lparr>pe_meanwhile := [], pe_pg := at_now s (pe_pg pe)\<rparr>"
  obtain ws where ws: "process w h ?pe j (ps_ws s) = Some ws"
    and s': "s' = set_phase k (WPoll (w_pollInterval w)) (s\<lparr>ps_ws := ws, ps_reported := (j_id j, j_attempts j) # ps_reported s\<rparr>)"
    using report_step_eq [of w h s pe j k] j(2) by metis
  have held: "mset (held s) = add_mset (j, dl) (mset (held s'))"
    using held_set_phase [of k "s\<lparr>ps_ws := ws, ps_reported := (j_id j, j_attempts j) # ps_reported s\<rparr>" "WPoll (w_pollInterval w)"] j(1) s'
    by simp
  then have "(j, dl) \<in># mset (sy_flight \<sigma>)" using assms(3) by (simp add: stands_for_def)
  then obtain n where n: "n < length (sy_flight \<sigma>)" "sy_flight \<sigma> ! n = (j, dl)" by (metis in_set_conv_nth set_mset_mset)
  let ?res = "fst (h j (ws_world (ps_ws s)))"
  obtain ws' where ws': "process w (\<lambda>_ _. (?res, ())) ?pe j (worker_state (ws_db (ps_ws s))) = Some ws'" "ws_db ws' = ws_db ws"
    using process_db [of w h ?pe j "ps_ws s", symmetric] ws by auto
  have "sys_step timely \<sigma> (\<sigma>\<lparr>sy_db := ws_db ws, sy_flight := remove_nth n (sy_flight \<sigma>)\<rparr>)"
    using assms(3) n ws' dl by (intro sys_act [where a = "AReport n w ?res pe"]) (auto simp: stands_for_def at_now_def)
  moreover have "stands_for s' (\<sigma>\<lparr>sy_db := ws_db ws, sy_flight := remove_nth n (sy_flight \<sigma>)\<rparr>)"
    using assms(3) held s' mset_remove_nth [OF n(1)] n(2) by (simp add: stands_for_def)
  ultimately show ?thesis by blast
qed

lemma reap_simulated:
  assumes s': "s' = reap_step env s" and "stands_for s \<sigma>"
  shows "\<exists>\<sigma>'. (sys_step timely)\<^sup>*\<^sup>* \<sigma> \<sigma>' \<and> stands_for s' \<sigma>'"
proof -
  have "sys_step timely \<sigma> (\<sigma>\<lparr>sy_db := ws_db (ps_ws s')\<rparr>)"
    using assms(2) by (intro sys_act [where a = "AReap env"]) (auto simp: stands_for_def s' reap_step_def at_now_def split: prod.splits)
  moreover have "stands_for s' (\<sigma>\<lparr>sy_db := ws_db (ps_ws s')\<rparr>)" using assms(2) by (simp add: stands_for_def s')
  ultimately show ?thesis by blast
qed

lemma ship_simulated:
  assumes s': "s' = ship_step_of b se s" and "stands_for s \<sigma>"
  shows "\<exists>\<sigma>'. (sys_step timely)\<^sup>*\<^sup>* \<sigma> \<sigma>' \<and> stands_for s' \<sigma>'"
proof -
  have "ws_db (ps_ws s') = ws_db (ps_ws s) \<or> (\<exists>ids. ws_db (ps_ws s') = snd (MarkEventsShipped (se_mark se) ids (ws_db (ps_ws s))))"
    unfolding s' ship_step_of_def shipOnce_def by (auto split: sum.splits prod.splits option.splits if_splits) (metis snd_conv)+
  then have "\<exists>\<sigma>'. (sys_step timely)\<^sup>*\<^sup>* \<sigma> \<sigma>' \<and> \<sigma>' = \<sigma>\<lparr>sy_db := ws_db (ps_ws s')\<rparr>"
  proof
    assume "ws_db (ps_ws s') = ws_db (ps_ws s)"
    with assms(2) have "\<sigma>\<lparr>sy_db := ws_db (ps_ws s')\<rparr> = \<sigma>" by (simp add: stands_for_def)
    then show ?thesis by auto
  next
    assume "\<exists>ids. ws_db (ps_ws s') = snd (MarkEventsShipped (se_mark se) ids (ws_db (ps_ws s)))"
    then obtain ids where "ws_db (ps_ws s') = snd (MarkEventsShipped (se_mark se) ids (ws_db (ps_ws s)))" by blast
    with assms(2) have "sys_step timely \<sigma> (\<sigma>\<lparr>sy_db := ws_db (ps_ws s')\<rparr>)"
      by (intro sys_act [where a = "AShip (se_mark se) ids"]) (simp add: stands_for_def)
    then show ?thesis by auto
  qed
  moreover have "stands_for s' (\<sigma>\<lparr>sy_db := ws_db (ps_ws s')\<rparr>)" using assms(2) by (simp add: stands_for_def s')
  ultimately show ?thesis by blast
qed

lemma other_simulated:
  assumes sy: "sys_exec timely b \<lparr>sy_db = ws_db (ps_ws s), sy_now = ps_now s, sy_flight = ps_others s\<rparr> = Some sy"
    "s' = s\<lparr>ps_ws := (ps_ws s)\<lparr>ws_db := sy_db sy\<rparr>, ps_now := sy_now sy, ps_others := sy_flight sy\<rparr>"
    and "stands_for s \<sigma>"
  shows "\<exists>\<sigma>'. (sys_step timely)\<^sup>*\<^sup>* \<sigma> \<sigma>' \<and> stands_for s' \<sigma>'"
proof -
  have \<sigma>: "\<sigma> = \<lparr>sy_db = ws_db (ps_ws s), sy_now = ps_now s, sy_flight = sy_flight \<sigma>\<rparr>"
    and fl: "mset (sy_flight \<sigma>) = mset (held s) + mset (ps_others s)"
    using assms(3) by (auto simp: stands_for_def)
  from sys_exec_frame [OF sy(1) fl] \<sigma> obtain a' fl' where
    "sys_exec timely a' \<sigma> = Some \<lparr>sy_db = sy_db sy, sy_now = sy_now sy, sy_flight = fl'\<rparr>" "mset fl' = mset (held s) + mset (sy_flight sy)"
    by metis
  moreover from this have "stands_for s' \<lparr>sy_db = sy_db sy, sy_now = sy_now sy, sy_flight = fl'\<rparr>"
    by (simp add: stands_for_def sy(2))
  ultimately show ?thesis using sys_act by blast
qed

lemma proc_exec_simulated:
  assumes "proc_exec timely plan h a s = Some s'" "stands_for s \<sigma>" "wf_db (sy_db \<sigma>)"
  shows "\<exists>\<sigma>'. (sys_step timely)\<^sup>*\<^sup>* \<sigma> \<sigma>' \<and> stands_for s' \<sigma>'"
proof (cases a)
  case (PClaim k t)
  then obtain iv where "phase_of k s = WPoll iv" "s' = claim_step (wp_workers plan ! k) k iv t s"
    using assms(1) by (auto split: wphase.splits)
  then show ?thesis by (intro claim_simulated [OF _ assms(2,3)])
next
  case (PReport k pe)
  then obtain j dl where j: "phase_of k s = WBusy j dl" "s' = report_step (wp_workers plan ! k) h k j pe s"
    and dl: "timely \<longrightarrow> ps_now s \<le> dl"
    using assms(1) by (auto split: wphase.splits if_splits)
  show ?thesis by (rule report_simulated [OF j assms(2) dl])
next
  case (PReap env)
  then have "s' = reap_step env s" using assms(1) by (simp split: if_splits)
  then show ?thesis by (rule reap_simulated [OF _ assms(2)])
next
  case (PShip se)
  then obtain b where "s' = ship_step_of b se s" using assms(1) by (auto split: gphase.splits option.splits)
  then show ?thesis by (rule ship_simulated [OF _ assms(2)])
next
  case (POther b)
  then obtain sy where "sys_exec timely b \<lparr>sy_db = ws_db (ps_ws s), sy_now = ps_now s, sy_flight = ps_others s\<rparr> = Some sy"
    "s' = s\<lparr>ps_ws := (ps_ws s)\<lparr>ws_db := sy_db sy\<rparr>, ps_now := sy_now sy, ps_others := sy_flight sy\<rparr>"
    using assms(1) by auto
  then show ?thesis by (rule other_simulated [OF _ _ assms(2)])
next
  case (PWake k)
  then have "stands_for s' \<sigma>" using assms(1,2) held_set_phase [of k s] by (auto simp: stands_for_def split: wphase.splits)
  then show ?thesis by blast
next
  case (PStop k)
  then have "stands_for s' \<sigma>" using assms(1,2) held_set_phase [of k s] by (auto simp: stands_for_def split: wphase.splits if_splits)
  then show ?thesis by blast
qed (use assms(1,2) in \<open>auto simp: stands_for_def split: if_splits intro!: exI [of _ \<sigma>]\<close>)

lemma start_stands_for: "stands_for (start_process plan wd sy ch) sy"
proof -
  have "concat (map (holding \<circ> (\<lambda>w. WPoll (w_pollInterval w))) ws) = []" for ws by simp
  then show ?thesis by (simp add: stands_for_def start_process_def held_def)
qed

lemma proc_simulated:
  assumes "(proc_step timely plan h)\<^sup>*\<^sup>* s0 s" "stands_for s0 \<sigma>0" "wf_db (sy_db \<sigma>0)"
  shows "\<exists>\<sigma>. (sys_step timely)\<^sup>*\<^sup>* \<sigma>0 \<sigma> \<and> stands_for s \<sigma>"
  using assms(1)
proof (induction rule: rtranclp_induct)
  case base
  with assms(2) show ?case by blast
next
  case (step s s')
  then obtain \<sigma> where \<sigma>: "(sys_step timely)\<^sup>*\<^sup>* \<sigma>0 \<sigma>" "stands_for s \<sigma>" by blast
  then have "wf_db (sy_db \<sigma>)" using any_time.reachable_inv [OF \<sigma>(1) assms(3)] by blast
  with proc_exec_simulated \<sigma> step(2) show ?case by (metis proc_stepE rtranclp_trans)
qed

text \<open>
  The worker process refines the queue: every state that the interleaved goroutines of a worker
  process, with any handlers, and the rest of the deployment reach corresponds to a reachable state
  of System with the same database and clock, whose held claims are exactly those of the process
  and of the others. When the reports come before the leases end, so do those of System.
\<close>

theorem process_refines_system:
  assumes "(sys_step timely)\<^sup>*\<^sup>* sys_init sy" "(proc_step timely plan h)\<^sup>*\<^sup>* (start_process plan wd sy ch) s"
  shows "\<exists>\<sigma>. (sys_step timely)\<^sup>*\<^sup>* sys_init \<sigma> \<and> sy_db \<sigma> = ws_db (ps_ws s) \<and> sy_now \<sigma> = ps_now s \<and>
     mset (sy_flight \<sigma>) = mset (held s) + mset (ps_others s)"
proof -
  have "wf_db (sy_db sys_init)" by (simp add: sys_init_def wf_empty_db)
  then have "wf_db (sy_db sy)" using any_time.reachable_inv [OF assms(1)] by blast
  with proc_simulated [OF assms(2) start_stands_for] assms(1) show ?thesis
    unfolding stands_for_def by (meson rtranclp_trans)
qed

text \<open>
  The worker ids of a process depend on nothing but their number, so processes with as many workers
  use the same ids, and a report that counts distinct ids counts the workers of one process only.
\<close>

theorem worker_ids_shared:
  assumes "runWork cfg we args = Inr plan" "runWork cfg' we' args' = Inr plan'"
    and "length (wp_workers plan) \<le> length (wp_workers plan')"
  shows "map w_id (wp_workers plan) = take (length (wp_workers plan)) (map w_id (wp_workers plan')) \<and>
     card (w_id ` set (wp_workers plan) \<union> w_id ` set (wp_workers plan')) \<le> length (wp_workers plan')"
proof -
  from runWork_Inr [OF assms(1)] obtain n where n: "wp_workers plan = map (new_worker cfg) [0..<nat n]" by metis
  from runWork_Inr [OF assms(2)] obtain n' where n': "wp_workers plan' = map (new_worker cfg') [0..<nat n']" by metis
  have ids: "w_id \<circ> new_worker cfg = w_id \<circ> new_worker cfg'" by (simp add: fun_eq_iff new_worker_def New_def)
  have "nat n \<le> nat n'" using assms(3) by (simp add: n n')
  then have *: "map w_id (wp_workers plan) = take (nat n) (map w_id (wp_workers plan'))"
    unfolding n n' map_map ids by (simp add: take_map)
  then have "w_id ` set (wp_workers plan) \<subseteq> w_id ` set (wp_workers plan')"
    by (metis set_map set_take_subset)
  then have "w_id ` set (wp_workers plan) \<union> w_id ` set (wp_workers plan') = set (map w_id (wp_workers plan'))" by auto
  with * show ?thesis using card_length [of "map w_id (wp_workers plan')"] by (simp add: n)
qed

section \<open>The hypotheses at a concrete run\<close>

lemma proc_run_steps: "proc_run timely plan h as s = Some s' \<Longrightarrow> (proc_step timely plan h)\<^sup>*\<^sup>* s s'"
proof (induction as arbitrary: s)
  case (Cons a as)
  then obtain s1 where s1: "proc_exec timely plan h a s = Some s1" "proc_run timely plan h as s1 = Some s'"
    by (auto split: option.splits)
  with Cons proc_act show ?case by (metis converse_rtranclp_into_rtranclp)
qed simp

definition sample_plan :: work_plan where
  "sample_plan = \<lparr>wp_pool = 5, wp_workers = [sample_worker], wp_reap_interval = 10000000000, wp_shipper = Some (5000000000, 100),
     wp_tracing = otel_start, wp_log = []\<rparr>"

definition sample_handler :: "unit handler" where
  "sample_handler j wd = (HErr ''boom'', wd)"

text \<open>A job is submitted and claimed, and the signal arrives while its handler runs.\<close>

definition sample_actions :: "proc_action list" where
  "sample_actions = [POther (ASubmit (sample_env 0) ''a'' ''{}'' ''''), PClaim 0 (sample_turn 0), PSignal]"

definition sample_start :: "unit pstate" where
  "sample_start = start_process sample_plan () sys_init []"

lemma sample_reached:
  obtains s where "(proc_step False sample_plan sample_handler)\<^sup>*\<^sup>* sample_start s" "ps_cancelled s"
    "map (\<lambda>(j, dl). (j_id j, j_attempts j, dl)) (held s) = [(1, 1, 30000000)]" "ps_others s = []"
proof -
  have "map_option (\<lambda>s. (ps_cancelled s, map (\<lambda>(j, dl). (j_id j, j_attempts j, dl)) (held s), map snd (ps_others s)))
      (proc_run False sample_plan sample_handler sample_actions sample_start) = Some (True, [(1, 1, 30000000)], [])"
    by code_simp
  then obtain s where "proc_run False sample_plan sample_handler sample_actions sample_start = Some s" "ps_cancelled s"
    "map (\<lambda>(j, dl). (j_id j, j_attempts j, dl)) (held s) = [(1, 1, 30000000)]" "ps_others s = []" by auto
  from proc_run_steps [OF this(1)] this(2-4) show ?thesis by (rule that)
qed

theorem graceful_shutdown_witness:
  "\<exists>s. held s \<noteq> [] \<and> (\<exists>as s'. proc_run False sample_plan sample_handler as s = Some s' \<and> list_all moves_on as \<and>
     length (filter moves_on as) \<le> 4 \<and> work_exit s' = Some (logs 0 [''shutdown complete'']) \<and> mset (ps_claimed s') = mset (ps_reported s'))"
proof -
  obtain s where s: "(proc_step False sample_plan sample_handler)\<^sup>*\<^sup>* sample_start s" "ps_cancelled s"
    "map (\<lambda>(j, dl). (j_id j, j_attempts j, dl)) (held s) = [(1, 1, 30000000)]" by (rule sample_reached)
  have "plan_ok sample_plan" by code_simp
  from graceful_shutdown [OF this s(1) [unfolded sample_start_def] s(2)] s(3) show ?thesis
    by (intro exI [of _ s]) (auto simp: sample_plan_def)
qed

theorem process_refines_system_witness:
  "\<exists>\<sigma>. (sys_step False)\<^sup>*\<^sup>* sys_init \<sigma> \<and> map (\<lambda>(j, dl). (j_id j, j_attempts j, dl)) (sy_flight \<sigma>) = [(1, 1, 30000000)]"
proof -
  obtain s where s: "(proc_step False sample_plan sample_handler)\<^sup>*\<^sup>* sample_start s"
    "map (\<lambda>(j, dl). (j_id j, j_attempts j, dl)) (held s) = [(1, 1, 30000000)]" "ps_others s = []" by (rule sample_reached)
  from process_refines_system [OF rtranclp.rtrancl_refl s(1) [unfolded sample_start_def]] s(3)
  obtain \<sigma> where \<sigma>: "(sys_step False)\<^sup>*\<^sup>* sys_init \<sigma>" "mset (sy_flight \<sigma>) = mset (held s)" by auto
  from s(2) obtain f where "held s = [f]" by auto
  with \<sigma>(2) have "sy_flight \<sigma> = held s" by simp
  with \<sigma>(1) s(2) show ?thesis by (intro exI [of _ \<sigma>]) simp
qed

end
