(* ===== verification/Fleet.thy ===== *)
theory Fleet
  imports Process Lifecycle
begin

text \<open>
  Several worker processes on one database and one ClickHouse table, as the deployment runs them:
  processes start with plans of their own, their goroutines interleave, any of them may be killed
  at any moment with the jobs its workers hold, and clients, the API and the clock go on beside
  them. Every such fleet behaves as the queue of theory System.
\<close>

section \<open>Fleets\<close>

record 'w fleet =
  fl_db :: db
  fl_ch :: "ch_row list"
  fl_now :: int
  fl_procs :: "(work_plan \<times> 'w pstate) list"
  fl_outside :: "(job \<times> int) list"

definition fleet_init :: "'w fleet" where
  "fleet_init = \<lparr>fl_db = empty_db, fl_ch = [], fl_now = 0, fl_procs = [], fl_outside = []\<rparr>"

definition all_held :: "(work_plan \<times> 'w pstate) list \<Rightarrow> (job \<times> int) list" where
  "all_held ps = concat (map (held \<circ> snd) ps)"

text \<open>A process before its next step: it finds the shared tables and the clock as the others left them.\<close>

definition enter :: "nat \<Rightarrow> 'w fleet \<Rightarrow> 'w pstate" where
  "enter k F =
     (let p = snd (fl_procs F ! k)
      in p\<lparr>ps_ws := (ps_ws p)\<lparr>ws_db := fl_db F\<rparr>, ps_ch := fl_ch F, ps_now := fl_now F,
           ps_others := all_held (remove_nth k (fl_procs F)) @ fl_outside F\<rparr>)"

datatype 'w fleet_action =
    FStart work_plan 'w
  | FProc nat proc_action
  | FKill nat
  | FOther sys_action

fun of_others :: "proc_action \<Rightarrow> bool" where
  "of_others (POther a) = True"
| "of_others _ = False"

fun fleet_exec :: "bool \<Rightarrow> 'w handler \<Rightarrow> 'w fleet_action \<Rightarrow> 'w fleet \<Rightarrow> 'w fleet option" where
  "fleet_exec timely h (FStart plan wd) F =
     Some (F\<lparr>fl_procs := fl_procs F @ [(plan, start_process plan wd \<lparr>sy_db = fl_db F, sy_now = fl_now F, sy_flight = []\<rparr> (fl_ch F))]\<rparr>)"
| "fleet_exec timely h (FProc k a) F =
     (if k < length (fl_procs F) \<and> \<not> of_others a \<and> work_exit (snd (fl_procs F ! k)) = None
      then map_option (\<lambda>s. F\<lparr>fl_db := ws_db (ps_ws s), fl_ch := ps_ch s, fl_procs := (fl_procs F)[k := (fst (fl_procs F ! k), s)]\<rparr>)
             (proc_exec timely (fst (fl_procs F ! k)) h a (enter k F))
      else None)"
| "fleet_exec timely h (FKill k) F =
     (if k < length (fl_procs F) then Some (F\<lparr>fl_procs := remove_nth k (fl_procs F)\<rparr>) else None)"
| "fleet_exec timely h (FOther a) F =
     map_option (\<lambda>sy. F\<lparr>fl_db := sy_db sy, fl_now := sy_now sy, fl_outside := sy_flight sy\<rparr>)
       (sys_exec timely a \<lparr>sy_db = fl_db F, sy_now = fl_now F, sy_flight = fl_outside F\<rparr>)"

inductive fleet_step :: "bool \<Rightarrow> 'w handler \<Rightarrow> 'w fleet \<Rightarrow> 'w fleet \<Rightarrow> bool" for timely h where
  fleet_act: "fleet_exec timely h a F = Some F' \<Longrightarrow> fleet_step timely h F F'"

inductive_cases fleet_stepE: "fleet_step timely h F F'"

fun fleet_run :: "bool \<Rightarrow> 'w handler \<Rightarrow> 'w fleet_action list \<Rightarrow> 'w fleet \<Rightarrow> 'w fleet option" where
  "fleet_run timely h [] F = Some F"
| "fleet_run timely h (a # as) F = (case fleet_exec timely h a F of None \<Rightarrow> None | Some F' \<Rightarrow> fleet_run timely h as F')"

lemma fleet_run_steps: "fleet_run timely h as F = Some F' \<Longrightarrow> (fleet_step timely h)\<^sup>*\<^sup>* F F'"
  by (induction as arbitrary: F) (auto intro: fleet_act converse_rtranclp_into_rtranclp split: option.splits)

section \<open>A fleet refines the queue\<close>

definition fleet_stands :: "'w fleet \<Rightarrow> sys \<Rightarrow> bool" where
  "fleet_stands F \<sigma> \<longleftrightarrow> sy_db \<sigma> = fl_db F \<and> sy_now \<sigma> = fl_now F \<and>
     mset (sy_flight \<sigma>) = mset (all_held (fl_procs F)) + mset (fl_outside F)"

lemma proc_exec_frame:
  assumes "proc_exec timely plan h a s = Some s'" "\<not> of_others a"
  shows "ps_now s' = ps_now s \<and> ps_others s' = ps_others s"
proof (cases a)
  case (PClaim k t)
  then obtain iv where iv: "phase_of k s = WPoll iv" "s' = claim_step (wp_workers plan ! k) k iv t s"
    using assms(1) by (auto split: wphase.splits)
  from iv(1) show ?thesis
    by (cases rule: claim_step_cases [where w = "wp_workers plan ! k" and t = t]) (simp_all add: iv(2))
next
  case (PReport k pe)
  then obtain j dl where j: "s' = report_step (wp_workers plan ! k) h k j pe s"
    using assms(1) by (auto split: wphase.splits if_splits)
  obtain ws where "report_step (wp_workers plan ! k) h k j pe s = set_phase k (WPoll (w_pollInterval (wp_workers plan ! k)))
       (s\<lparr>ps_ws := ws, ps_reported := (j_id j, j_attempts j) # ps_reported s\<rparr>)"
    by (rule report_step_eq)
  then show ?thesis by (simp add: j)
qed (use assms in \<open>auto split: if_splits wphase.splits gphase.splits option.splits\<close>)

lemma held_enter [simp]: "held (enter k F) = held (snd (fl_procs F ! k))"
  by (simp add: enter_def Let_def)

lemma all_held_split:
  "k < length ps \<Longrightarrow> mset (all_held ps) = mset (held (snd (ps ! k))) + mset (all_held (remove_nth k ps))"
  by (subst (1) id_take_nth_drop [of k ps]) (simp_all add: all_held_def remove_nth_def)

lemma remove_nth_update: "remove_nth k (xs[k := x]) = remove_nth k xs"
  by (simp add: remove_nth_def)

lemma all_held_update:
  "k < length ps \<Longrightarrow> mset (all_held (ps[k := x])) = mset (held (snd x)) + mset (all_held (remove_nth k ps))"
  using all_held_split [of k "ps[k := x]"] by (simp add: remove_nth_update)

text \<open>A kill is a crash of every claim the process holds.\<close>

lemma crashes:
  "mset (sy_flight \<sigma>) = mset xs + B \<Longrightarrow>
     \<exists>\<sigma>'. (sys_step timely)\<^sup>*\<^sup>* \<sigma> \<sigma>' \<and> sy_db \<sigma>' = sy_db \<sigma> \<and> sy_now \<sigma>' = sy_now \<sigma> \<and> mset (sy_flight \<sigma>') = B"
proof (induction xs arbitrary: \<sigma>)
  case Nil
  then show ?case by (intro exI [of _ \<sigma>]) simp
next
  case (Cons x xs)
  then have "x \<in> set (sy_flight \<sigma>)" by (metis mset.simps(2) set_mset_mset union_iff union_single_eq_member)
  then obtain n where n: "n < length (sy_flight \<sigma>)" "sy_flight \<sigma> ! n = x" by (metis in_set_conv_nth)
  let ?\<sigma> = "\<sigma>\<lparr>sy_flight := remove_nth n (sy_flight \<sigma>)\<rparr>"
  have "sys_step timely \<sigma> ?\<sigma>" by (rule sys_act [where a = "ACrash n"]) simp
  moreover have "mset (sy_flight ?\<sigma>) = mset xs + B" using mset_remove_nth [OF n(1)] n(2) Cons.prems by simp
  from Cons.IH [OF this] obtain \<sigma>' where "(sys_step timely)\<^sup>*\<^sup>* ?\<sigma> \<sigma>'" "sy_db \<sigma>' = sy_db \<sigma>" "sy_now \<sigma>' = sy_now \<sigma>" "mset (sy_flight \<sigma>') = B"
    by auto
  ultimately show ?case by (intro exI [of _ \<sigma>']) (auto intro: converse_rtranclp_into_rtranclp)
qed

lemma fleet_exec_simulated:
  assumes "fleet_exec timely h a F = Some F'" "fleet_stands F \<sigma>" "wf_db (sy_db \<sigma>)"
  shows "\<exists>\<sigma>'. (sys_step timely)\<^sup>*\<^sup>* \<sigma> \<sigma>' \<and> fleet_stands F' \<sigma>'"
proof (cases a)
  case (FStart plan wd)
  have "held (start_process plan wd sy ch) = []" for sy and ch
    using start_stands_for [of plan wd sy ch] by (simp add: stands_for_def start_process_def)
  then have "fleet_stands F' \<sigma>" using assms(1,2) FStart by (auto simp: fleet_stands_def all_held_def)
  then show ?thesis by blast
next
  case (FProc k b)
  let ?plan = "fst (fl_procs F ! k)"
  from FProc assms(1) obtain s where k: "k < length (fl_procs F)" and b: "\<not> of_others b"
    and s: "proc_exec timely ?plan h b (enter k F) = Some s"
    and F': "F' = F\<lparr>fl_db := ws_db (ps_ws s), fl_ch := ps_ch s, fl_procs := (fl_procs F)[k := (?plan, s)]\<rparr>"
    by (auto split: if_splits)
  have "stands_for (enter k F) \<sigma>"
    using assms(2) all_held_split [OF k] by (simp add: stands_for_def fleet_stands_def) (simp add: enter_def Let_def)
  from proc_exec_simulated [OF s this assms(3)] obtain \<sigma>' where \<sigma>': "(sys_step timely)\<^sup>*\<^sup>* \<sigma> \<sigma>'" "stands_for s \<sigma>'" by blast
  moreover have "ps_now s = fl_now F" "ps_others s = all_held (remove_nth k (fl_procs F)) @ fl_outside F"
    using proc_exec_frame [OF s b] by (simp_all add: enter_def Let_def)
  ultimately have "fleet_stands F' \<sigma>'"
    by (simp add: stands_for_def fleet_stands_def F' all_held_update [OF k])
  with \<sigma>'(1) show ?thesis by blast
next
  case (FKill k)
  then have k: "k < length (fl_procs F)" and F': "F' = F\<lparr>fl_procs := remove_nth k (fl_procs F)\<rparr>"
    using assms(1) by (auto split: if_splits)
  have "mset (sy_flight \<sigma>) = mset (held (snd (fl_procs F ! k))) + (mset (all_held (remove_nth k (fl_procs F))) + mset (fl_outside F))"
    using assms(2) all_held_split [OF k] by (simp add: fleet_stands_def)
  from crashes [OF this] assms(2) show ?thesis by (auto simp: fleet_stands_def F')
next
  case (FOther b)
  then obtain sy where sy: "sys_exec timely b \<lparr>sy_db = fl_db F, sy_now = fl_now F, sy_flight = fl_outside F\<rparr> = Some sy"
    and F': "F' = F\<lparr>fl_db := sy_db sy, fl_now := sy_now sy, fl_outside := sy_flight sy\<rparr>"
    using assms(1) by auto
  have \<sigma>: "\<sigma> = \<lparr>sy_db = fl_db F, sy_now = fl_now F, sy_flight = sy_flight \<sigma>\<rparr>"
    and fl: "mset (sy_flight \<sigma>) = mset (all_held (fl_procs F)) + mset (fl_outside F)"
    using assms(2) by (auto simp: fleet_stands_def)
  from sys_exec_frame [OF sy fl] \<sigma> obtain a' fl' where
    "sys_exec timely a' \<sigma> = Some \<lparr>sy_db = sy_db sy, sy_now = sy_now sy, sy_flight = fl'\<rparr>"
    "mset fl' = mset (all_held (fl_procs F)) + mset (sy_flight sy)"
    by metis
  moreover from this have "fleet_stands F' \<lparr>sy_db = sy_db sy, sy_now = sy_now sy, sy_flight = fl'\<rparr>"
    by (simp add: fleet_stands_def F')
  ultimately show ?thesis using sys_act by blast
qed

lemma fleet_stands_reachable:
  assumes "(fleet_step timely h)\<^sup>*\<^sup>* fleet_init F"
  shows "\<exists>\<sigma>. (sys_step timely)\<^sup>*\<^sup>* sys_init \<sigma> \<and> fleet_stands F \<sigma>"
  using assms
proof (induction rule: rtranclp_induct)
  case base
  have "fleet_stands fleet_init sys_init" by (simp add: fleet_stands_def fleet_init_def sys_init_def all_held_def)
  then show ?case by blast
next
  case (step F F')
  then obtain \<sigma> where \<sigma>: "(sys_step timely)\<^sup>*\<^sup>* sys_init \<sigma>" "fleet_stands F \<sigma>" by blast
  have "wf_db (sy_db \<sigma>)"
    using any_time.reachable_inv [OF \<sigma>(1)] by (simp add: sys_init_def wf_empty_db)
  from step(2) obtain a where "fleet_exec timely h a F = Some F'" by (rule fleet_stepE)
  from fleet_exec_simulated [OF this \<sigma>(2) \<open>wf_db (sy_db \<sigma>)\<close>] \<sigma>(1) show ?case by (meson rtranclp_trans)
qed

text \<open>
  C13. A fleet of worker processes refines the queue: whatever processes are started, with whatever
  plans and handlers, however their goroutines interleave, whichever are killed and whatever the
  clients and the clock do beside them, the tables and the clock are those of a reachable state of
  System, whose held claims are exactly those of the living processes and of the others. So what
  holds of the queue holds of every fleet.
\<close>

theorem fleet_refines_system:
  assumes "(fleet_step timely h)\<^sup>*\<^sup>* fleet_init F"
  shows "\<exists>\<sigma>. (sys_step timely)\<^sup>*\<^sup>* sys_init \<sigma> \<and> sy_db \<sigma> = fl_db F \<and> sy_now \<sigma> = fl_now F \<and>
     mset (sy_flight \<sigma>) = mset (concat (map (held \<circ> snd) (fl_procs F))) + mset (fl_outside F)"
  using fleet_stands_reachable [OF assms] by (simp add: fleet_stands_def all_held_def)

text \<open>
  C5. Killing workers loses no job: take any state of a fleet whose workers report in time and kill
  all of its processes with the jobs they hold. One reaper and one poll for each round, with no
  worker that ever reports, still bring every job of the table to an end, in at most eleven rounds
  for each job, and no job disappears.
\<close>

theorem killed_fleet_loses_no_job:
  assumes "(fleet_step True h)\<^sup>*\<^sup>* fleet_init F"
  shows "\<exists>rs s'. run_rounds rs \<lparr>sy_db = fl_db F, sy_now = fl_now F, sy_flight = []\<rparr> = Some s' \<and> no_submits rs \<and>
     length rs = 11 * length (jobs (fl_db F)) \<and> map r_id (jobs (sy_db s')) = map r_id (jobs (fl_db F)) \<and>
     list_all (\<lambda>r. r_status r = StatusCompleted \<or> r_status r = StatusFailed) (jobs (sy_db s'))"
proof -
  let ?s = "\<lparr>sy_db = fl_db F, sy_now = fl_now F, sy_flight = []\<rparr>"
  from fleet_stands_reachable [OF assms] obtain \<sigma> where \<sigma>: "(sys_step True)\<^sup>*\<^sup>* sys_init \<sigma>" "fleet_stands F \<sigma>" by blast
  have "mset (sy_flight \<sigma>) = mset (sy_flight \<sigma>) + {#}" by simp
  from crashes [OF this] obtain \<sigma>' where
    "(sys_step True)\<^sup>*\<^sup>* \<sigma> \<sigma>'" "sy_db \<sigma>' = sy_db \<sigma>" "sy_now \<sigma>' = sy_now \<sigma>" "mset (sy_flight \<sigma>') = {#}" by blast
  moreover from this \<sigma>(2) have "\<sigma>' = ?s" by (simp add: fleet_stands_def)
  ultimately have s: "(sys_step True)\<^sup>*\<^sup>* sys_init ?s" using \<sigma>(1) by simp
  note inv = life_reachable(1) [OF s]
  obtain rs s' where rs: "length rs = 11 * length (jobs (fl_db F))" "no_submits rs" "run_rounds rs ?s = Some s'"
    using plain_rounds [OF inv] by blast
  have "\<forall>r \<in> set (jobs (sy_db s')). r_status r = StatusCompleted \<or> r_status r = StatusFailed"
    by (rule rounds_finish [OF s rs(2,3)]) (simp add: rs(1))
  moreover have "map r_id (jobs (sy_db s')) = map r_id (jobs (fl_db F))"
    using job_key_ids [OF rounds_keep_jobs [OF rs(3) inv rs(2)]] by simp
  ultimately show ?thesis using rs unfolding list_all_iff by blast
qed

section \<open>The hypotheses at a concrete run\<close>

text \<open>Two processes; the first claims a job and is killed, the lease ends, and the second reclaims it.\<close>

definition fleet_trace :: "unit fleet_action list" where
  "fleet_trace = [FOther (ASubmit (sample_env 0) ''a'' ''{}'' ''''), FStart sample_plan (), FStart sample_plan (),
     FProc 0 (PClaim 0 (sample_turn 0)), FKill 0, FOther (ATick 31000000), FProc 0 (PReap (sample_env 0)),
     FProc 0 (PClaim 0 (sample_turn 0))]"

definition claims_seen :: "(job \<times> int) list \<Rightarrow> (int \<times> int \<times> int) list" where
  "claims_seen = map (\<lambda>(j, dl). (j_id j, j_attempts j, dl))"

theorem fleet_refines_system_witness:
  "\<exists>F \<sigma>. fleet_run True sample_handler fleet_trace fleet_init = Some F \<and> (sys_step True)\<^sup>*\<^sup>* sys_init \<sigma> \<and>
     claims_seen (sy_flight \<sigma>) = [(1, 2, 61000000)]"
proof -
  have "map_option (\<lambda>F. (claims_seen (all_held (fl_procs F)), length (fl_outside F)))
      (fleet_run True sample_handler fleet_trace fleet_init) = Some ([(1, 2, 61000000)], 0)"
    by code_simp
  then obtain F where F: "fleet_run True sample_handler fleet_trace fleet_init = Some F"
    "claims_seen (all_held (fl_procs F)) = [(1, 2, 61000000)]" "fl_outside F = []"
    by (auto simp del: fleet_run.simps)
  from fleet_refines_system [OF fleet_run_steps [OF F(1)]] F(3) obtain \<sigma> where
    \<sigma>: "(sys_step True)\<^sup>*\<^sup>* sys_init \<sigma>" "mset (sy_flight \<sigma>) = mset (all_held (fl_procs F))"
    unfolding all_held_def by auto
  from F(2) obtain f where "all_held (fl_procs F) = [f]" by (auto simp: claims_seen_def)
  with \<sigma>(2) have "sy_flight \<sigma> = all_held (fl_procs F)" by simp
  with F \<sigma>(1) show ?thesis by metis
qed

theorem killed_fleet_loses_no_job_witness:
  "\<exists>F rs s'. fleet_run True sample_handler fleet_trace fleet_init = Some F \<and>
     run_rounds rs \<lparr>sy_db = fl_db F, sy_now = fl_now F, sy_flight = []\<rparr> = Some s' \<and>
     map r_id (jobs (sy_db s')) = [1] \<and> list_all (\<lambda>r. r_status r = StatusCompleted \<or> r_status r = StatusFailed) (jobs (sy_db s'))"
proof -
  have "map_option (\<lambda>F. map r_id (jobs (fl_db F))) (fleet_run True sample_handler fleet_trace fleet_init) = Some [1]"
    by code_simp
  then obtain F where F: "fleet_run True sample_handler fleet_trace fleet_init = Some F" "map r_id (jobs (fl_db F)) = [1]"
    by (auto simp del: fleet_run.simps)
  from killed_fleet_loses_no_job [OF fleet_run_steps [OF F(1)]] obtain rs s' where
    "run_rounds rs \<lparr>sy_db = fl_db F, sy_now = fl_now F, sy_flight = []\<rparr> = Some s'"
    "map r_id (jobs (sy_db s')) = map r_id (jobs (fl_db F))"
    "list_all (\<lambda>r. r_status r = StatusCompleted \<or> r_status r = StatusFailed) (jobs (sy_db s'))" by blast
  with F show ?thesis by (intro exI [of _ F] exI [of _ rs] exI [of _ s']) simp
qed

end
