(* ===== verification/Observability.thy ===== *)
theory Observability
  imports Process
begin

text \<open>
  What tracing, ClickHouse and the metrics endpoint can do to the processes of cmd/jobqueue/main.go:
  nothing but log. Their failures change neither the plan of the worker process nor whether the API
  comes up, and the HTTP server that answers scrapes, which runs beside the goroutines of
  \<open>runWork\<close>, only reads.
\<close>

section \<open>Starting up without them\<close>

definition same_core :: "work_env \<Rightarrow> work_env \<Rightarrow> bool" where
  "same_core we we' \<longleftrightarrow> we_parse_config we = we_parse_config we' \<and> we_pool_err we = we_pool_err we' \<and>
     we_ping_err we = we_ping_err we' \<and> we_listen_err we = we_listen_err we'"

definition core_of :: "work_plan \<Rightarrow> int \<times> worker list \<times> duration" where
  "core_of plan = (wp_pool plan, wp_workers plan, wp_reap_interval plan)"

text \<open>
  C25. Observability is optional: whatever the exporter of traces and ClickHouse answer at start-up,
  the worker process either exits with the same code and output or starts the same workers over
  the same pool with the same reaper, and the API exits or listens all the same.
\<close>

theorem observability_is_optional:
  assumes "same_core we we'"
  shows "map_sum (\<lambda>out. (out_code out, out_stdout out, out_stderr out)) core_of (runWork cfg we args) =
       map_sum (\<lambda>out. (out_code out, out_stdout out, out_stderr out)) core_of (runWork cfg we' args) \<and>
     map_sum out_code (\<lambda>_. ()) (fst (runServe cfg we)) = map_sum out_code (\<lambda>_. ()) (fst (runServe cfg we'))"
proof
  note same = assms [unfolded same_core_def]
  show "map_sum (\<lambda>out. (out_code out, out_stdout out, out_stderr out)) core_of (runWork cfg we args) =
      map_sum (\<lambda>out. (out_code out, out_stdout out, out_stderr out)) core_of (runWork cfg we' args)"
    using same
    by (simp add: runWork_def Let_def core_of_def exits_def logs_def split: flag_result.split prod.split sum.split option.split)
  show "map_sum out_code (\<lambda>_. ()) (fst (runServe cfg we)) = map_sum out_code (\<lambda>_. ()) (fst (runServe cfg we'))"
    using same by (simp add: runServe_def logs_def split: prod.split sum.split option.split)
qed

section \<open>The metrics endpoint\<close>

text \<open>
  The server of \<open>promhttp\<close> beside the process: listening, failed (logged and left at that), or shut
  down after the signal. A scrape answers with the samples of the store collector and the
  instruments of the process as they are at that moment.
\<close>

datatype mphase = MServing | MFailed | MClosed

record 'w work_state =
  wk_proc :: "'w pstate"
  wk_server :: mphase
  wk_scrapes :: "(sample list \<times> metrics) list"
  wk_log :: "string list"

datatype work_action =
    KProc proc_action
  | KScrape scrape_env
  | KListenErr string
  | KShutdown

definition start_work :: "work_plan \<Rightarrow> 'w \<Rightarrow> sys \<Rightarrow> ch_row list \<Rightarrow> 'w work_state" where
  "start_work plan wd sy ch = \<lparr>wk_proc = start_process plan wd sy ch, wk_server = MServing, wk_scrapes = [], wk_log = []\<rparr>"

definition scrape :: "scrape_env \<Rightarrow> 'w pstate \<Rightarrow> (sample list \<times> metrics) option \<times> string list" where
  "scrape se p =
     (case Collect RegisterStoreCollector se (ws_db (ps_ws p)) of
        None \<Rightarrow> (None, [])
      | Some (ms, l) \<Rightarrow> (Some (ms, ws_metrics (ps_ws p)), l))"

fun work_exec :: "bool \<Rightarrow> work_plan \<Rightarrow> 'w handler \<Rightarrow> work_action \<Rightarrow> 'w work_state \<Rightarrow> 'w work_state option" where
  "work_exec timely plan h (KProc a) s =
     (if work_exit (wk_proc s) \<noteq> None then None
      else map_option (\<lambda>p. s\<lparr>wk_proc := p\<rparr>) (proc_exec timely plan h a (wk_proc s)))"
| "work_exec timely plan h (KScrape se) s =
     (if work_exit (wk_proc s) \<noteq> None \<or> wk_server s \<noteq> MServing then None
      else case scrape se (wk_proc s) of (res, l) \<Rightarrow>
        Some (s\<lparr>wk_scrapes := (case res of None \<Rightarrow> [] | Some r \<Rightarrow> [r]) @ wk_scrapes s, wk_log := wk_log s @ l\<rparr>))"
| "work_exec timely plan h (KListenErr e) s =
     (if work_exit (wk_proc s) \<noteq> None \<or> wk_server s \<noteq> MServing then None
      else Some (s\<lparr>wk_server := MFailed, wk_log := wk_log s @ [''metrics server failed'']\<rparr>))"
| "work_exec timely plan h KShutdown s =
     (if work_exit (wk_proc s) \<noteq> None \<or> \<not> ps_cancelled (wk_proc s) \<or> wk_server s \<noteq> MServing then None
      else Some (s\<lparr>wk_server := MClosed\<rparr>))"

inductive work_step :: "bool \<Rightarrow> work_plan \<Rightarrow> 'w handler \<Rightarrow> 'w work_state \<Rightarrow> 'w work_state \<Rightarrow> bool" for timely plan h where
  work_act: "work_exec timely plan h a s = Some s' \<Longrightarrow> work_step timely plan h s s'"

inductive_cases work_stepE: "work_step timely plan h s s'"

fun work_run :: "bool \<Rightarrow> work_plan \<Rightarrow> 'w handler \<Rightarrow> work_action list \<Rightarrow> 'w work_state \<Rightarrow> 'w work_state option" where
  "work_run timely plan h [] s = Some s"
| "work_run timely plan h (a # as) s =
     (case work_exec timely plan h a s of None \<Rightarrow> None | Some s' \<Rightarrow> work_run timely plan h as s')"

section \<open>Scrapes only read\<close>

lemma work_exec_proc:
  "work_exec timely plan h a s = Some s' \<Longrightarrow> (proc_step timely plan h)\<^sup>=\<^sup>= (wk_proc s) (wk_proc s')"
  by (cases a) (auto split: if_splits prod.splits intro: proc_act)

text \<open>The process without its server, and the states each answer was read from.\<close>

definition faithful :: "('w pstate \<Rightarrow> bool) \<Rightarrow> 'w work_state \<Rightarrow> bool" where
  "faithful reached s \<longleftrightarrow> reached (wk_proc s) \<and>
     (\<forall>r \<in> set (wk_scrapes s). \<exists>p se. reached p \<and> fst (scrape se p) = Some r)"

lemma work_exec_faithful:
  assumes "work_exec timely plan h a s = Some s'" "faithful ((proc_step timely plan h)\<^sup>*\<^sup>* p0) s"
  shows "faithful ((proc_step timely plan h)\<^sup>*\<^sup>* p0) s'"
proof -
  have "(proc_step timely plan h)\<^sup>*\<^sup>* p0 (wk_proc s')"
    using work_exec_proc [OF assms(1)] assms(2) by (auto simp: faithful_def intro: rtranclp.rtrancl_into_rtrancl)
  moreover have "\<forall>r \<in> set (wk_scrapes s'). r \<in> set (wk_scrapes s) \<or> (\<exists>se. fst (scrape se (wk_proc s)) = Some r)"
    using assms(1) by (cases a) (auto split: if_splits prod.splits option.splits, metis fst_conv)
  moreover have "(proc_step timely plan h)\<^sup>*\<^sup>* p0 (wk_proc s)"
    "\<forall>r \<in> set (wk_scrapes s). \<exists>p se. (proc_step timely plan h)\<^sup>*\<^sup>* p0 p \<and> fst (scrape se p) = Some r"
    using assms(2) by (simp_all add: faithful_def)
  ultimately show ?thesis unfolding faithful_def by blast
qed

interpretation server: step_invariant "work_step timely plan h" "faithful ((proc_step timely plan h)\<^sup>*\<^sup>* p0)" for timely plan h p0
  by unfold_locales (auto elim: work_stepE intro: work_exec_faithful)

text \<open>
  The metrics endpoint only reads: whatever is scraped, and also when its server cannot listen,
  the workers, reaper and shipper of the process go through states they reach without it, and every
  answer to a scrape is the reading of one such state.
\<close>

theorem metrics_server_only_reads:
  assumes "(work_step timely plan h)\<^sup>*\<^sup>* (start_work plan wd sy ch) s"
  shows "(proc_step timely plan h)\<^sup>*\<^sup>* (start_process plan wd sy ch) (wk_proc s) \<and>
     (\<forall>r \<in> set (wk_scrapes s). \<exists>p se. (proc_step timely plan h)\<^sup>*\<^sup>* (start_process plan wd sy ch) p \<and> fst (scrape se p) = Some r)"
  using server.reachable_inv [OF assms, of "start_process plan wd sy ch"] by (simp add: faithful_def start_work_def)

section \<open>The hypotheses at a concrete run\<close>

text \<open>ClickHouse and the collector of traces are down.\<close>

definition blind_work :: work_env where
  "blind_work = sample_work\<lparr>we_ch_ping := (\<lambda>_. Some ''refused''), we_exporter := (\<lambda>_. Some ''refused'')\<rparr>"

theorem observability_is_optional_witness:
  "map_sum out_code core_of (runWork sample_config sample_work [''-workers=3'']) =
   map_sum out_code core_of (runWork sample_config blind_work [''-workers=3'']) \<and>
   map_sum (\<lambda>_. ()) wp_shipper (runWork sample_config blind_work [''-workers=3'']) = Inr None"
proof -
  have "same_core sample_work blind_work" by (simp add: same_core_def blind_work_def)
  from observability_is_optional [OF this, of sample_config "[''-workers=3'']"]
  have "map_sum fst id (map_sum (\<lambda>out. (out_code out, out_stdout out, out_stderr out)) core_of (runWork sample_config sample_work [''-workers=3''])) =
      map_sum fst id (map_sum (\<lambda>out. (out_code out, out_stdout out, out_stderr out)) core_of (runWork sample_config blind_work [''-workers=3'']))"
    by simp
  then have "map_sum out_code core_of (runWork sample_config sample_work [''-workers=3'']) =
      map_sum out_code core_of (runWork sample_config blind_work [''-workers=3''])"
    by (simp add: sum.map_comp comp_def)
  moreover have "map_sum (\<lambda>_. ()) wp_shipper (runWork sample_config blind_work [''-workers=3'']) = Inr None" by code_simp
  ultimately show ?thesis ..
qed

text \<open>A job is submitted and scraped, its worker claims it, the endpoint fails.\<close>

definition sample_scrape_env :: scrape_env where
  "sample_scrape_env = \<lparr>sc_depth = sample_env 0, sc_running = sample_env 0, sc_lag = sample_env 0, sc_order = (\<lambda>_. 0), sc_now_ns = 0\<rparr>"

definition work_trace :: "work_action list" where
  "work_trace = [KProc (POther (ASubmit (sample_env 0) ''a'' ''{}'' '''')), KScrape sample_scrape_env,
     KProc (PClaim 0 (sample_turn 0)), KListenErr ''in use'']"

lemma work_run_steps: "work_run timely plan h as s = Some s' \<Longrightarrow> (work_step timely plan h)\<^sup>*\<^sup>* s s'"
proof (induction as arbitrary: s)
  case (Cons a as)
  then obtain s1 where s1: "work_exec timely plan h a s = Some s1" "work_run timely plan h as s1 = Some s'"
    by (auto split: option.splits)
  with Cons work_act show ?case by (metis converse_rtranclp_into_rtranclp)
qed simp

theorem metrics_server_only_reads_witness:
  "\<exists>s. work_run True sample_plan sample_handler work_trace (start_work sample_plan () sys_init []) = Some s \<and>
     length (wk_scrapes s) = 1 \<and> (proc_step True sample_plan sample_handler)\<^sup>*\<^sup>* (start_process sample_plan () sys_init []) (wk_proc s)"
proof -
  have "map_option (\<lambda>s. length (wk_scrapes s)) (work_run True sample_plan sample_handler work_trace (start_work sample_plan () sys_init [])) = Some 1"
    by code_simp
  then obtain s where s: "work_run True sample_plan sample_handler work_trace (start_work sample_plan () sys_init []) = Some s"
    "length (wk_scrapes s) = 1" unfolding map_option_eq_Some by blast
  from metrics_server_only_reads [OF work_run_steps [OF s(1)]] s show ?thesis by blast
qed

end
