(* ===== verification/Backlog.thy ===== *)
theory Backlog
  imports Lifecycle Reports
begin

text \<open>
  What the backlog report shows of a queue whose workers report in time. Every event of its log
  falls on a job that is not finished yet, so each job has one arrival and, once finished, one
  departure, and the report counts the unfinished jobs.
\<close>

section \<open>Logs in which finished jobs stay finished\<close>

fun finished :: "job_view option \<Rightarrow> bool" where
  "finished (Some (s, n, e)) = (s = StatusCompleted \<or> s = StatusFailed)"
| "finished None = False"

fun open_from :: "(int \<Rightarrow> job_view option) \<Rightarrow> 'a event_scheme list \<Rightarrow> bool" where
  "open_from v [] = True"
| "open_from v (e # es) = (\<not> finished (v (e_job_id e)) \<and> open_from (apply_event e v) es)"

text \<open>A log that follows the life of a job does.\<close>

lemma life_open: "life_from v es \<Longrightarrow> open_from v es"
proof (induction es arbitrary: v)
  case (Cons e es)
  then have "\<not> finished (v (e_job_id e))"
    by (cases "v (e_job_id e)"; cases "e_event_type e") auto
  with Cons show ?case by simp
qed simp

lemma unfinished_view: "finished (Some (row_view r)) \<longleftrightarrow> \<not> unfinished r"
  by (cases "r_status r") (simp_all add: row_view_def unfinished_def)

section \<open>Arrivals and departures of an open log\<close>

definition departs :: "event_type \<Rightarrow> bool" where
  "departs t \<longleftrightarrow> t = EventCompleted \<or> t = EventFailed \<or> t = EventReapedFailed"

lemma finished_apply:
  "finished (apply_event e v i) = (if i = e_job_id e then departs (e_event_type e) else finished (v i))"
  by (cases "e_event_type e") (simp_all add: apply_event_def departs_def)

text \<open>Each arrival brings a new job, each departure finishes one that was not.\<close>

lemma open_log_counts:
  assumes "legal_from v es" "open_from v es" "finite (dom v)"
  shows "card (dom (fold apply_event es v)) = card (dom v) + length (filter (\<lambda>e. e_event_type e = EventEnqueued) es) \<and>
     card {i. finished (fold apply_event es v i)} = card {i. finished (v i)} + length (filter (\<lambda>e. departs (e_event_type e)) es) \<and>
     finite (dom (fold apply_event es v))"
  using assms
proof (induction es arbitrary: v)
  case (Cons e es)
  let ?v = "apply_event e v" and ?i = "e_job_id e"
  have dom: "dom ?v = insert ?i (dom v)" by (simp add: apply_event_def)
  have new: "e_event_type e = EventEnqueued \<longleftrightarrow> ?i \<notin> dom v"
    using Cons.prems(1) by (auto simp: legal_event_def domIff split: option.splits)
  have fin: "{i. finished (?v i)} = (if departs (e_event_type e) then insert ?i {i. finished (v i)} else {i. finished (v i)})"
    using Cons.prems(2) by (auto simp: finished_apply split: if_splits)
  have sub: "{i. finished (v i)} \<subseteq> dom v" by (auto simp: domIff elim: finished.elims)
  have c1: "card (dom ?v) = card (dom v) + (if e_event_type e = EventEnqueued then 1 else 0)"
    using Cons.prems(3) new by (simp add: dom insert_absorb)
  have c2: "card {i. finished (?v i)} = card {i. finished (v i)} + (if departs (e_event_type e) then 1 else 0)"
    using Cons.prems(2) finite_subset [OF sub Cons.prems(3)] by (simp add: fin)
  from Cons.IH [of ?v] Cons.prems c1 c2 show ?case by (simp add: dom)
qed simp

definition balance :: "'a event_scheme list \<Rightarrow> int" where
  "balance es = int (length (filter (\<lambda>e. e_event_type e = EventEnqueued) es)) -
     int (length (filter (\<lambda>e. departs (e_event_type e)) es))"

lemma card_jobs: "jobs_ok db \<Longrightarrow> card (r_id ` {r \<in> set (jobs db). p r}) = length (filter p (jobs db))"
proof -
  assume ok: "jobs_ok db"
  then have "distinct (map r_id (filter p (jobs db)))" by (simp add: jobs_ok_def distinct_map_filter)
  from distinct_card [OF this] show ?thesis by simp
qed

lemma life_log_balance:
  assumes "wf_db db" "life_log db"
  shows "balance (job_events db) = int (length (filter unfinished (jobs db)))"
proof -
  have ok: "jobs_ok db" and legal: "legal_from Map.empty (job_events db)"
    and log: "fold apply_event (job_events db) Map.empty = table_view db"
    using assms(1) by (simp_all add: wf_db_def legal_ok_def log_ok_def replay_def)
  have look: "lookup_job (r_id r) db = Some r" if "r \<in> set (jobs db)" for r
    using ok that by (simp add: lookup_job_def find_key_Some_iff jobs_ok_def)
  have rows: "r \<in> set (jobs db) \<and> r_id r = i" if "lookup_job i db = Some r" for i r
    using that by (auto simp: lookup_job_def find_Some_iff)
  have "dom (table_view db) = r_id ` {r \<in> set (jobs db). True}"
    using look rows by (force simp: table_view_def dom_def)
  moreover have "{i. finished (table_view db i)} = r_id ` {r \<in> set (jobs db). \<not> unfinished r}"
  proof (intro set_eqI iffI)
    fix i assume "i \<in> {i. finished (table_view db i)}"
    then obtain r where "lookup_job i db = Some r" "\<not> unfinished r"
      by (cases "lookup_job i db") (auto simp: table_view_def unfinished_view)
    with rows show "i \<in> r_id ` {r \<in> set (jobs db). \<not> unfinished r}" by blast
  qed (use look in \<open>auto simp: table_view_def unfinished_view\<close>)
  ultimately have "length (jobs db) = length (filter (\<lambda>e. e_event_type e = EventEnqueued) (job_events db))"
    "length (filter (\<lambda>r. \<not> unfinished r) (jobs db)) = length (filter (\<lambda>e. departs (e_event_type e)) (job_events db))"
    using open_log_counts [OF legal life_open [OF assms(2) [unfolded life_log_def]]] card_jobs [OF ok]
      card_jobs [OF ok, of "\<lambda>_. True"] by (simp_all add: log)
  with sum_length_filter_compl [of unfinished "jobs db"] show ?thesis by (simp add: balance_def)
qed

section \<open>The report\<close>

lemma kind_to_ch [simp]:
  "is_arrival (to_ch e) \<longleftrightarrow> e_event_type e = EventEnqueued" "is_departure (to_ch e) \<longleftrightarrow> departs (e_event_type e)"
  by (cases "e_event_type e"; simp add: is_arrival_def is_departure_def departs_def to_ch_def)+

lemma countIf_mset: "mset xs = mset ys \<Longrightarrow> countIf p xs = countIf p ys"
  unfolding countIf_def by (metis mset_filter size_mset)

lemma balance_to_ch:
  "countIf is_arrival (map to_ch es) - countIf is_departure (map to_ch es) = balance es"
  by (simp add: balance_def countIf_def filter_map comp_def)

lemma running_sum_last:
  "xs \<noteq> [] \<Longrightarrow> running_sum acc xs \<noteq> [] \<and> bp_CumulativeBacklog (last (running_sum acc xs)) = acc + sum_list (map (snd \<circ> snd) xs)"
proof (induction acc xs rule: running_sum.induct)
  case (2 acc b workers net rows)
  then show ?case by (cases rows) auto
qed simp

text \<open>
  C20. The backlog report is right: in every state a queue of timely workers reaches, over a
  ClickHouse table that holds every event once and a window that covers them, the last backlog
  the report shows is the number of jobs that are queued or running.
\<close>

theorem backlog_is_unfinished_jobs:
  assumes "(sys_step True)\<^sup>*\<^sup>* sys_init s" "mset ch = mset (map to_ch (job_events (sy_db s)))"
    and "in_window env window ch = ch" "BacklogVsWorkers env window bucket ch = Inr points" "points \<noteq> []"
  shows "bp_CumulativeBacklog (last points) = int (length (filter unfinished (jobs (sy_db s))))"
proof -
  let ?g = "group_by (start_of_interval (re_seconds env bucket)) ch"
  let ?xs = "map (\<lambda>(b, rows). (b, re_uniq env (map c_worker_id (filter (\<lambda>r. c_event_type r = ''claimed'') rows)),
      countIf is_arrival rows - countIf is_departure rows)) ?g"
  note life_reachable(2,4) [OF assms(1)]
  then have bal: "balance (job_events (sy_db s)) = int (length (filter unfinished (jobs (sy_db s))))"
    by (rule life_log_balance)
  have points: "points = running_sum 0 ?xs"
    using assms(4) unfolding BacklogVsWorkers_def assms(3) by (auto simp: Let_def select_rows_def split: if_splits option.splits)
  then have "?xs \<noteq> []" using assms(5) by auto
  from running_sum_last [OF this, of 0]
  have "bp_CumulativeBacklog (last points) =
      sum_list (map (\<lambda>(b, rows). countIf is_arrival rows) ?g) - sum_list (map (\<lambda>(b, rows). countIf is_departure rows) ?g)"
    by (simp add: points comp_def case_prod_beta' sum_list_subtractf)
  also have "\<dots> = balance (job_events (sy_db s))"
    unfolding group_by_total using balance_to_ch [of "job_events (sy_db s)"] by (simp add: countIf_mset [OF assms(2)])
  finally show ?thesis using bal by simp
qed

section \<open>The hypotheses at a concrete run\<close>

text \<open>Two jobs are submitted, one is completed: the report shows one.\<close>

definition backlog_trace :: "sys_action list" where
  "backlog_trace = [ASubmit (sample_env 0) ''a'' ''{}'' '''', ASubmit (sample_env 0) ''b'' ''{}'' '''',
     AClaim (sample_env 0) ''w'' sample_lease, AReport 0 sample_worker HNil (sample_proc 0)]"

definition backlog_state :: sys where
  "backlog_state = (case sys_run True backlog_trace sys_init of None \<Rightarrow> sys_init | Some s \<Rightarrow> s)"

lemma backlog_reachable: "(sys_step True)\<^sup>*\<^sup>* sys_init backlog_state"
proof -
  have "sys_run True backlog_trace sys_init \<noteq> None" by code_simp
  then obtain s where "sys_run True backlog_trace sys_init = Some s" by blast
  then show ?thesis by (simp add: backlog_state_def sys_run_steps)
qed

definition backlog_rows :: "ch_row list" where
  "backlog_rows = map to_ch (job_events (sy_db backlog_state))"

theorem backlog_is_unfinished_jobs_witness:
  "\<exists>points. BacklogVsWorkers sample_report_env 200000000000 10000000000 backlog_rows = Inr points \<and>
     map c_event_type backlog_rows = [''enqueued'', ''enqueued'', ''claimed'', ''completed''] \<and>
     bp_CumulativeBacklog (last points) = 1"
proof -
  have "map_sum (\<lambda>_. ()) (\<lambda>ps. ps \<noteq> []) (BacklogVsWorkers sample_report_env 200000000000 10000000000 backlog_rows) = Inr True"
    by code_simp
  then obtain points where points: "BacklogVsWorkers sample_report_env 200000000000 10000000000 backlog_rows = Inr points"
    "points \<noteq> []"
    by (cases "BacklogVsWorkers sample_report_env 200000000000 10000000000 backlog_rows") auto
  have window: "in_window sample_report_env 200000000000 backlog_rows = backlog_rows" by code_simp
  have "length (filter unfinished (jobs (sy_db backlog_state))) = 1" by code_simp
  moreover have "map c_event_type backlog_rows = [''enqueued'', ''enqueued'', ''claimed'', ''completed'']" by code_simp
  moreover have "bp_CumulativeBacklog (last points) = int (length (filter unfinished (jobs (sy_db backlog_state))))"
    by (rule backlog_is_unfinished_jobs [OF backlog_reachable _ window points]) (simp add: backlog_rows_def)
  ultimately show ?thesis using points(1) by simp
qed

end
