(* ===== verification/EndToEnd.thy ===== *)
theory EndToEnd
  imports Process
begin

text \<open>
  Statements that span the components: what ClickHouse tells about the jobs table once everything
  is shipped, and a write_file job from its submission to the file it leaves.
\<close>

section \<open>Jobs rebuilt from ClickHouse\<close>

text \<open>A row read back as an event: the type by its string, the instant from its milliseconds.\<close>

definition all_events :: "event_type list" where
  "all_events = [EventEnqueued, EventClaimed, EventCompleted, EventRetried, EventFailed, EventReapedRetry, EventReapedFailed]"

definition from_ch :: "ch_row \<Rightarrow> event" where
  "from_ch r = \<lparr>e_id = c_event_id r, e_job_id = c_job_id r, e_job_type = c_job_type r,
     e_event_type = hd (filter (\<lambda>t. event_string t = c_event_type r) all_events @ all_events),
     e_attempts = c_attempts r, e_worker_id = c_worker_id r, e_error_message = c_error_message r,
     e_occurred_at = c_occurred_at r * 1000\<rparr>"

definition view_attempts :: "(int \<Rightarrow> job_view option) \<Rightarrow> int \<Rightarrow> int" where
  "view_attempts v i = (case v i of None \<Rightarrow> 0 | Some (s, n, e) \<Rightarrow> n)"

lemma event_type_read_back: "hd (filter (\<lambda>t'. t' = t) all_events @ all_events) = t"
  by (cases t) (simp_all add: all_events_def)

lemma apply_from_ch:
  "go_uint32 (e_attempts e) = e_attempts e \<Longrightarrow> apply_event (from_ch (to_ch e)) = apply_event e"
  by (simp add: fun_eq_iff apply_event_def from_ch_def to_ch_def event_type_read_back)

text \<open>In a legal history attempts only grow, so those of an event are at most those of the job.\<close>

lemma legal_attempts_grow:
  assumes "legal_from v es" "\<forall>i. 0 \<le> view_attempts v i"
  shows "(\<forall>i. view_attempts v i \<le> view_attempts (fold apply_event es v) i) \<and>
    (\<forall>e \<in> set es. 0 \<le> e_attempts e \<and> e_attempts e \<le> view_attempts (fold apply_event es v) (e_job_id e))"
  using assms
proof (induction es arbitrary: v)
  case (Cons e es)
  let ?v = "apply_event e v"
  have e: "view_attempts ?v (e_job_id e) = e_attempts e"
    and other: "i \<noteq> e_job_id e \<Longrightarrow> view_attempts ?v i = view_attempts v i" for i
    by (simp_all add: view_attempts_def apply_event_def)
  have "view_attempts v (e_job_id e) \<le> e_attempts e"
    using Cons.prems(1) by (auto simp: view_attempts_def legal_event_def split: option.splits if_splits)
  then have step: "view_attempts v i \<le> view_attempts ?v i" for i
    by (cases "i = e_job_id e") (simp_all add: e other)
  then have pos: "\<forall>i. 0 \<le> view_attempts ?v i" using Cons.prems(2) by (meson order_trans)
  have IH: "\<forall>i. view_attempts ?v i \<le> view_attempts (fold apply_event es ?v) i"
    "\<forall>e \<in> set es. 0 \<le> e_attempts e \<and> e_attempts e \<le> view_attempts (fold apply_event es ?v) (e_job_id e)"
    using Cons.IH [OF _ pos] Cons.prems(1) by simp_all
  have "\<forall>i. view_attempts v i \<le> view_attempts (fold apply_event (e # es) v) i"
    using IH(1) step by (metis fold_simps(2) order_trans)
  moreover have "0 \<le> e_attempts e \<and> e_attempts e \<le> view_attempts (fold apply_event es ?v) (e_job_id e)"
    using IH(1) pos e by metis
  ultimately show ?case using IH(2) by simp
qed simp

lemma wf_event_attempts:
  assumes "wf_db db" "e \<in> set (job_events db)"
  shows "0 \<le> e_attempts e \<and> e_attempts e \<le> int4_max"
proof -
  have legal: "legal_from Map.empty (job_events db)" and log: "replay (job_events db) = table_view db"
    using assms(1) by (simp_all add: wf_db_def legal_ok_def log_ok_def)
  have "0 \<le> e_attempts e \<and> e_attempts e \<le> view_attempts (table_view db) (e_job_id e)"
    using legal_attempts_grow [OF legal] assms(2) by (simp add: view_attempts_def replay_def [symmetric] log)
  moreover have "view_attempts (table_view db) i \<le> int4_max" for i
    using assms(1) by (auto simp: view_attempts_def table_view_def row_view_def lookup_job_def find_Some_iff
        wf_db_def jobs_ok_def row_ok_def int4_max_def split: option.splits)
  ultimately show ?thesis by (meson order_trans)
qed

lemma fold_apply_from_ch:
  assumes "\<forall>e \<in> set es. 0 \<le> e_attempts e \<and> e_attempts e \<le> int4_max"
  shows "fold apply_event (map from_ch (map to_ch es)) v = fold apply_event es v"
  using assms
proof (induction es arbitrary: v)
  case (Cons e es)
  then have "go_uint32 (e_attempts e) = e_attempts e" by (simp add: go_uint32_id)
  with Cons show ?case by (simp add: apply_from_ch)
qed simp

text \<open>
  C14. ClickHouse knows every job: once the outbox is shipped, however shippers, crashes, partial
  batches and merges interleaved with the store calls before, the deduplicated ClickHouse table
  alone rebuilds the status, the attempts and the last error of every row of the jobs table, and
  shows no other job.
\<close>

theorem clickhouse_rebuilds_jobs:
  assumes "ship_step\<^sup>*\<^sup>* ship_init s" "\<forall>e \<in> set (job_events (sh_db s)). \<not> unshipped e"
  shows "replay (map from_ch (ch_final (sh_ch s))) = table_view (sh_db s)"
proof -
  have inv: "wf_db (sh_db s)" "shipped_ok (sh_db s) (sh_ch s)"
    using shippers.reachable_inv [OF assms(1) ship_inv_init] by (simp_all add: ship_inv_def)
  have "replay (map from_ch (ch_final (sh_ch s))) = replay (job_events (sh_db s))"
    unfolding ch_final_events [OF inv assms(2)] replay_def
    using wf_event_attempts [OF inv(1)] by (intro fold_apply_from_ch) blast
  then show ?thesis using inv(1) by (simp add: wf_db_def log_ok_def)
qed

theorem clickhouse_rebuilds_jobs_witness:
  "sh_ch sample_shipped \<noteq> [] \<and> replay (map from_ch (ch_final (sh_ch sample_shipped))) = table_view (sh_db sample_shipped)"
proof
  show "sh_ch sample_shipped \<noteq> []" by code_simp
  have "list_all (\<lambda>e. \<not> unshipped e) (job_events (sh_db sample_shipped))" by code_simp
  then show "replay (map from_ch (ch_final (sh_ch sample_shipped))) = table_view (sh_db sample_shipped)"
    by (intro clickhouse_rebuilds_jobs [OF sample_shipped_reachable]) (simp add: list_all_iff)
qed

section \<open>A write_file job from submission to file\<close>

text \<open>
  What the disk must allow: no error on the way to the target or for the write, no file where a
  directory is needed, and no directory in the target's place.
\<close>

definition disk_ready :: "string \<Rightarrow> os_env \<Rightarrow> fs \<Rightarrow> bool" where
  "disk_ready target env fs \<longleftrightarrow>
     (\<forall>q. ancestor q (os_path target) \<longrightarrow> os_mkdir_err env q = None \<and> (\<forall>c. fs q \<noteq> Some (File c))) \<and>
     os_write_fault env (os_path target) = NoWriteFault \<and> fs (os_path target) \<noteq> Some Directory"

lemma mkdir_from_succeeds:
  assumes "\<forall>q. ancestor q (rt, dir @ cs @ [d]) \<longrightarrow> os_mkdir_err env q = None \<and> (\<forall>c. fs q \<noteq> Some (File c))"
  shows "fst (mkdir_from env rt dir cs fs) = None"
  using assms
proof (induction cs arbitrary: dir fs)
  case (Cons c cs)
  let ?p = "(rt, dir @ [c])"
  have p: "os_mkdir_err env ?p = None" "\<forall>c. fs ?p \<noteq> Some (File c)"
    using Cons.prems ancestor_mid [of rt dir c cs d] by simp_all
  have "fst (mkdir_from env rt (dir @ [c]) cs fs) = None"
    "fst (mkdir_from env rt (dir @ [c]) cs (fs(?p \<mapsto> Directory))) = None"
    using Cons.prems by (auto intro!: Cons.IH simp del: split_paired_All split: if_splits)
  with p show ?case by (auto simp: Let_def split: option.split node.split)
qed simp

lemma mkdir_from_spares:
  assumes "mkdir_from env rt dir cs fs = (r, fs')"
  shows "fs' (rt, dir @ cs @ [d]) = fs (rt, dir @ cs @ [d])"
  using touches_onlyD [OF mkdir_from_touches [OF assms, of "CHR ''x'' # d"], of "(rt, dir @ cs @ [d])"]
  by (auto simp: ancestor_def)

lemma write_file_succeeds:
  assumes "base_ok b" "unmarshal (j_payload j) = Inr p" "wf_Name p \<noteq> ''''" "write_target b (wf_Name p) = Some target"
    and "disk_ready target (wd_os wd) (wd_fs wd)"
  shows "fst (WriteFileHandler unmarshal b j wd) = HNil"
proof -
  from assms(1,4) obtain rest where t: "target = path_string (rooted b) (base_comps b @ rest)"
    and pl: "\<forall>c \<in> set (base_comps b @ rest). plain c \<and> c \<noteq> ''..''" and ne: "rest \<noteq> []"
    by (rule write_target_comps)
  define cs where "cs = butlast (base_comps b @ rest)"
  define d where "d = last (base_comps b @ rest)"
  have split: "base_comps b @ rest = cs @ [d]" using ne by (metis append_butlast_last_id append_is_Nil_conv cs_def d_def)
  have os: "os_path target = (rooted b, cs @ [d])" unfolding t split [symmetric] using pl by (intro os_path_string) blast
  have ready: "\<forall>q. ancestor q (rooted b, cs @ [d]) \<longrightarrow> os_mkdir_err (wd_os wd) q = None \<and> (\<forall>c. wd_fs wd q \<noteq> Some (File c))"
    "os_write_fault (wd_os wd) (rooted b, cs @ [d]) = NoWriteFault" "wd_fs wd (rooted b, cs @ [d]) \<noteq> Some Directory"
    using assms(5) unfolding disk_ready_def os by simp_all
  obtain r1 fs1 where M: "MkdirAll (wd_os wd) (Dir target) (wd_fs wd) = (r1, fs1)" by fastforce
  have pl': "\<forall>c \<in> set cs. plain c" using pl unfolding split by simp
  have run: "mkdir_from (wd_os wd) (rooted b) [] cs (wd_fs wd) = (r1, fs1)"
    using M Dir_path_string [OF pl] os_path_string [OF pl'] by (simp add: MkdirAll_def t split)
  have r1: "r1 = None" using mkdir_from_succeeds [of "rooted b" "[]" cs d, OF _] ready(1) run by (metis append_Nil fst_conv)
  have "fs1 (rooted b, cs @ [d]) \<noteq> Some Directory" using mkdir_from_spares [OF run, of d] ready(3) by simp
  moreover have "is_dir fs1 (rooted b, cs)"
    using mkdir_from_dirs [OF run [unfolded r1], of "length cs"] by (cases cs) (auto simp: is_dir_def)
  ultimately have "fst (WriteFile (wd_os wd) target (wf_Content p) fs1) = None"
    using ready(2) by (simp add: WriteFile_def os is_dir_def Let_def)
  then show ?thesis using assms(2-4) M r1 by (auto simp: WriteFileHandler_def split: prod.splits option.splits)
qed

lemma Unmarshal_spelling:
  "json_parse p = json_parse q \<Longrightarrow> Unmarshal_writeFile text q = Inr v \<Longrightarrow> Unmarshal_writeFile text p = Inr v"
  by (cases "json_parse q") (auto simp: Unmarshal_writeFile_def Unmarshal_def split: json.splits prod.splits option.splits)

lemma claim_turnD:
  assumes "claim_turn w t s = (j # js, s1)"
  obtains "Claim (t_pg t) (w_id w) (w_leaseDuration w) 1 (run_calls (t_before t) (ws_db s)) = (Inr (j # js), ws_db s1)"
    "ws_world s1 = ws_world s"
  using assms by (auto simp: claim_turn_def Let_def split: prod.splits sum.splits)

text \<open>The job a worker claims, whatever happened to it since it was submitted.\<close>

lemma claimed_submission:
  assumes "wf_db db" "Server_Submit ot env ctx ty p db = (Inr i, db1)"
    and "ws_db s = run_calls cs db1" "claim_turn w t s = (j # js, s1)" "j_id j = i"
  obtains p' r where "pg_jsonb env p = Some p'" "j_type j = ty" "j_payload j = p'"
    "wf_db (ws_db s1)" "lookup_job (j_id j) (ws_db s1) = Some r" "ws_world s1 = ws_world s"
proof -
  let ?tc = "Inject ot (ot_start ot ctx ''submit'')" and ?db = "run_calls (t_before t) (ws_db s)"
  have E: "Enqueue env ty p ?tc db = (Inr i, db1)"
    using assms(2) by (auto simp: Server_Submit_def Let_def split: prod.splits sum.splits)
  then obtain p' where p': "pg_jsonb env p = Some p'" and i: "i = next_job_id db"
    and rows: "jobs db1 = jobs db @ [new_job_row env i ty p' ?tc]" by (rule enqueue_SuccessD)
  have "lookup_job i db1 = Some (new_job_row env i ty p' ?tc)" using lookup_enqueued [OF assms(1)] rows i by simp
  then obtain r where r: "lookup_job (j_id j) ?db = Some r" "row_identity r = row_identity (new_job_row env i ty p' ?tc)"
    unfolding assms(3,5) run_calls_append [symmetric] by (rule keeps_identityD [OF run_calls_keep])
  have wf: "wf_db ?db"
    using wf_exec_call [OF assms(1), of env "CallEnqueue ty p ?tc"] E by (simp add: wf_run_calls assms(3))
  from assms(4) have C: "Claim (t_pg t) (w_id w) (w_leaseDuration w) 1 ?db = (Inr (j # js), ws_db s1)"
    and world: "ws_world s1 = ws_world s" by (auto elim: claim_turnD)
  have "wf_db (ws_db s1)"
    using wf_exec_call [OF wf, of "t_pg t" "CallClaim (w_id w) (w_leaseDuration w) 1"] C by simp
  moreover obtain r' where "lookup_job (j_id j) (ws_db s1) = Some r'"
    by (rule claimed_row [OF wf C, of j]) simp_all
  moreover have "j_type j = ty" "j_payload j = p'"
    using claimed_identity(1,2) [OF wf C _ r(1)] r(2) by (simp_all add: row_identity_def new_job_row_def)
  ultimately show ?thesis using that p' world by blast
qed

text \<open>
  C9. End to end: a client submits a write_file job for a name and a content of valid UTF-8, and
  whatever the queue goes through before and after, once a worker with a ready disk has claimed the job and
  processed it, the file under the base directory holds exactly the content, the directories above
  it exist, nothing else on the disk has changed, and a status request shows the job completed.
  The database stores the JSON value it was given, in its own spelling.
\<close>

theorem submitted_file_is_written:
  assumes "wf_db db" "utf8_valid name" "utf8_valid content" "name \<noteq> ''''"
    and "base_ok (WriteFileDir cfg)" "write_target (WriteFileDir cfg) name = Some target"
    and submit: "Server_Submit ot env ctx ''write_file'' (write_file_doc name content) db = (Inr i, db1)"
    and jsonb: "map_option json_parse (pg_jsonb env (write_file_doc name content)) = Some (json_parse (write_file_doc name content))"
    and claim: "ws_db s = run_calls cs db1" "claim_turn w t s = (j # js, s1)" "j_id j = i"
    and "disk_ready target (wd_os (ws_world s)) (wd_fs (ws_world s))"
    and "pg_fault (pe_pg pe) = NoFault" "pg_fault env' = NoFault"
  shows "\<exists>s2 u. process w (Dispatch (newHandlerRegistry wording parse_float zero add cfg)) pe j s1 = Some s2 \<and>
     wd_fs (ws_world s2) = (\<lambda>q. if q = os_path target then Some (File content)
       else if ancestor q (os_path target) then Some Directory else wd_fs (ws_world s) q) \<and>
     Server_GetStatus env' i (ws_db s2) = Inr u \<and> u_id u = i \<and> u_status u = ''completed''"
proof -
  let ?doc = "write_file_doc name content" and ?b = "WriteFileDir cfg"
  let ?h = "Dispatch (newHandlerRegistry wording parse_float zero add cfg)" and ?wd = "ws_world s"
  obtain p' r where j: "pg_jsonb env ?doc = Some p'" "j_type j = ''write_file''" "j_payload j = p'"
    and s1: "wf_db (ws_db s1)" "lookup_job (j_id j) (ws_db s1) = Some r" "ws_world s1 = ?wd"
    by (rule claimed_submission [OF assms(1) submit claim])
  have U: "Unmarshal_writeFile wording (j_payload j) = Inr \<lparr>wf_Name = name, wf_Content = content\<rparr>"
    by (rule Unmarshal_spelling [OF _ unmarshal_write_file_doc [OF assms(2,3)]]) (use jsonb j in simp)
  have "fst (WriteFileHandler (Unmarshal_writeFile wording) ?b j ?wd) = HNil"
    by (rule write_file_succeeds [where unmarshal = "Unmarshal_writeFile wording", OF assms(5) U]) (use assms(4,6,12) in simp_all)
  then obtain wd' where H: "WriteFileHandler (Unmarshal_writeFile wording) ?b j ?wd = (HNil, wd')"
    by (metis prod.collapse)
  have "?h j (ws_world s1) = (HNil, wd')"
    by (simp add: newHandlerRegistry_def Dispatch_Register j(2) s1(3) H)
  moreover obtain q where "lookup_job (j_id j) (report_db pe s1) = Some q"
    using keeps_identityD [OF run_calls_keep s1(2)] by metis
  ultimately obtain s2 where s2: "process w ?h pe j s1 = Some s2" "ws_world s2 = wd'"
    "lookup_job (j_id j) (ws_db s2) = Some (complete_row (pe_pg pe) q)"
    using process_success_completes [OF s1(1) assms(13)] by blast
  have fs: "wd_fs wd' = (\<lambda>q. if q = os_path target then Some (File content)
       else if ancestor q (os_path target) then Some Directory else wd_fs ?wd q)"
  proof
    fix q
    have run: "touches_only (os_path target) (wd_fs ?wd) (wd_fs wd')"
      "wd_fs wd' (os_path target) = Some (File content)"
      "\<forall>q. ancestor q (os_path target) \<longrightarrow> wd_fs wd' q = Some Directory"
      using write_file_run [where unmarshal = "Unmarshal_writeFile wording", OF assms(5) U _ H] assms(6) by simp_all
    then show "wd_fs wd' q = (if q = os_path target then Some (File content)
       else if ancestor q (os_path target) then Some Directory else wd_fs ?wd q)"
      using touches_onlyD [OF run(1), of q] by metis
  qed
  have "Server_GetStatus env' i (ws_db s2) = Inr (to_update (to_snapshot (complete_row (pe_pg pe) q)))"
    using s2(3) assms(14) claim(3) by (simp add: Server_GetStatus_def store_GetStatus_eq)
  moreover have "r_id q = i" using lookup_job_id [OF s2(3)] claim(3) by (simp add: complete_row_def)
  ultimately show ?thesis using s2 fs
    by (intro exI [of _ s2]) (simp add: to_update_def to_snapshot_def complete_row_def)
qed

section \<open>The hypotheses at a concrete job\<close>

definition file_submit :: "(rpc_err + int) \<times> db" where
  "file_submit = Server_Submit sample_otel (sample_env 100) ''x'' ''write_file''
     (write_file_doc ''hello.txt'' ''hi'') empty_db"

definition file_state :: "unit world wstate" where
  "file_state = \<lparr>ws_db = run_calls [] (snd file_submit), ws_metrics = new_metrics, ws_spans = [], ws_log = [], ws_world = sample_world\<rparr>"

theorem submitted_file_is_written_witness:
  "\<exists>j s1 s2. claim_turn sample_worker (sample_turn 200) file_state = ([j], s1) \<and>
     process sample_worker (Dispatch (newHandlerRegistry (\<lambda>_. '''') (\<lambda>_. None) () (\<lambda>_ _. ()) sample_config)) (sample_proc 300) j s1 = Some s2 \<and>
     wd_fs (ws_world s2) (os_path ''data/writes/hello.txt'') = Some (File ''hi'')"
proof -
  let ?doc = "write_file_doc ''hello.txt'' ''hi''"
  have "map_sum (\<lambda>_. ()) id (fst file_submit) = Inr 1" by code_simp
  then have submit: "Server_Submit sample_otel (sample_env 100) ''x'' ''write_file'' ?doc empty_db = (Inr 1, snd file_submit)"
    unfolding file_submit_def by (cases "fst (Server_Submit sample_otel (sample_env 100) ''x'' ''write_file'' ?doc empty_db)")
      (simp_all add: prod_eq_iff)
  have "map j_id (fst (claim_turn sample_worker (sample_turn 200) file_state)) = [1]" by code_simp
  then obtain j s1 where C: "claim_turn sample_worker (sample_turn 200) file_state = ([j], s1)" "j_id j = 1"
    by (cases "claim_turn sample_worker (sample_turn 200) file_state") auto
  have target: "write_target (WriteFileDir sample_config) ''hello.txt'' = Some ''data/writes/hello.txt''"
    "base_ok (WriteFileDir sample_config)" "utf8_valid ''hello.txt''" "utf8_valid ''hi''" by code_simp+
  have disk: "disk_ready ''data/writes/hello.txt'' (wd_os (ws_world file_state)) (wd_fs (ws_world file_state))"
    by (simp add: disk_ready_def file_state_def sample_world_def)
  have jsonb: "map_option json_parse (pg_jsonb (sample_env 100) ?doc) = Some (json_parse ?doc)" by (simp add: sample_env_def)
  have db: "ws_db file_state = run_calls [] (snd file_submit)" by (simp add: file_state_def)
  from submitted_file_is_written [where pe = "sample_proc 300" and env' = "sample_env 400" and wording = "\<lambda>_. ''''" and
      parse_float = "\<lambda>_. None" and zero = "()" and add = "\<lambda>_ _. ()",
      OF wf_empty_db target(3,4) _ target(2,1) submit jsonb db C disk]
  obtain s2 where "process sample_worker (Dispatch (newHandlerRegistry (\<lambda>_. '''') (\<lambda>_. None) () (\<lambda>_ _. ()) sample_config)) (sample_proc 300) j s1 = Some s2"
    "wd_fs (ws_world s2) (os_path ''data/writes/hello.txt'') = Some (File ''hi'')"
    by auto
  with C show ?thesis by blast
qed

end
