(* ===== verification/Durations.thy ===== *)
theory Durations
  imports Backlog EndToEnd
begin

text \<open>
  What the duration report measures. Its query makes one pass over the events, grouped by job and
  attempt; in a queue whose workers report in time this gives the samples of the join it stands for,
  each claim with the completed or failed event of the same attempt.
\<close>

section \<open>The events of one attempt\<close>

definition ends_attempt :: "'a event_scheme \<Rightarrow> bool" where
  "ends_attempt e \<longleftrightarrow> e_event_type e = EventCompleted \<or> e_event_type e = EventFailed"

definition starts_attempt :: "'a event_scheme \<Rightarrow> bool" where
  "starts_attempt e \<longleftrightarrow> e_event_type e = EventClaimed"

definition attempt_key :: "'a event_scheme \<Rightarrow> int \<times> int" where
  "attempt_key e = (e_job_id e, e_attempts e)"

definition attempt_events :: "int \<times> int \<Rightarrow> 'a event_scheme list \<Rightarrow> 'a event_scheme list" where
  "attempt_events k es = filter (\<lambda>e. (starts_attempt e \<or> ends_attempt e) \<and> attempt_key e = k) es"

text \<open>
  In a log that follows the life of a job an attempt has no events yet, its claim, or its claim and
  then its end; only the last attempt of a finished job has an end.
\<close>

definition attempt_ok :: "(int \<Rightarrow> job_view option) \<Rightarrow> int \<times> int \<Rightarrow> 'a event_scheme list \<Rightarrow> bool" where
  "attempt_ok v = (\<lambda>(i, n) g.
     (case v i of
        None \<Rightarrow> g = []
      | Some (s, m, e) \<Rightarrow> 0 \<le> m \<and> (s = StatusRunning \<longrightarrow> 0 < m) \<and>
          (if n \<le> 0 \<or> m < n then g = []
           else (\<exists>c. g = [c] \<and> starts_attempt c) \<or>
             (\<exists>c d. g = [c, d] \<and> starts_attempt c \<and> ends_attempt d \<and> n = m \<and> (s = StatusCompleted \<or> s = StatusFailed)))))"

lemma attempt_ok_step:
  assumes "\<forall>k. attempt_ok v k (attempt_events k es)" "legal_event v e"
    and "follows (e_event_type e) (map_option fst (v (e_job_id e)))"
  shows "attempt_ok (apply_event e v) k (attempt_events k (es @ [e]))"
proof (cases "fst k = e_job_id e")
  case False
  then show ?thesis using assms(1) [rule_format, of k]
    by (cases k) (auto simp: attempt_ok_def attempt_events_def attempt_key_def apply_event_def)
next
  case True
  then obtain n where k: "k = (e_job_id e, n)" by (cases k) auto
  have old: "attempt_ok v (e_job_id e, n) (attempt_events (e_job_id e, n) es)" using assms(1) by blast
  have app: "attempt_events (e_job_id e, n) (es @ [e]) = attempt_events (e_job_id e, n) es @
      (if (starts_attempt e \<or> ends_attempt e) \<and> e_attempts e = n then [e] else [])"
    by (simp add: attempt_events_def attempt_key_def)
  show ?thesis
  proof (cases "v (e_job_id e)")
    case None
    with assms(2) old show ?thesis
      by (auto simp: app k attempt_ok_def apply_event_def legal_event_def starts_attempt_def ends_attempt_def)
  next
    case (Some sv)
    obtain s m err where sv: "sv = (s, m, err)" by (cases sv)
    show ?thesis
      using assms(2,3) old Some sv
      by (cases "e_event_type e") (auto simp: app k attempt_ok_def apply_event_def legal_event_def starts_attempt_def ends_attempt_def)
  qed
qed

lemma attempt_shape:
  "legal_from Map.empty es \<Longrightarrow> life_from Map.empty es \<Longrightarrow> \<forall>k. attempt_ok (replay es) k (attempt_events k es)"
proof (induction es rule: rev_induct)
  case Nil
  then show ?case by (simp add: attempt_ok_def replay_def attempt_events_def)
next
  case (snoc e es)
  then have "legal_event (replay es) e" "follows (e_event_type e) (map_option fst (replay es (e_job_id e)))"
    "\<forall>k. attempt_ok (replay es) k (attempt_events k es)"
    by (simp_all add: legal_from_append life_from_append replay_def)
  from attempt_ok_step [OF this(3,1,2)] show ?case by (simp add: replay_append)
qed

text \<open>So an attempt has at most a claim and an end, also among the events of a window.\<close>

definition paired :: "'a event_scheme list \<Rightarrow> bool" where
  "paired es \<longleftrightarrow> (\<forall>k. case attempt_events k es of [] \<Rightarrow> True | [e] \<Rightarrow> True
     | [c, d] \<Rightarrow> starts_attempt c \<and> ends_attempt d | _ \<Rightarrow> False)"

lemma paired_life: "legal_from Map.empty es \<Longrightarrow> life_from Map.empty es \<Longrightarrow> paired es"
  unfolding paired_def
proof
  fix k assume "legal_from Map.empty es" "life_from Map.empty es"
  from attempt_shape [OF this, rule_format, of k]
  show "case attempt_events k es of [] \<Rightarrow> True | [e] \<Rightarrow> True | [c, d] \<Rightarrow> starts_attempt c \<and> ends_attempt d | _ \<Rightarrow> False"
    by (cases k) (auto simp: attempt_ok_def split: option.splits if_splits)
qed

lemma attempt_events_filter: "attempt_events k (filter P es) = filter P (attempt_events k es)"
  by (simp add: attempt_events_def conj_commute)

lemma attempt_cases:
  assumes "paired es"
  obtains "attempt_events k es = []"
    | c where "attempt_events k es = [c]" "starts_attempt c"
    | d where "attempt_events k es = [d]" "ends_attempt d"
    | c d where "attempt_events k es = [c, d]" "starts_attempt c" "ends_attempt d"
proof -
  have "\<forall>e \<in> set (attempt_events k es). starts_attempt e \<or> ends_attempt e" by (simp add: attempt_events_def)
  with assms [unfolded paired_def, rule_format, of k] that show thesis by (auto split: list.splits)
qed

lemma paired_filter: "paired es \<Longrightarrow> paired (filter P es)"
  unfolding paired_def [of "filter P es"]
proof
  fix k assume "paired es"
  then show "case attempt_events k (filter P es) of [] \<Rightarrow> True | [e] \<Rightarrow> True | [c, d] \<Rightarrow> starts_attempt c \<and> ends_attempt d | _ \<Rightarrow> False"
    by (cases rule: attempt_cases [of es k]) (simp_all add: attempt_events_filter)
qed

section \<open>The join\<close>

definition millis :: "'a event_scheme \<Rightarrow> int" where
  "millis e = e_occurred_at e div 1000"

definition samples_of :: "'a event_scheme list \<Rightarrow> 'a event_scheme \<Rightarrow> (string \<times> int) list" where
  "samples_of es d = concat (map (\<lambda>c. if 0 < millis c \<and> millis c < millis d then [(e_job_type c, millis d - millis c)] else [])
     (filter (\<lambda>c. starts_attempt c \<and> attempt_key c = attempt_key d) es))"

definition joined_samples :: "'a event_scheme list \<Rightarrow> (string \<times> int) list" where
  "joined_samples es = concat (map (samples_of es) (filter ends_attempt es))"

lemma kinds_exclusive: "starts_attempt e \<Longrightarrow> \<not> ends_attempt e"
  by (auto simp: starts_attempt_def ends_attempt_def)

lemma filter_attempt:
  "filter (\<lambda>e. starts_attempt e \<and> attempt_key e = k) es = filter starts_attempt (attempt_events k es)"
  "filter (\<lambda>e. ends_attempt e \<and> attempt_key e = k) es = filter ends_attempt (attempt_events k es)"
  by (auto simp: attempt_events_def intro!: filter_cong)

text \<open>One group of the query gives what the join gives for the ends in it.\<close>

lemma group_sample:
  assumes "paired es"
  shows "(let g = map to_ch (attempt_events k es);
      claimed = minIf (\<lambda>r. c_event_type r = ''claimed'') g;
      done = minIf (\<lambda>r. c_event_type r \<in> {''completed'', ''failed''}) g
    in if 0 < claimed \<and> claimed < done then [(c_job_type (hd g), done - claimed)] else []) =
    concat (map (samples_of es) (filter ends_attempt (attempt_events k es)))"
proof -
  have starts: "c_event_type (to_ch e) = ''claimed'' \<longleftrightarrow> starts_attempt e"
    and ends: "c_event_type (to_ch e) \<in> {''completed'', ''failed''} \<longleftrightarrow> ends_attempt e" for e :: "'a event_scheme"
    by (cases "e_event_type e"; simp add: to_ch_def starts_attempt_def ends_attempt_def)+
  have join: "samples_of es d = concat (map (\<lambda>c. if 0 < millis c \<and> millis c < millis d then [(e_job_type c, millis d - millis c)] else [])
      (filter starts_attempt (attempt_events (attempt_key d) es)))" for d
    by (simp add: samples_of_def filter_attempt)
  show ?thesis
  proof (cases rule: attempt_cases [OF assms, of k])
    case 1
    then show ?thesis by (simp add: minIf_def)
  next
    case (2 c)
    then show ?thesis using kinds_exclusive [OF 2(2)] by (simp add: minIf_def starts ends Let_def del: insert_iff)
  next
    case (3 d)
    have "attempt_key d = k" using arg_cong [OF 3(1), of set] by (auto simp: attempt_events_def)
    with 3 kinds_exclusive [of d] show ?thesis by (auto simp: minIf_def starts ends join Let_def simp del: insert_iff)
  next
    case (4 c d)
    have "attempt_key d = k" using arg_cong [OF 4(1), of set] by (auto simp: attempt_events_def)
    with 4 kinds_exclusive [OF 4(2)] kinds_exclusive [of d] show ?thesis
      by (auto simp: minIf_def starts ends join Let_def millis_def simp del: insert_iff) (auto simp: to_ch_def)
  qed
qed

lemma mset_by_key:
  assumes "distinct ks" "\<forall>x \<in> set xs. key x \<in> set ks"
  shows "mset (concat (map f xs)) = sum_list (map (\<lambda>k. mset (concat (map f (filter (\<lambda>x. key x = k) xs)))) ks)"
  using assms(2)
proof (induction xs)
  case (Cons x xs)
  have "sum_list (map (\<lambda>k. mset (concat (map f (filter (\<lambda>y. key y = k) (x # xs))))) ks) =
      sum_list (map (\<lambda>k. mset (concat (map f (filter (\<lambda>y. key y = k) xs))) + (if key x = k then mset (f x) else {#})) ks)"
    by (intro arg_cong [where f = sum_list] map_cong) auto
  also have "\<dots> = mset (concat (map f xs)) + sum_list (map (\<lambda>k. if key x = k then mset (f x) else {#}) ks)"
    using Cons by (simp add: sum_list_addf)
  also have "sum_list (map (\<lambda>k. if key x = k then mset (f x) else {#}) ks) = mset (f x)"
    using assms(1) Cons.prems by (simp add: sum_list_distinct_conv_sum_set)
  finally show ?case by simp
qed simp

lemma report_groups:
  assumes "\<forall>e \<in> set es. go_uint32 (e_attempts e) = e_attempts e"
  shows "filter (\<lambda>r. (c_job_id r, c_attempts r) = k) (filter (\<lambda>r. c_event_type r \<in> {''claimed'', ''completed'', ''failed''}) (map to_ch es)) =
     map to_ch (attempt_events k es)"
proof -
  have kind: "c_event_type (to_ch e) \<in> {''claimed'', ''completed'', ''failed''} \<longleftrightarrow> starts_attempt e \<or> ends_attempt e" for e :: "'a event_scheme"
    by (cases "e_event_type e"; simp add: to_ch_def starts_attempt_def ends_attempt_def)
  have "(c_job_id (to_ch e), c_attempts (to_ch e)) = attempt_key e" if "e \<in> set es" for e
    using assms that by (simp add: to_ch_def attempt_key_def)
  then show ?thesis
    unfolding filter_map comp_def kind filter_filter attempt_events_def by (intro arg_cong [where f = "map to_ch"] filter_cong) auto
qed

lemma durations_join:
  assumes "paired es" "\<forall>e \<in> set es. go_uint32 (e_attempts e) = e_attempts e"
  shows "mset (attempt_durations (map to_ch es)) = mset (joined_samples es)"
proof -
  let ?rows = "filter (\<lambda>r. c_event_type r \<in> {''claimed'', ''completed'', ''failed''}) (map to_ch es)"
  let ?key = "\<lambda>r. (c_job_id r, c_attempts r)"
  let ?ks = "sort (remdups (map ?key ?rows))"
  have "attempt_durations (map to_ch es) = concat (map (\<lambda>k. concat (map (samples_of es) (filter ends_attempt (attempt_events k es)))) ?ks)"
    unfolding attempt_durations_def group_by_def map_map comp_def prod.case report_groups [OF assms(2)]
    by (intro arg_cong [where f = concat] map_cong refl) (use group_sample [OF assms(1)] in \<open>simp add: Let_def\<close>)
  then have "mset (attempt_durations (map to_ch es)) =
      sum_list (map (\<lambda>k. mset (concat (map (samples_of es) (filter (\<lambda>d. attempt_key d = k) (filter ends_attempt es))))) ?ks)"
    by (simp add: mset_concat comp_def filter_attempt(2) [symmetric] conj_commute del: mset_map)
  also have "\<dots> = mset (joined_samples es)"
    unfolding joined_samples_def
  proof (rule mset_by_key [symmetric])
    have "?key (to_ch d) \<in> set (map ?key ?rows)" if "d \<in> set es" "ends_attempt d" for d
    proof -
      have "c_event_type (to_ch d) \<in> {''claimed'', ''completed'', ''failed''}"
        using that(2) by (auto simp: ends_attempt_def to_ch_def)
      with that(1) have "to_ch d \<in> set ?rows" by simp
      then show ?thesis unfolding set_map by (rule imageI)
    qed
    moreover have "?key (to_ch d) = attempt_key d" if "d \<in> set es" for d
      using assms(2) that by (simp add: to_ch_def attempt_key_def)
    ultimately show "\<forall>d \<in> set (filter ends_attempt es). attempt_key d \<in> set ?ks" by simp
  qed simp
  finally show ?thesis .
qed

section \<open>Duplicates\<close>

text \<open>
  The shipper delivers at least once and ClickHouse merges duplicates later. The query takes minima
  of groups, so it does not see them, nor the order of the rows.
\<close>

lemma minIf_Min: "minIf p rows = (let ts = c_occurred_at ` {r \<in> set rows. p r} in if ts = {} then 0 else Min ts)"
proof (cases "map c_occurred_at (filter p rows)")
  case Nil
  then show ?thesis by (auto simp: minIf_def filter_empty_conv)
next
  case (Cons t ts)
  have "c_occurred_at ` {r \<in> set rows. p r} = set (t # ts)" using arg_cong [OF Cons, of set] by auto
  then show ?thesis unfolding minIf_def Cons by (simp add: Let_def Min.set_eq_fold del: list.set)
qed

lemma durations_of_set:
  assumes "set rows = set rows'" "\<forall>x \<in> set rows. \<forall>y \<in> set rows. c_job_id x = c_job_id y \<longrightarrow> c_job_type x = c_job_type y"
  shows "attempt_durations rows = attempt_durations rows'"
proof -
  let ?kind = "\<lambda>r. c_event_type r \<in> {''claimed'', ''completed'', ''failed''}" and ?key = "\<lambda>r. (c_job_id r, c_attempts r)"
  let ?g = "\<lambda>rows k. filter (\<lambda>r. ?key r = k) (filter ?kind rows)"
  have keys: "sort (remdups (map ?key (filter ?kind rows))) = sort (remdups (map ?key (filter ?kind rows')))"
    using assms(1) by (simp add: sorted_list_of_set_sort_remdups [symmetric])
  have sets: "set (?g rows k) = set (?g rows' k)" for k using assms(1) by simp
  have mins: "minIf p (?g rows k) = minIf p (?g rows' k)" for p k using sets by (simp only: minIf_Min)
  have types: "c_job_type (hd (?g rows k)) = c_job_type (hd (?g rows' k))" if "k \<in> set (map ?key (filter ?kind rows))" for k
  proof -
    have ne: "?g rows k \<noteq> []" using that by (auto simp: filter_empty_conv)
    then have "set (?g rows k) \<noteq> {}" unfolding set_empty .
    then have ne': "?g rows' k \<noteq> []" unfolding sets [of k] set_empty .
    have same: "c_job_type x = c_job_type y" if "x \<in> set (?g rows k)" "y \<in> set (?g rows k)" for x y
      using that assms(2) by (cases k) auto
    have "hd (?g rows' k) \<in> set (?g rows k)" unfolding sets [of k] by (rule hd_in_set [OF ne'])
    then show ?thesis by (rule same [OF hd_in_set [OF ne]])
  qed
  show ?thesis
    unfolding attempt_durations_def group_by_def map_map comp_def prod.case keys [symmetric] mins
    by (intro arg_cong [where f = concat] map_cong refl) (use types in \<open>simp add: Let_def\<close>)
qed

text \<open>In every state of the queue all events of a job carry its type.\<close>

interpretation typed: step_invariant "sys_step timely" "\<lambda>s. wf_db (sy_db s) \<and> typed_log (sy_db s)" for timely
proof unfold_locales
  fix s s' assume "sys_step timely s s'" and inv: "wf_db (sy_db s) \<and> typed_log (sy_db s)"
  then obtain a where a: "sys_exec timely a s = Some s'" by (elim sys_stepE)
  have "typed_log (sy_db s')" using sys_exec_call [OF a] inv typed_exec_call by auto
  with wf_sys_exec [OF a] inv show "wf_db (sy_db s') \<and> typed_log (sy_db s')" by blast
qed

lemma typed_rows:
  assumes "(sys_step timely)\<^sup>*\<^sup>* sys_init s"
  shows "\<forall>x \<in> set (job_events (sy_db s)). \<forall>y \<in> set (job_events (sy_db s)). e_job_id x = e_job_id y \<longrightarrow> e_job_type x = e_job_type y"
proof -
  have "typed_log (sy_db s)"
    using typed.reachable_inv [OF assms] by (simp add: sys_init_def wf_empty_db) (simp add: typed_log_def empty_db_def)
  then show ?thesis unfolding typed_log_def by (metis option.inject)
qed

section \<open>The report\<close>

lemma mset_insert_desc: "mset (insert_desc lt x xs) = add_mset x (mset xs)"
proof -
  let ?p = "\<lambda>y. lt (dp_P99Seconds x) (dp_P99Seconds y)"
  have "mset xs = mset (takeWhile ?p xs) + mset (dropWhile ?p xs)" by (metis mset_append takeWhile_dropWhile_id)
  then show ?thesis by (simp add: insert_desc_def)
qed

lemma mset_ordered: "mset (foldr (insert_desc lt) xs []) = mset xs"
  by (induction xs) (simp_all add: mset_insert_desc)

lemma mset_filter_snd: "mset xs = mset ys \<Longrightarrow> mset (map snd (filter p xs)) = mset (map snd (filter p ys))"
  by (metis mset_filter mset_map)

definition windowed :: "'f report_env \<Rightarrow> duration \<Rightarrow> 'a event_scheme list \<Rightarrow> 'a event_scheme list" where
  "windowed env window es = filter (\<lambda>e. (re_now env - re_seconds env window) * 1000 \<le> millis e) es"

definition window_samples :: "'f report_env \<Rightarrow> duration \<Rightarrow> 'a event_scheme list \<Rightarrow> (string \<times> int) list" where
  "window_samples env window es = joined_samples (windowed env window es)"

lemma report_samples:
  assumes "(sys_step True)\<^sup>*\<^sup>* sys_init s" "set ch = set (map to_ch (job_events (sy_db s)))"
  shows "mset (attempt_durations (in_window env window ch)) = mset (window_samples env window (job_events (sy_db s)))"
proof -
  let ?es = "job_events (sy_db s)" and ?w = "windowed env window (job_events (sy_db s))"
  note inv = life_reachable [OF assms(1)]
  have sub: "set ?w \<subseteq> set ?es" by (auto simp: windowed_def)
  have rows: "set (in_window env window ch) = set (map to_ch ?w)"
    using assms(2) by (auto simp: in_window_def windowed_def millis_def to_ch_def)
  have "\<forall>x \<in> set (map to_ch ?w). \<forall>y \<in> set (map to_ch ?w). c_job_id x = c_job_id y \<longrightarrow> c_job_type x = c_job_type y"
    using typed_rows [OF assms(1)] sub by (auto simp: to_ch_def)
  then have "attempt_durations (in_window env window ch) = attempt_durations (map to_ch ?w)"
    using durations_of_set [OF rows] unfolding rows by blast
  moreover have "\<forall>e \<in> set ?w. go_uint32 (e_attempts e) = e_attempts e"
    using wf_event_attempts [OF inv(2)] go_uint32_id sub by blast
  moreover have "paired ?w"
    unfolding windowed_def using inv(2,4) by (intro paired_filter paired_life) (simp_all add: wf_db_def legal_ok_def life_log_def)
  ultimately show ?thesis using durations_join by (simp add: window_samples_def)
qed

text \<open>
  C22. The duration report measures attempts: in every state a queue of timely workers reaches, over
  a table that holds each of its events once or more, in any order, the one-pass query has one row
  for each job type with a sample, and its samples are those of the join, within the window, of each
  claim with the completed or failed event of the same attempt, less the pairs that fall into one
  millisecond. Duplicates that ClickHouse has not merged yet change nothing.
\<close>

theorem durations_pair_attempts:
  assumes "(sys_step True)\<^sup>*\<^sup>* sys_init s" "set ch = set (map to_ch (job_events (sy_db s)))"
    and "DurationPercentiles env window ch = Inr rows"
  shows "distinct (map dp_JobType rows) \<and> set (map dp_JobType rows) = fst ` set (window_samples env window (job_events (sy_db s))) \<and>
     (\<forall>r \<in> set rows. \<exists>ms. mset ms = mset (map snd (filter (\<lambda>d. fst d = dp_JobType r) (window_samples env window (job_events (sy_db s))))) \<and>
        dp_Samples r = int (length ms) \<and> dp_P99Seconds r = re_quantile99 env (map (re_millis env) ms))"
proof -
  let ?ds = "attempt_durations (in_window env window ch)"
  let ?types = "sort (remdups (map fst ?ds))"
  let ?ms = "\<lambda>t. map snd (filter (\<lambda>d. fst d = t) ?ds)"
  let ?row = "\<lambda>t. \<lparr>dp_JobType = t, dp_P99Seconds = re_quantile99 env (map (re_millis env) (?ms t)), dp_Samples = int (length (?ms t))\<rparr>"
  have ds: "mset ?ds = mset (window_samples env window (job_events (sy_db s)))" using report_samples [OF assms(1,2)] .
  have "rows = foldr (insert_desc (re_less env)) (map ?row ?types) []"
    using assms(3) unfolding DurationPercentiles_def
    by (auto simp: Let_def select_rows_def comp_def split: option.splits)
  then have rows: "mset rows = mset (map ?row ?types)" by (simp add: mset_ordered del: mset_map)
  have types: "mset (map dp_JobType rows) = mset ?types"
    using arg_cong [OF rows, of "image_mset dp_JobType"] by (simp add: multiset.map_comp comp_def)
  have "distinct (map dp_JobType rows)" using mset_eq_imp_distinct_iff [OF types] by simp
  moreover have "set (map dp_JobType rows) = fst ` set ?ds" using mset_eq_setD [OF types] by simp
  moreover have "set ?ds = set (window_samples env window (job_events (sy_db s)))" using ds by (rule mset_eq_setD)
  moreover have "\<exists>ms. mset ms = mset (map snd (filter (\<lambda>d. fst d = dp_JobType r) (window_samples env window (job_events (sy_db s))))) \<and>
      dp_Samples r = int (length ms) \<and> dp_P99Seconds r = re_quantile99 env (map (re_millis env) ms)" if "r \<in> set rows" for r
  proof -
    have "r \<in> set (map ?row ?types)" using that unfolding mset_eq_setD [OF rows] .
    then obtain t where "r = ?row t" by auto
    with mset_filter_snd [OF ds] show ?thesis by (intro exI [of _ "?ms t"]) auto
  qed
  ultimately show ?thesis by simp
qed

section \<open>The hypotheses at a concrete run\<close>

text \<open>
  A job is claimed at 1 s and completed 2 s later; another one is retried and never measured. The
  table has each event twice.
\<close>

definition duration_trace :: "sys_action list" where
  "duration_trace = [ATick 1000000, ASubmit (sample_env 0) ''a'' ''{}'' '''', ASubmit (sample_env 0) ''b'' ''{}'' '''',
     AClaim (sample_env 0) ''w'' sample_lease, AClaim (sample_env 0) ''w'' sample_lease, ATick 2000000,
     AReport 1 sample_worker HNil (sample_proc 0), AReport 0 sample_worker (HErr ''boom'') (sample_proc 0)]"

definition duration_state :: sys where
  "duration_state = (case sys_run True duration_trace sys_init of None \<Rightarrow> sys_init | Some s \<Rightarrow> s)"

definition duration_rows :: "ch_row list" where
  "duration_rows = (let rows = map to_ch (job_events (sy_db duration_state)) in rev rows @ rows)"

theorem durations_pair_attempts_witness:
  "\<exists>rows. DurationPercentiles sample_report_env 200000000000 duration_rows = Inr rows \<and> map dp_JobType rows = [''a''] \<and>
     window_samples sample_report_env 200000000000 (job_events (sy_db duration_state)) = [(''a'', 2000)]"
proof -
  have "sys_run True duration_trace sys_init \<noteq> None" by code_simp
  then have reach: "(sys_step True)\<^sup>*\<^sup>* sys_init duration_state" by (auto simp: duration_state_def sys_run_steps)
  have "map_sum (\<lambda>_. ()) length (DurationPercentiles sample_report_env 200000000000 duration_rows) = Inr 1" by code_simp
  then obtain rows where rows: "DurationPercentiles sample_report_env 200000000000 duration_rows = Inr rows" "length rows = 1"
    by (cases "DurationPercentiles sample_report_env 200000000000 duration_rows") auto
  have table: "set duration_rows = set (map to_ch (job_events (sy_db duration_state)))" by (simp add: duration_rows_def Let_def)
  have join: "window_samples sample_report_env 200000000000 (job_events (sy_db duration_state)) = [(''a'', 2000)]" by code_simp
  from durations_pair_attempts [OF reach table rows(1)]
  have "set (map dp_JobType rows) = {''a''}" unfolding join by simp
  with rows(2) have "map dp_JobType rows = [''a'']" by (cases rows) auto
  with rows(1) join show ?thesis by (intro exI [of _ rows] conjI)
qed

end
