(* ===== verification/PayloadSpec.thy ===== *)
theory PayloadSpec
  imports Payload
begin

text \<open>
  What the handlers can rely on when they decode a payload: a payload written as JSON comes back
  as it was written, and whatever bytes a payload holds, the fields that decode are well-formed.
\<close>

section \<open>Integers as JSON numbers\<close>

lemma digit_digit_char: "0 \<le> d \<Longrightarrow> d < 10 \<Longrightarrow> digit (digit_char d) \<and> is_digit (digit_char d)"
  by (simp add: digit_def between_def is_digit_def digit_char_value)

lemma digit_char_zero: "0 \<le> d \<Longrightarrow> d < 10 \<Longrightarrow> digit_char d = CHR ''0'' \<longleftrightarrow> d = 0"
proof -
  assume d: "0 \<le> d" "d < 10"
  have zero: "digit_char 0 = CHR ''0''" by code_simp
  show "digit_char d = CHR ''0'' \<longleftrightarrow> d = 0"
  proof
    assume "digit_char d = CHR ''0''"
    then have "(of_char (digit_char d) :: int) = of_char (digit_char 0)" by (simp add: zero)
    then show "d = 0" using d digit_char_value [of d] digit_char_value [of 0] by simp
  qed (simp add: zero)
qed

lemma fmt_int_shape:
  "0 \<le> n \<Longrightarrow> fmt_int n \<noteq> [] \<and> list_all digit (fmt_int n) \<and> list_all is_digit (fmt_int n) \<and>
     (hd (fmt_int n) = CHR ''0'' \<longrightarrow> n = 0)"
proof (induction n rule: fmt_int.induct)
  case (1 n)
  show ?case
  proof (cases "n < 10")
    case True
    with 1(2) show ?thesis by (simp add: fmt_int.simps [of n] digit_digit_char digit_char_zero)
  next
    case False
    then have "0 < n div 10" by simp
    with 1 False show ?thesis by (simp add: fmt_int.simps [of n] digit_digit_char)
  qed
qed

lemma fmt_int_number: "0 \<le> n \<Longrightarrow> scan_int (fmt_int n) = Some (fmt_int n, [])"
proof (cases "n = 0")
  case True
  have "scan_int (fmt_int 0) = Some (fmt_int 0, [])" by code_simp
  then show ?thesis using True by simp
next
  case False
  assume "0 \<le> n"
  with fmt_int_shape [of n] False obtain c s where c: "fmt_int n = c # s" "digit c" "list_all digit s" "c \<noteq> CHR ''0''"
    by (cases "fmt_int n") auto
  have "takeWhile digit s = s" "dropWhile digit s = []" using c(3) by (simp_all add: list_all_iff)
  with c show ?thesis by (simp add: scan_int_def split_while_def)
qed

lemma fmt_int_sign: "0 \<le> n \<Longrightarrow> hd (fmt_int n) \<noteq> CHR ''-'' \<and> hd (fmt_int n) \<noteq> CHR ''+''"
  using fmt_int_shape [of n] by (cases "fmt_int n") (auto simp: digit_def between_def)

lemma num_ok_fmt_d: "num_ok (fmt_d n)"
proof (cases "n < 0")
  case True
  with fmt_int_number [of "- n"] show ?thesis
    by (simp add: num_ok_def fmt_d_def scan_number_def split_minus_def scan_frac_def scan_exp_def)
next
  case False
  with fmt_int_number [of n] fmt_int_sign [of n] show ?thesis
    by (simp add: num_ok_def fmt_d_def scan_number_def split_minus_def scan_frac_def scan_exp_def)
qed

lemma Atoi_fmt_d:
  assumes "- (2 ^ 63) \<le> n" "n < 2 ^ 63"
  shows "Atoi (fmt_d n) = Inr n"
proof (cases "n < 0")
  case True
  with assms fmt_int_shape [of "- n"] digits_value_fmt_int [of "- n"] show ?thesis
    by (simp add: Atoi_def fmt_d_def split_sign_def)
next
  case False
  with fmt_int_shape [of n] fmt_int_sign [of n] obtain c s where "fmt_int n = c # s" "c \<noteq> CHR ''-''" "c \<noteq> CHR ''+''"
    by (cases "fmt_int n") auto
  with False assms fmt_int_shape [of n] digits_value_fmt_int [of n] show ?thesis
    by (simp add: Atoi_def fmt_d_def split_sign_def)
qed

section \<open>Payloads that come back\<close>

definition http_check_doc :: "string \<Rightarrow> int \<Rightarrow> string" where
  "http_check_doc url seconds = json_print (JObj [(''url'', JStr url), (''timeout_seconds'', JNum (fmt_d seconds))])"

definition sum_numbers_doc :: "string list \<Rightarrow> string" where
  "sum_numbers_doc ns = json_print (JObj [(''numbers'', JArr (map JNum ns))])"

lemma Unmarshal_http_check_doc:
  assumes "utf8_valid url" "- (2 ^ 63) \<le> n" "n < 2 ^ 63"
  shows "Unmarshal_httpCheck wording (http_check_doc url n) = Inr \<lparr>hc_URL = url, hc_TimeoutSeconds = word_of_int n\<rparr>"
proof -
  have "utf8_valid ''url''" "utf8_valid ''timeout_seconds''" by code_simp+
  with assms(1) Atoi_fmt_d [OF assms(2,3)] show ?thesis
    by (simp add: Unmarshal_httpCheck_def http_check_doc_def Unmarshal_print httpCheck_fields_def find_field_def
        string_field_def int_field_def num_ok_fmt_d maxNestingDepth_def)
qed

lemma json_Valid_print: "json_ok v \<Longrightarrow> json_depth v \<le> maxNestingDepth \<Longrightarrow> json_Valid (json_print v)"
  by (simp add: json_Valid_def reads_back)

text \<open>
  C26. Payloads come back as they were written: for every name, content and URL of valid UTF-8, every
  timeout an \<open>int\<close> holds and every list of numbers in the range of \<open>float64\<close>, the client accepts
  the payload written for it, and the handler of its type decodes exactly these values from it.
\<close>

theorem payloads_read_back:
  assumes "utf8_valid name" "utf8_valid content" "utf8_valid url" "- (2 ^ 63) \<le> seconds" "seconds < 2 ^ 63"
    and "list_all num_ok ns" "list_all (\<lambda>n. parse_float n \<noteq> None) ns"
  shows "json_Valid (write_file_doc name content) \<and>
       Unmarshal_writeFile wording (write_file_doc name content) = Inr \<lparr>wf_Name = name, wf_Content = content\<rparr> \<and>
     json_Valid (http_check_doc url seconds) \<and>
       Unmarshal_httpCheck wording (http_check_doc url seconds) = Inr \<lparr>hc_URL = url, hc_TimeoutSeconds = word_of_int seconds\<rparr> \<and>
     json_Valid (sum_numbers_doc ns) \<and>
       Unmarshal_sumNumbers parse_float zero wording (sum_numbers_doc ns) = Inr (map (the \<circ> parse_float) ns)"
proof -
  have keys: "utf8_valid ''name''" "utf8_valid ''content''" "utf8_valid ''url''" "utf8_valid ''timeout_seconds''" "utf8_valid ''numbers''"
    by code_simp+
  have "json_Valid (write_file_doc name content)" "json_Valid (http_check_doc url seconds)" "json_Valid (sum_numbers_doc ns)"
    unfolding write_file_doc_def http_check_doc_def sum_numbers_doc_def
    using assms(1-3,6) by (auto intro!: json_Valid_print simp: keys num_ok_fmt_d maxNestingDepth_def list_all_iff fold_max_zero comp_def)
  then show ?thesis
    using unmarshal_write_file_doc [OF assms(1,2)] Unmarshal_http_check_doc [OF assms(3-5)]
      sum_numbers_payload_reads_back [OF assms(6,7)] by (simp add: sum_numbers_doc_def)
qed

section \<open>What decodes is well-formed\<close>

text \<open>Every decoder of a struct keeps a property of the struct on well-formed values, so the whole call does.\<close>

lemma decode_members_keeps:
  assumes "list_all (\<lambda>(k, v). json_ok v) ms" "P p"
    and keeps: "\<And>k d v p. (k, d) \<in> set fds \<Longrightarrow> json_ok v \<Longrightarrow> P p \<Longrightarrow> P (snd (d v p))"
  shows "P (snd (decode_members fds ms err p))"
  using assms(1,2)
proof (induction ms arbitrary: err p)
  case (Cons m ms)
  obtain k v where m: "m = (k, v)" by fastforce
  show ?case
  proof (cases "find_field fds k")
    case (Some d)
    then obtain name where "(name, d) \<in> set fds"
      by (auto simp: find_field_def find_Some_iff split: option.splits dest: map_of_SomeD) (metis nth_mem)
    moreover obtain ok p1 where "d v p = (ok, p1)" by fastforce
    moreover have "json_ok v" "list_all (\<lambda>(k, v). json_ok v) ms" using Cons.prems(1) by (simp_all add: m)
    ultimately show ?thesis using keeps [of name d v p] Cons.prems(2) Cons.IH [of p1] by (simp add: m Some)
  qed (use Cons in \<open>simp add: m\<close>)
qed simp

lemma Unmarshal_keeps:
  assumes "Unmarshal fds p data = Inr p'" "P p"
    and "\<And>k d v p. (k, d) \<in> set fds \<Longrightarrow> json_ok v \<Longrightarrow> P p \<Longrightarrow> P (snd (d v p))"
  shows "P p'"
proof -
  from assms(1) consider "p' = p" | ms where "json_parse data = Some (JObj ms)" "decode_members fds ms None p = (None, p')"
    by (auto simp: Unmarshal_def split: option.splits json.splits prod.splits)
  then show ?thesis
  proof cases
    case 2
    then have "list_all (\<lambda>(k, v). json_ok v) ms" using json_parse_well_formed [OF 2(1)] by (auto simp: list_all_iff)
    then have "P (snd (decode_members fds ms None p))"
      by (rule decode_members_keeps) (use assms(2,3) in blast)+
    with 2(2) show ?thesis by simp
  qed (simp add: assms(2))
qed

text \<open>A number a decoded slice may hold: zero, for a \<open>null\<close>, or the value of a JSON number.\<close>

definition decoded_float :: "(string \<Rightarrow> 'f option) \<Rightarrow> 'f \<Rightarrow> 'f \<Rightarrow> bool" where
  "decoded_float parse_float zero x \<longleftrightarrow> x = zero \<or> (\<exists>n. num_ok n \<and> parse_float n = Some x)"

lemma fill_array_decoded:
  assumes "list_all json_ok vs" "list_all (decoded_float parse_float zero) b"
  shows "list_all (decoded_float parse_float zero) (snd (fill_array parse_float zero vs b))"
  using assms
proof (induction parse_float zero vs b rule: fill_array.induct)
  case (2 parse_float zero v vs b)
  have "list_all (decoded_float parse_float zero) (tl b)" using 2(3) by (cases b) simp_all
  moreover have "decoded_float parse_float zero (snd (float_element parse_float v (case b of [] \<Rightarrow> zero | y # _ \<Rightarrow> y)))"
    using 2(2,3) by (cases b; cases v) (auto simp: float_element_def decoded_float_def split: option.split)
  ultimately show ?case using 2 by (auto split: prod.split)
qed simp

lemma floats_field_decoded:
  assumes "json_ok v" "list_all (decoded_float parse_float zero) (sn_backing q)"
  shows "list_all (decoded_float parse_float zero) (sn_backing (snd (floats_field parse_float zero v q)))"
proof (cases v)
  case (JArr vs)
  with assms(1) have "list_all json_ok vs" by simp
  from fill_array_decoded [OF this assms(2)] show ?thesis
    by (cases vs) (simp_all add: floats_field_def JArr case_prod_beta' Let_def del: fill_array.simps)
qed (use assms(2) in \<open>simp_all add: floats_field_def\<close>)


section \<open>The hypotheses at concrete payloads\<close>

theorem payloads_read_back_witness:
  "Unmarshal_httpCheck (\<lambda>_. '''') (http_check_doc ''http://x/'' (- 5)) = Inr \<lparr>hc_URL = ''http://x/'', hc_TimeoutSeconds = - 5\<rparr> \<and>
   Unmarshal_sumNumbers Some '''' (\<lambda>_. '''') (sum_numbers_doc [''1.5'', ''-2e3'']) = Inr [''1.5'', ''-2e3'']"
proof -
  have "utf8_valid ''n''" "utf8_valid ''http://x/''" "list_all num_ok [''1.5'', ''-2e3'']" by code_simp+
  from payloads_read_back [where parse_float = Some and zero = "''''" and wording = "\<lambda>_. ''''" and seconds = "- 5", OF this(1,1,2) _ _ this(3)]
  show ?thesis by simp
qed


end
