(* ===== verification/Spec2Isabelle.thy ===== *)
theory Spec2Isabelle
  imports Serve Fleet Observability Durations PayloadSpec
begin

text \<open>
  \<^bold>\<open>A verified model of the job queue.\<close>

  The program (src/) is a job queue on PostgreSQL. Clients submit jobs over gRPC; worker processes
  claim them under a lease, run the handler registered for their type, and complete, retry with
  backoff or dead-letter them; a reaper takes back jobs whose lease ran out. Every change of a job
  writes an event to an outbox table in the same statement, and a shipper copies that outbox to
  ClickHouse, where four reports read it. Prometheus metrics and OpenTelemetry traces accompany the
  work. PostgreSQL is the only state the processes share, so the components meet in the database:
  the model passes one record \<open>db\<close> (tables \<open>jobs\<close>, \<open>dead_letters\<close>, \<open>job_events\<close> and their id
  sequences) through the operations.

  \<^bold>\<open>Theories and the code they model.\<close>

  \<^item> Prelude: the collections of simplification rules (\<open>stmt_defs\<close>, \<open>call_defs\<close>, \<open>row_defs\<close>), Go
    errors (\<open>fmt.Errorf\<close> with \<open>%w\<close>, \<open>errors.Is\<close>), conversions between integer widths, the shape
    of an SQL update, and the locales \<open>row_update\<close> (an update that keeps ids and order) and
    \<open>step_invariant\<close> (an invariant of a step relation holds in every reachable state).
  \<^item> Job: internal/job (statuses, event types, jobs, snapshots, dead letters, events).
  \<^item> GoTime: \<open>time.Duration\<close> as a 64-bit word, its \<open>String\<close>, and the rounding of instants to
    microseconds that \<open>timestamptz\<close> does.
  \<^item> Store: internal/store/jobs.go over the tables of migrations/. One definition per SQL statement
    (\<open>claim_stmt\<close>, \<open>reap_stmt\<close>, ...) and one per method (\<open>Claim\<close>, ...), which wraps the error. A
    record \<open>pg_env\<close> holds what the database decides: the instant \<open>now()\<close>, the order of a scan,
    the rows other transactions lock, the validity of JSON, and a fault before the statement or
    after its commit.
  \<^item> StoreInv: sequences of store calls (\<open>run_calls\<close>), the well-formedness of the tables, the
    locale \<open>logged_update\<close> for statements that change jobs and log them, interpreted for each of
    them, and the refinement of the tables by their own outbox.
  \<^item> StoreSpec: what each method does on every branch, the selection of a claim, and that claims
    never hand out a job twice.
  \<^item> JobLife: what no store call changes in a job, how a row found later relates to its
    enqueueing, and that every statement logs the rows it changes, with their types.
  \<^item> Metrics: internal/metrics (instruments, descriptors, and the collector's scrape of the store).
  \<^item> Worker: internal/worker (\<open>New\<close>, \<open>calculateRetryDelay\<close>, \<open>execute\<close>, \<open>process\<close>, \<open>Run\<close>).
  \<^item> WorkerSpec: the backoff's bounds, the outcome of one job, invariants of a whole run (locale
    \<open>run_invariant\<close>), polling intervals, and the fate of a job that always fails.
  \<^item> System: clients, workers, reaper, crashes and the clock as one transition system.
  \<^item> GoLib: \<open>fmt\<close>, \<open>strings\<close>, \<open>path/filepath\<close> and the part of \<open>os\<close> the handlers use, over a file
    system of named nodes.
  \<^item> Handlers: internal/handlers (registry, \<open>http_check\<close>, \<open>write_file\<close>, \<open>sum_numbers\<close>).
  \<^item> Json: the part of \<open>encoding/json\<close> the program uses, over bytes: scanner, string literals with
    escapes, surrogates and replacement of broken UTF-8, and the decoder as a stack machine over
    tokens (\<open>json_parse\<close>, \<open>json_Valid\<close>).
  \<^item> JsonSpec: a reference printer, that the decoder reads back what it prints, and that whatever
    the decoder returns is well-formed.
  \<^item> Payload: \<open>json.Unmarshal\<close> into the payload structs of internal/handlers.
  \<^item> PayloadSpec: payloads come back as they were written, and decoded fields are well-formed.
  \<^item> Grpc: internal/tracing (\<open>Setup\<close>, \<open>Inject\<close>, \<open>Extract\<close>) and internal/grpcserver.
  \<^item> Analytics: the ClickHouse client's \<open>NewClient\<close> and \<open>InsertEvents\<close>, \<open>shipOnce\<close> and \<open>RunShipper\<close>, and any
    number of shippers as a step relation whose phases interleave.
  \<^item> Reports: internal/analytics/reports.go.
  \<^item> Config: internal/config and internal/logging, with \<open>strconv.Atoi\<close> and \<open>time.ParseDuration\<close>.
  \<^item> Cli: cmd/jobqueue/main.go and \<open>store.New\<close>.
  \<^item> Process: the goroutines of \<open>runWork\<close> (workers, reaper, shipper) as one transition system, from
    start-up over SIGINT or SIGTERM to the exit, inside the rest of the deployment.
  \<^item> Lifecycle: logs that follow the life of a job, what they say of it, and that a queue whose
    reaper and workers keep polling finishes every job. Its rounds are lists of actions, and the
    bound on their number is eleven for each job, less one for each event already logged.
  \<^item> Fleet: any number of worker processes on one database, started and killed at any time.
  \<^item> Serve: \<open>runServe\<close> from the listening server to the exit, with the calls in progress.
  \<^item> Observability: start-up without ClickHouse or traces, and the metrics server of \<open>runWork\<close>.
  \<^item> Backlog: finished jobs stay finished in such logs, and the backlog report over them.
  \<^item> Durations: the duration report over them.
  \<^item> EndToEnd: jobs rebuilt from ClickHouse, and a write_file job from its submission to its file.

  \<^bold>\<open>What the theorems show.\<close>

  The outbox: in every state any sequence of store calls can reach, replaying the events of a job
  gives its status, attempts and last error, and the events are a legal run of the job's life
  cycle; no event is lost on its way to ClickHouse by crashes or faults of shippers running at the
  same time, and after ClickHouse's merge the table is the outbox. Claims: a claim takes the best
  eligible jobs in the order the query states, changes nothing else, and no two claims return the
  same job without a retry or a reap in between. Leases: when workers report before their lease
  ends, every claim has one live holder, attempts never pass their maximum, finished jobs stay
  finished and the reaper's pass never fails on a conflict; the outbox then counts the attempts of
  each job, and every job comes to an end within a bounded number of rounds in which the reaper and
  a poll get through to the database, even when all workers were killed with the jobs they held;
  without that hypothesis a late report breaks all of this, which a concrete run shows. Workers: each outcome of the handler
  leads to its one effect on the row, the retry delay stays below the capped exponential even
  where the doubling overflows, and a job that always fails is dead-lettered after its last
  attempt. Handlers: \<open>write_file\<close> touches nothing outside its directory for every base directory
  that does not climb, and running it again, also after a crash in the middle, leaves the same
  file. Payloads: what a client writes as JSON the
  handlers decode, and a submitted write_file job ends as a file with its content. Shutdown: after
  the signal the goroutines of a worker process return within a bounded number of steps, and no
  job a worker holds is dropped; when the API process exits, every call it accepted has been answered
  and every job it acknowledged is stored, and it exits once the watched jobs are finished, but not
  before: a stream on an unfinished job holds it up for ever. Composition: a worker process, a fleet
  of them and the API process are refinements of the queue, so what holds of the queue holds of
  them, and neither ClickHouse, tracing nor the metrics server changes what they do. The API: what a submit promises a status request finds, a watch streams the states up to
  the terminal one, and a job's trace reaches the worker. Observation: ClickHouse alone
  rebuilds the jobs table once everything is shipped, the backlog report counts the unfinished
  jobs, the duration report pairs each claim with the end of its attempt, also
  over duplicates not merged yet, buckets partition the window, and a scrape of the metrics shows exactly what the tables
  hold. Configuration: \<open>Load\<close> returns exactly the values set.

  \<^bold>\<open>Arguments in place of code that is not in the repository.\<close>

  PostgreSQL's choices (\<open>pg_env\<close>), ClickHouse's answers (\<open>ch_env\<close>, \<open>report_env\<close>, with its
  approximate aggregates), OpenTelemetry (\<open>otel\<close>), the network (\<open>wd_http\<close>, \<open>rpc_env\<close>), the random
  source, clocks, the wording of JSON errors and \<open>float64\<close> arithmetic are arguments of the definitions; the
  theorems hold for all of them, except where a hypothesis says what is needed, and then a witness
  shows an instance. Endless loops (\<open>Run\<close>, \<open>RunShipper\<close>, \<open>runReaper\<close>, \<open>WatchStatus\<close>) recurse over
  the list of what their turns meet: a finite list is a prefix of a run, whose result says whether
  the loop has returned or is still going, so that no fuel is needed. The other loops are total
  functions with a termination proof.

  \<^bold>\<open>Not modelled.\<close>

  The generated protocol buffers code; connections and message framing of the HTTP and gRPC servers,
  of which the documented behaviour of \<open>ListenAndServe\<close>, \<open>Shutdown\<close>, \<open>Serve\<close> and \<open>GracefulStop\<close> is
  used; the flushing of spans, Prometheus' buckets and exposition format, and the deployment files. The statements run one at a time, as the rows they lock make them; two
  transactions that touch the same job in parallel are an interleaving of their statements.

  \<^bold>\<open>Plan.\<close> Done: store, outbox, claims, leases, workers, handlers with their JSON payloads, API,
  shipper, reports, metrics, configuration, command line, the worker and API processes with their
  shutdown, fleets, and the end-to-end statements. Next: the arrivals report and the drain estimate
  against the history of a timely queue.
\<close>

end
